(* ===== verification/Prelude.thy ===== *)
theory Prelude
  imports Main "HOL-Library.Word" "HOL-Library.Monad_Syntax"
begin

text \<open>
  Shared vocabulary of the development: the C integer types, the memory primitives
  (\<open>mem_read\<close> and \<open>mem_write\<close>, the two sides of a \<^verbatim>\<open>memcpy\<close>) and the
  arithmetic of power-of-two ring indices.

  A C operation whose behaviour would be undefined (an access outside an array, a use of freed
  memory) has the value \<^term>\<open>None\<close>; every operation of the model that touches memory
  therefore returns an \<^typ>\<open>'a option\<close>, and memory safety is the theorem that the value is
  some \<^term>\<open>Some r\<close>.
\<close>

unbundle bit_operations_syntax

section \<open>Types\<close>

type_synonym u8 = "8 word"
type_synonym u16 = "16 word"
type_synonym u32 = "32 word"
type_synonym u64 = "64 word"
type_synonym i32 = "32 word"
type_synonym i64 = "64 word"

text \<open>
  An output parameter \<^verbatim>\<open>T *p\<close> is the present content of its target, or
  \<^term>\<open>None\<close> for a null pointer; \<open>set_out\<close> is \<^verbatim>\<open>if (p) *p = v\<close>.
\<close>

definition set_out :: "'a option \<Rightarrow> 'a \<Rightarrow> 'a option" where
  "set_out p v = (case p of None \<Rightarrow> None | Some _ \<Rightarrow> Some v)"

section \<open>Named collections\<close>

named_theorems mem_simps \<open>evaluation of the memory primitives inside their bounds\<close>
named_theorems ring_index \<open>arithmetic of masked ring indices\<close>

section \<open>Memory primitives\<close>

definition mem_read :: "'a list \<Rightarrow> nat \<Rightarrow> nat \<Rightarrow> 'a list option" where
  "mem_read src off n =
     (if off + n \<le> length src then Some (take n (drop off src)) else None)"

definition mem_write :: "'a list \<Rightarrow> nat \<Rightarrow> 'a list \<Rightarrow> 'a list option" where
  "mem_write dst off src =
     (if off + length src \<le> length dst
      then Some (take off dst @ src @ drop (off + length src) dst) else None)"

lemma set_out_simps [simp]: "set_out None v = None" "set_out (Some w) v = Some v"
  by (simp_all add: set_out_def)

lemma mem_read_in [mem_simps]:
  "off + n \<le> length src \<Longrightarrow> mem_read src off n = Some (take n (drop off src))"
  by (simp add: mem_read_def)

lemma mem_read_out: "length src < off + n \<Longrightarrow> mem_read src off n = None"
  by (simp add: mem_read_def)

lemma mem_write_in [mem_simps]:
  "off + length src \<le> length dst \<Longrightarrow>
   mem_write dst off src = Some (take off dst @ src @ drop (off + length src) dst)"
  by (simp add: mem_write_def)

lemma mem_write_single [mem_simps]:
  "off < length dst \<Longrightarrow> mem_write dst off [x] = Some (dst[off := x])"
  by (simp add: mem_write_def upd_conv_take_nth_drop)

lemma mem_read_single [mem_simps]:
  "off < length src \<Longrightarrow> mem_read src off (Suc 0) = Some [src ! off]"
  by (simp add: mem_read_def take_Suc_conv_app_nth Cons_nth_drop_Suc [symmetric])

lemma mem_write_length: "mem_write dst off src = Some dst' \<Longrightarrow> length dst' = length dst"
  by (auto simp: mem_write_def split: if_splits)

lemma mem_write_nth:
  "mem_write dst off src = Some dst' \<Longrightarrow> i < length dst \<Longrightarrow>
   dst' ! i = (if off \<le> i \<and> i < off + length src then src ! (i - off) else dst ! i)"
  by (auto simp: mem_write_def nth_append split: if_splits)

section \<open>Masks and wrap-around\<close>

text \<open>
  A ring of capacity \<open>2 ^ k\<close> reduces its indices with \<open>AND (2 ^ k - 1)\<close>. On unsigned
  words this is the remainder modulo \<open>2 ^ k\<close>, also when the addition or subtraction before it
  wrapped around, because \<open>2 ^ k\<close> divides \<open>2 ^ 32\<close>.
\<close>

lemma unat_and_mask: "unat (x AND (2 ^ k - 1)) = unat (x :: 'a::len word) mod 2 ^ k"
proof -
  have "x AND (2 ^ k - 1) = take_bit k x"
    by (simp add: take_bit_eq_mask mask_eq_exp_minus_1)
  then have "unat (x AND (2 ^ k - 1)) = take_bit k (unat x)"
    by (simp add: unsigned_take_bit_eq)
  then show ?thesis by (simp add: take_bit_eq_mod)
qed

lemma mod_pow2_of_mod_word:
  "k \<le> LENGTH('a::len) \<Longrightarrow> (n mod 2 ^ LENGTH('a)) mod 2 ^ k = (n :: nat) mod 2 ^ k"
  by (simp add: mod_mod_cancel le_imp_power_dvd)

lemma unat_add_mask:
  assumes "k \<le> LENGTH('a::len)"
  shows "unat ((x + y) AND (2 ^ k - 1)) = (unat (x :: 'a word) + unat y) mod 2 ^ k"
  using assms by (simp only: unat_and_mask unat_word_ariths mod_pow2_of_mod_word)

lemma unat_sub_mask:
  assumes k: "k \<le> LENGTH('a::len)" and y: "unat y < 2 ^ k"
  shows "unat ((x - y) AND (2 ^ k - 1)) = (unat (x :: 'a word) + 2 ^ k - unat y) mod 2 ^ k"
proof -
  have "int (unat ((x - y) AND (2 ^ k - 1))) = int (unat (x - y)) mod 2 ^ k"
    by (simp add: unat_and_mask zmod_int)
  also have "int (unat (x - y)) = (int (unat x) - int (unat y)) mod 2 ^ LENGTH('a)"
    by (simp add: uint_word_ariths)
  also have "\<dots> mod 2 ^ k = (int (unat x) - int (unat y)) mod 2 ^ k"
    using k by (simp add: mod_mod_cancel le_imp_power_dvd)
  also have "\<dots> = (int (unat x) - int (unat y) + 2 ^ k) mod 2 ^ k"
    by simp
  also have "\<dots> = int ((unat x + 2 ^ k - unat y) mod 2 ^ k)"
    using y by (simp add: zmod_int of_nat_diff algebra_simps)
  finally show ?thesis by linarith
qed

section \<open>Powers of two\<close>

lemma unat_pow2:
  assumes "k < LENGTH('a::len)"
  shows "unat (2 ^ k :: 'a word) = 2 ^ k"
proof -
  have "unat (word_of_nat (2 ^ k) :: 'a word) = 2 ^ k mod 2 ^ LENGTH('a)"
    by (simp only: unat_of_nat)
  also have "\<dots> = 2 ^ k" using assms by (intro mod_less) simp
  finally show ?thesis by simp
qed

text \<open>
  The bit trick \<^verbatim>\<open>(c & (c - 1)) != 0\<close> of \<^verbatim>\<open>ring_buffer_create\<close> decides
  exactly whether \<open>c\<close> is a power of two.
\<close>

lemma pow2_and_pred: "k < LENGTH('a::len) \<Longrightarrow> (2 ^ k :: 'a word) AND (2 ^ k - 1) = 0"
  by (simp flip: mask_eq_exp_minus_1 take_bit_eq_mask add: take_bit_eq_mod)

lemma bit_word_unat: "n < LENGTH('a::len) \<Longrightarrow> bit (x :: 'a word) n = odd (unat x div 2 ^ n)"
  by (simp flip: bit_iff_odd add: bit_unsigned_iff)

lemma and_pred_eq_0_pow2:
  assumes x: "x \<noteq> (0 :: 'a::len word)" and a: "x AND (x - 1) = 0"
  shows "\<exists>k < LENGTH('a). x = 2 ^ k"
proof -
  have pos: "1 \<le> unat x" using x by (simp add: Suc_le_eq unat_gt_0)
  obtain k where k: "2 ^ k \<le> unat x" "unat x < 2 ^ (k + 1)"
    using ex_power_ivl1 [of 2 "unat x"] pos by auto
  have kl: "k < LENGTH('a)"
  proof -
    have "(2::nat) ^ k < 2 ^ LENGTH('a)"
      using k(1) unsigned_less [of x] by (rule le_less_trans)
    then show ?thesis by simp
  qed
  have "unat x = 2 ^ k"
  proof (rule ccontr)
    assume ne: "unat x \<noteq> 2 ^ k"
    have p: "unat (x - 1) = unat x - 1"
      using x by (rule unat_minus_one)
    have "unat x div 2 ^ k = 1" "(unat x - 1) div 2 ^ k = 1"
      using k ne by (auto intro!: div_nat_eqI)
    then have "bit x k" "bit (x - 1) k"
      using kl by (simp_all add: bit_word_unat p)
    then have "bit (x AND (x - 1)) k" by (simp add: bit_and_iff)
    with a show False by simp
  qed
  then have "(word_of_nat (unat x) :: 'a word) = word_of_nat (2 ^ k)" by simp
  then have "x = 2 ^ k" by simp
  with kl show ?thesis by blast
qed

section \<open>Ring indices on natural numbers\<close>

text \<open>
  A ring of \<open>n\<close> slots with write index \<open>h\<close> and read index \<open>t\<close> holds
  \<open>(h + n - t) mod n\<close> elements.
\<close>

lemma ring_dist_if [ring_index]:
  "(h::nat) < n \<Longrightarrow> t < n \<Longrightarrow> (h + n - t) mod n = (if t \<le> h then h - t else h + n - t)"
  by (auto simp: mod_if)

lemma ring_add_if [ring_index]:
  "(h::nat) < n \<Longrightarrow> m \<le> n \<Longrightarrow> (h + m) mod n = (if h + m < n then h + m else h + m - n)"
  by (auto simp: mod_if)

lemma ring_dist_less: "0 < n \<Longrightarrow> ((h::nat) + n - t) mod n < n"
  by simp

lemma ring_dist_add_head:
  assumes "(h::nat) < n" "t < n" "(h + n - t) mod n + m < n"
  shows "((h + m) mod n + n - t) mod n = (h + n - t) mod n + m"
  using assms by (auto simp: ring_index split: if_splits)

lemma ring_dist_add_tail:
  assumes "(h::nat) < n" "t < n" "m \<le> (h + n - t) mod n"
  shows "(h + n - (t + m) mod n) mod n = (h + n - t) mod n - m"
  using assms by (auto simp: ring_index split: if_splits)

lemma ring_head_of_tail:
  assumes "(h::nat) < n" "t < n"
  shows "(t + (h + n - t) mod n) mod n = h"
  using assms by (auto simp: ring_index split: if_splits)

lemma ring_dist_slot:
  assumes "(h::nat) < n" "t < n" "i < n" and len: "len = (h + n - t) mod n"
  shows "((t + i) mod n + n - h) mod n = (if len \<le> i then i - len else i + n - len)"
proof -
  define j where "j = (t + i) mod n"
  have j: "j = (if t + i < n then t + i else t + i - n)" "j < n"
    using assms(2,3) by (simp_all add: j_def mod_if)
  have len': "len = (if t \<le> h then h - t else h + n - t)" unfolding len using assms(1,2) by (rule ring_dist_if)
  have "(j + n - h) mod n = (if h \<le> j then j - h else j + n - h)" using j(2) assms(1) by (rule ring_dist_if)
  also have "\<dots> = (if len \<le> i then i - len else i + n - len)"
    unfolding j(1) len' using assms(1-3)
    by (cases "t \<le> h"; cases "t + i < n") (simp_all, linarith+)
  finally show ?thesis unfolding j_def .
qed

section \<open>Reading and writing a ring\<close>

text \<open>
  \<open>ring_read buf t m\<close> is the run of \<open>m\<close> elements that starts at index \<open>t\<close> and
  continues at index 0 after the end of the array; \<open>ring_write buf h ys\<close> overwrites such a run.
  They are the closed forms of the two-chunk copies of the batch operations.
\<close>

definition ring_read :: "'a list \<Rightarrow> nat \<Rightarrow> nat \<Rightarrow> 'a list" where
  "ring_read buf t m = map (\<lambda>i. buf ! ((t + i) mod length buf)) [0..<m]"

definition ring_write :: "'a list \<Rightarrow> nat \<Rightarrow> 'a list \<Rightarrow> 'a list" where
  "ring_write buf h ys =
     map (\<lambda>p. let j = (p + length buf - h) mod length buf
              in if j < length ys then ys ! j else buf ! p) [0..<length buf]"

lemma length_ring_read [simp]: "length (ring_read buf t m) = m"
  by (simp add: ring_read_def)

lemma length_ring_write [simp]: "length (ring_write buf h ys) = length buf"
  by (simp add: ring_write_def)

lemma ring_read_0 [simp]: "ring_read buf t 0 = []"
  by (simp add: ring_read_def)

lemma ring_write_Nil [simp]: "ring_write buf h [] = buf"
  by (simp add: ring_write_def Let_def map_nth)

lemma nth_ring_read: "i < m \<Longrightarrow> ring_read buf t m ! i = buf ! ((t + i) mod length buf)"
  by (simp add: ring_read_def)

lemma nth_ring_write:
  "p < length buf \<Longrightarrow> ring_write buf h ys ! p =
     (if (p + length buf - h) mod length buf < length ys
      then ys ! ((p + length buf - h) mod length buf) else buf ! p)"
  by (simp add: ring_write_def Let_def)

lemma take_ring_read: "m \<le> k \<Longrightarrow> take m (ring_read buf t k) = ring_read buf t m"
  by (simp add: ring_read_def take_map)

lemma drop_ring_read:
  "drop m (ring_read buf t k) = ring_read buf ((t + m) mod length buf) (k - m)"
  by (rule nth_equalityI) (simp_all add: nth_ring_read mod_add_left_eq add.assoc)

lemma ring_read_two_chunks:
  assumes "t < length buf" "m \<le> length buf" and f: "f = min m (length buf - t)"
  shows "take f (drop t buf) @ take (m - f) buf = ring_read buf t m"
proof (rule nth_equalityI)
  show len: "length (take f (drop t buf) @ take (m - f) buf) = length (ring_read buf t m)"
    using assms by auto
  fix i assume "i < length (take f (drop t buf) @ take (m - f) buf)"
  then have i: "i < m" using len by simp
  show "(take f (drop t buf) @ take (m - f) buf) ! i = ring_read buf t m ! i"
  proof (cases "i < f")
    case True
    then show ?thesis using assms i by (simp add: nth_append nth_ring_read)
  next
    case False
    then have "f = length buf - t" using f i by auto
    then show ?thesis using assms i False
      by (auto simp: nth_append nth_ring_read ring_add_if ac_simps)
  qed
qed

lemma ring_write_two_chunks:
  assumes h: "h < length buf" and m: "length ys \<le> length buf"
    and f: "f = min (length ys) (length buf - h)"
  shows "mem_write buf h (take f ys) \<bind>
           (\<lambda>b. if f < length ys then mem_write b 0 (drop f ys) else Some b)
         = Some (ring_write buf h ys)"
proof -
  let ?n = "length buf"
  have c1: "h + length (take f ys) \<le> ?n" using h f by auto
  define b where "b = take h buf @ take f ys @ drop (h + length (take f ys)) buf"
  have b: "mem_write buf h (take f ys) = Some b"
    using c1 by (simp add: b_def mem_write_def)
  have lb: "length b = ?n" using b by (rule mem_write_length)
  have nb: "b ! p = (if h \<le> p \<and> p < h + f then ys ! (p - h) else buf ! p)" if "p < ?n" for p
    using mem_write_nth [OF b that] f by (auto simp: min_def)
  show ?thesis
  proof (cases "f < length ys")
    case False
    then have "b = ring_write buf h ys"
      using f h by (intro nth_equalityI)
        (auto simp: lb nb nth_ring_write ring_dist_if min_def split: if_splits)
    with False b show ?thesis by simp
  next
    case True
    have c2: "0 + length (drop f ys) \<le> length b" using m lb by simp
    define b' where "b' = take 0 b @ drop f ys @ drop (0 + length (drop f ys)) b"
    have b': "mem_write b 0 (drop f ys) = Some b'"
      using c2 by (simp add: b'_def mem_write_def)
    have "b' = ring_write buf h ys"
    proof (rule nth_equalityI)
      show "length b' = length (ring_write buf h ys)"
        using mem_write_length [OF b'] lb by simp
      fix p assume "p < length b'"
      then have p: "p < ?n" using mem_write_length [OF b'] lb by simp
      then show "b' ! p = ring_write buf h ys ! p"
        using True f h m mem_write_nth [OF b', of p] lb
        by (auto simp: nb nth_ring_write ring_dist_if min_def ac_simps split: if_splits)
    qed
    with True b b' show ?thesis by simp
  qed
qed

text \<open>The two copies with their sources: out of a ring into an array, and into a ring.\<close>

lemma ring_copy_out:
  assumes "t < length b" "m \<le> length b" "m \<le> length xs" and f: "f = min m (length b - t)"
  shows "mem_read b t f \<bind> (\<lambda>src. mem_write xs 0 src \<bind> (\<lambda>ys.
           if f < m then mem_read b 0 (m - f) \<bind> (\<lambda>src. mem_write ys f src) else Some ys))
         = Some (ring_read b t m @ drop m xs)"
proof -
  have l: "t + f \<le> length b" "m - f \<le> length b" "f \<le> m" using assms by auto
  show ?thesis
  proof (cases "f < m")
    case True
    then show ?thesis
      using l assms by (simp add: mem_read_def mem_write_def flip: ring_read_two_chunks)
  next
    case False
    then have "f = m" using l by simp
    then show ?thesis
      using l assms(3) ring_read_two_chunks [OF assms(1,2) f] by (simp add: mem_read_def mem_write_def)
  qed
qed

lemma ring_copy_in:
  assumes "h < length b" "m \<le> length b" "m \<le> length xs" and f: "f = min m (length b - h)"
  shows "mem_read xs 0 f \<bind> (\<lambda>src. mem_write b h src \<bind> (\<lambda>buf.
           if f < m then mem_read xs f (m - f) \<bind> (\<lambda>src. mem_write buf 0 src) else Some buf))
         = Some (ring_write b h (take m xs))"
proof -
  have "f \<le> m" using f by simp
  then have r1: "mem_read xs 0 f = Some (take f (take m xs))"
    and r2: "mem_read xs f (m - f) = Some (drop f (take m xs))"
    using assms(3) by (simp_all add: mem_read_def min_def drop_take)
  have m: "length (take m xs) = m" using assms(3) by simp
  show ?thesis
    unfolding r1 r2 bind.bind_lunit
    using ring_write_two_chunks [of h b "take m xs" f] assms by (simp only: m)
qed

lemma ring_write_single: "h < length buf \<Longrightarrow> ring_write buf h [x] = buf[h := x]"
  by (rule nth_equalityI)
     (auto simp: nth_ring_write nth_list_update ring_dist_if split: if_splits)

lemma ring_write_snoc:
  assumes "h < length buf" "length ys < length buf"
  shows "ring_write buf h (ys @ [x]) = (ring_write buf h ys)[(h + length ys) mod length buf := x]"
  using assms
  by (intro nth_equalityI)
     (auto simp: nth_ring_write nth_list_update nth_append ring_index split: if_splits)

lemma nth_ring_write_slot:
  assumes "h < length buf" "t < length buf" "i < length buf"
    and len: "len = (h + length buf - t) mod length buf" and "len + length ys \<le> length buf"
  shows "ring_write buf h ys ! ((t + i) mod length buf) =
           (if len \<le> i \<and> i < len + length ys then ys ! (i - len)
            else buf ! ((t + i) mod length buf))"
proof -
  have "(t + i) mod length buf < length buf" using assms(3) by (intro mod_less_divisor) linarith
  then show ?thesis
    using assms(5) by (auto simp: nth_ring_write ring_dist_slot [OF assms(1-4)])
qed

text \<open>Writing at the write index appends to what is read from the read index.\<close>

lemma ring_read_ring_write:
  assumes "h < length buf" "t < length buf"
    and len: "len = (h + length buf - t) mod length buf" and "len + length ys \<le> length buf"
  shows "ring_read (ring_write buf h ys) t (len + length ys) = ring_read buf t len @ ys"
  using assms(4)
  by (intro nth_equalityI)
     (auto simp: nth_ring_read nth_append nth_ring_write_slot [OF assms(1,2) _ len])

lemma ring_read_ring_write_below:
  assumes "h < length buf" "t < length buf"
    and len: "len = (h + length buf - t) mod length buf" and "len + length ys \<le> length buf"
    and "m \<le> len"
  shows "ring_read (ring_write buf h ys) t m = ring_read buf t m"
  using assms(4,5)
  by (intro nth_equalityI)
     (auto simp: nth_ring_read nth_ring_write_slot [OF assms(1,2) _ len])

lemma ring_slot_inj:
  assumes "(t::nat) < n" "a < n" "b < n" "(t + a) mod n = (t + b) mod n"
  shows "a = b"
  using assms by (auto simp: ring_add_if split: if_splits)

text \<open>Overwriting a run with what it already holds changes nothing.\<close>

lemma ring_write_same:
  assumes "h < length buf" "length ys \<le> length buf"
    and "\<And>j. j < length ys \<Longrightarrow> buf ! ((h + j) mod length buf) = ys ! j"
  shows "ring_write buf h ys = buf"
proof (rule nth_equalityI)
  fix p assume "p < length (ring_write buf h ys)"
  then have p: "p < length buf" by simp
  have "(h + (p + length buf - h) mod length buf) mod length buf = p"
    using p assms(1) by (intro ring_head_of_tail)
  then show "ring_write buf h ys ! p = buf ! p"
    using p assms(3) [of "(p + length buf - h) mod length buf"] by (simp add: nth_ring_write)
qed simp

text \<open>A write beyond the run that is read does not change what is read.\<close>

lemma ring_read_update:
  assumes "t < length buf" "m \<le> i" "i < length buf"
  shows "ring_read (buf[(t + i) mod length buf := x]) t m = ring_read buf t m"
proof (rule nth_equalityI)
  fix j assume "j < length (ring_read (buf[(t + i) mod length buf := x]) t m)"
  then have j: "j < m" by simp
  have "(t + i) mod length buf \<noteq> (t + j) mod length buf"
    using ring_slot_inj [of t "length buf" i j] assms j by auto
  with j show "ring_read (buf[(t + i) mod length buf := x]) t m ! j = ring_read buf t m ! j"
    by (simp add: nth_ring_read)
qed simp

end
