(* ===== verification/Adc_Types.thy ===== *)
theory Adc_Types
  imports Prelude Complex_Main
begin

text \<open>
  The data types of \<^verbatim>\<open>include/adc_types.h\<close> and \<^verbatim>\<open>src/utils/adc_error.c\<close>:
  error codes, samples, data blocks, the statistics record and the configuration constants, and
  the byte image of a block as it lies in memory (and therefore on the wire, since
  \<^verbatim>\<open>tcp_client_send_data_block\<close> sends the structure itself).

  A C \<^verbatim>\<open>int32_t\<close> is a 32-bit word read with \<^const>\<open>sint\<close>; a C
  \<^verbatim>\<open>double\<close> field is a real number.
\<close>

section \<open>Error codes\<close>

datatype adc_error_t =
    ADC_OK
  | ADC_ERROR_INIT
  | ADC_ERROR_BUFFER
  | ADC_ERROR_NETWORK
  | ADC_ERROR_THREAD
  | ADC_ERROR_TIMEOUT
  | ADC_ERROR_INVALID_PARAM

fun adc_error_code :: "adc_error_t \<Rightarrow> int" where
  "adc_error_code ADC_OK = 0"
| "adc_error_code ADC_ERROR_INIT = -1"
| "adc_error_code ADC_ERROR_BUFFER = -2"
| "adc_error_code ADC_ERROR_NETWORK = -3"
| "adc_error_code ADC_ERROR_THREAD = -4"
| "adc_error_code ADC_ERROR_TIMEOUT = -5"
| "adc_error_code ADC_ERROR_INVALID_PARAM = -6"

text \<open>
  An enumeration object may hold any integer, so the string function is defined on all of them;
  the last branch is the \<^verbatim>\<open>default\<close> label.
\<close>

definition adc_error_string :: "int \<Rightarrow> string" where
  "adc_error_string e =
     (if e = adc_error_code ADC_OK then ''Success''
      else if e = adc_error_code ADC_ERROR_INIT then ''Initialization error''
      else if e = adc_error_code ADC_ERROR_BUFFER then ''Buffer operation error''
      else if e = adc_error_code ADC_ERROR_NETWORK then ''Network operation error''
      else if e = adc_error_code ADC_ERROR_THREAD then ''Thread operation error''
      else if e = adc_error_code ADC_ERROR_TIMEOUT then ''Operation timeout''
      else if e = adc_error_code ADC_ERROR_INVALID_PARAM then ''Invalid parameter''
      else ''Unknown error'')"

section \<open>Constants\<close>

definition ADC_SAMPLE_RATE :: u32 where "ADC_SAMPLE_RATE = 40000"
definition ADC_RESOLUTION :: u32 where "ADC_RESOLUTION = 32"
definition ADC_CHANNEL_COUNT :: u32 where "ADC_CHANNEL_COUNT = 1"
definition RING_BUFFER_SIZE :: u32 where "RING_BUFFER_SIZE = 16384"
definition BUFFER_COUNT :: u32 where "BUFFER_COUNT = 3"
definition DEFAULT_SERVER_IP :: string where "DEFAULT_SERVER_IP = ''127.0.0.1''"
definition DEFAULT_SERVER_PORT :: u16 where "DEFAULT_SERVER_PORT = 8080"
definition TCP_SEND_BUFFER_SIZE :: u32 where "TCP_SEND_BUFFER_SIZE = 1024 * 64"
definition DATA_BLOCK_MAGIC :: u32 where "DATA_BLOCK_MAGIC = 0xADC0DA7A"
definition DATA_BLOCK_VERSION :: u32 where "DATA_BLOCK_VERSION = 1"
definition SAMPLES_PER_BLOCK :: u32 where "SAMPLES_PER_BLOCK = 256"

section \<open>Samples, blocks, statistics\<close>

record adc_sample_t =
  s_timestamp :: u32
  s_value :: i32
  s_sequence :: u32
  s_channel :: u16
  s_flags :: u16

text \<open>
  The flexible array member is the list of samples the block has storage for; the number that is
  meant to be sent is the field \<open>b_sample_count\<close>, which may be smaller (pool blocks always
  have storage for \<^const>\<open>SAMPLES_PER_BLOCK\<close> samples).
\<close>

record data_block_t =
  b_magic :: u32
  b_version :: u32
  b_sequence :: u32
  b_sample_count :: u32
  b_timestamp :: u64
  b_samples :: "adc_sample_t list"

record system_stats_t =
  total_samples :: u64
  dropped_samples :: u64
  sent_bytes :: u64
  send_errors :: u64
  avg_sample_rate :: real
  avg_latency_ms :: real
  cpu_usage :: real

section \<open>Memory image of a block\<close>

text \<open>
  Both supported platforms are little-endian and lay out the two structures without padding:
  \<^verbatim>\<open>sizeof(adc_sample_t) = 16\<close>, \<^verbatim>\<open>sizeof(data_block_t) = 24\<close> (the flexible array
  adds nothing).
\<close>

definition sizeof_adc_sample :: nat where "sizeof_adc_sample = 16"
definition sizeof_data_block :: nat where "sizeof_data_block = 24"

fun le_enc :: "nat \<Rightarrow> nat \<Rightarrow> u8 list" where
  "le_enc 0 x = []"
| "le_enc (Suc n) x = word_of_nat x # le_enc n (x div 256)"

fun le_dec :: "u8 list \<Rightarrow> nat" where
  "le_dec [] = 0"
| "le_dec (b # bs) = unat b + 256 * le_dec bs"

definition sample_bytes :: "adc_sample_t \<Rightarrow> u8 list" where
  "sample_bytes s = le_enc 4 (unat (s_timestamp s)) @ le_enc 4 (unat (s_value s))
     @ le_enc 4 (unat (s_sequence s)) @ le_enc 2 (unat (s_channel s)) @ le_enc 2 (unat (s_flags s))"

definition block_bytes :: "data_block_t \<Rightarrow> u8 list" where
  "block_bytes b = le_enc 4 (unat (b_magic b)) @ le_enc 4 (unat (b_version b))
     @ le_enc 4 (unat (b_sequence b)) @ le_enc 4 (unat (b_sample_count b))
     @ le_enc 8 (unat (b_timestamp b)) @ concat (map sample_bytes (b_samples b))"

text \<open>Reading a structure back through a pointer cast, as the receiving side does.\<close>

definition sample_of_bytes :: "u8 list \<Rightarrow> adc_sample_t" where
  "sample_of_bytes bs = \<lparr>s_timestamp = word_of_nat (le_dec (take 4 bs)),
     s_value = word_of_nat (le_dec (take 4 (drop 4 bs))),
     s_sequence = word_of_nat (le_dec (take 4 (drop 8 bs))),
     s_channel = word_of_nat (le_dec (take 2 (drop 12 bs))),
     s_flags = word_of_nat (le_dec (take 2 (drop 14 bs)))\<rparr>"

fun samples_of_bytes :: "nat \<Rightarrow> u8 list \<Rightarrow> adc_sample_t list" where
  "samples_of_bytes 0 bs = []"
| "samples_of_bytes (Suc n) bs = sample_of_bytes (take 16 bs) # samples_of_bytes n (drop 16 bs)"

definition block_of_bytes :: "u8 list \<Rightarrow> data_block_t" where
  "block_of_bytes bs =
     (let n = word_of_nat (le_dec (take 4 (drop 12 bs))) in
      \<lparr>b_magic = word_of_nat (le_dec (take 4 bs)),
       b_version = word_of_nat (le_dec (take 4 (drop 4 bs))),
       b_sequence = word_of_nat (le_dec (take 4 (drop 8 bs))),
       b_sample_count = n,
       b_timestamp = word_of_nat (le_dec (take 8 (drop 16 bs))),
       b_samples = samples_of_bytes (unat n) (drop 24 bs)\<rparr>)"

section \<open>Lemmas\<close>

lemma adc_error_code_inject [simp]: "adc_error_code a = adc_error_code b \<longleftrightarrow> a = b"
  by (cases a; cases b; simp)

lemma length_le_enc [simp]: "length (le_enc n x) = n"
  by (induction n arbitrary: x) auto

lemma le_dec_le_enc: "le_dec (le_enc n x) = x mod 256 ^ n"
proof (induction n arbitrary: x)
  case 0
  then show ?case by simp
next
  case (Suc n)
  have "unat (word_of_nat x :: u8) = x mod 256" by (simp add: unat_of_nat)
  with Suc show ?case by (simp add: mod_mult2_eq)
qed

lemma le_word_roundtrip:
  assumes "LENGTH('a::len) = 8 * n"
  shows "word_of_nat (le_dec (le_enc n (unat (x :: 'a word)))) = x"
proof -
  have "(256::nat) ^ n = 2 ^ LENGTH('a)" by (simp add: assms power_mult)
  then have "le_dec (le_enc n (unat x)) = unat x"
    using unsigned_less [of x, where ?'a = nat] by (simp add: le_dec_le_enc)
  then show ?thesis by simp
qed

lemmas le_word_roundtrips [simp] =
  le_word_roundtrip [of 2, where ?'a = 16, simplified]
  le_word_roundtrip [of 4, where ?'a = 32, simplified]
  le_word_roundtrip [of 8, where ?'a = 64, simplified]

lemma length_sample_bytes [simp]: "length (sample_bytes s) = 16"
  by (simp add: sample_bytes_def)

lemma length_samples_bytes [simp]: "length (concat (map sample_bytes xs)) = 16 * length xs"
  by (induction xs) auto

lemma length_block_bytes:
  "length (block_bytes b) = sizeof_data_block + length (b_samples b) * sizeof_adc_sample"
  by (simp add: block_bytes_def sizeof_data_block_def sizeof_adc_sample_def)

lemma sample_roundtrip [simp]: "sample_of_bytes (sample_bytes s) = s"
  by (simp add: sample_of_bytes_def sample_bytes_def)

lemma samples_roundtrip:
  "samples_of_bytes (length xs) (concat (map sample_bytes xs) @ rest) = xs"
  by (induction xs) auto

lemma take_samples_bytes:
  "n \<le> length xs \<Longrightarrow>
   take (16 * n) (concat (map sample_bytes xs)) = concat (map sample_bytes (take n xs))"
proof (induction n arbitrary: xs)
  case 0
  then show ?case by simp
next
  case (Suc n)
  then show ?case by (cases xs) auto
qed

lemma take_block_bytes:
  assumes "n \<le> length (b_samples b)"
  shows "take (sizeof_data_block + n * sizeof_adc_sample) (block_bytes b)
           = block_bytes (b\<lparr>b_samples := take n (b_samples b)\<rparr>)"
  using take_samples_bytes [OF assms]
  by (simp add: block_bytes_def sizeof_data_block_def sizeof_adc_sample_def mult.commute)

lemma block_roundtrip:
  assumes "unat (b_sample_count b) = length (b_samples b)"
  shows "block_of_bytes (block_bytes b @ rest) = b"
proof -
  have "samples_of_bytes (unat (b_sample_count b)) (concat (map sample_bytes (b_samples b)) @ rest)
          = b_samples b"
    using assms samples_roundtrip [of "b_samples b" rest] by simp
  then show ?thesis by (simp add: block_of_bytes_def block_bytes_def Let_def)
qed

end
