(* ===== verification/Fifo_Spec.thy ===== *)
theory Fifo_Spec
  imports Prelude
begin

text \<open>
  The contract of a bounded first-in-first-out queue with the calling conventions of
  \<^verbatim>\<open>include/ring_buffer.h\<close>, as a locale. The provider (theory \<open>Ring_Buffer\<close>)
  interprets it on the ring buffer; the clients (the pipeline workers, the batch operations'
  comparison with the single ones) use the laws only and never look at indices or masks.

  \<open>items r\<close> is the queue that \<open>r\<close> represents, \<open>bound r\<close> the number of samples it
  can hold, \<open>drops r\<close> its 64-bit counter of rejected samples.
\<close>

section \<open>Sequences of single operations\<close>

fun push_each :: "('r option \<Rightarrow> 'a option \<Rightarrow> (bool \<times> 'r option) option)
    \<Rightarrow> 'r option \<Rightarrow> 'a list \<Rightarrow> 'r option option" where
  "push_each push r [] = Some r"
| "push_each push r (x # xs) = do { (_, r) \<leftarrow> push r (Some x); push_each push r xs }"

fun pop_each :: "('r option \<Rightarrow> 'a option \<Rightarrow> (bool \<times> 'r option \<times> 'a option) option)
    \<Rightarrow> 'r option \<Rightarrow> 'a option \<Rightarrow> nat \<Rightarrow> ('r option \<times> 'a list) option" where
  "pop_each pop r out 0 = Some (r, [])"
| "pop_each pop r out (Suc n) = do {
     (b, r, out) \<leftarrow> pop r out;
     (r, ys) \<leftarrow> pop_each pop r out n;
     Some (r, (case out of Some y \<Rightarrow> if b then y # ys else ys | None \<Rightarrow> ys))
   }"

section \<open>The contract\<close>

locale bounded_fifo =
  fixes wf :: "'r \<Rightarrow> bool"
    and items :: "'r \<Rightarrow> 'a list"
    and bound :: "'r \<Rightarrow> nat"
    and drops :: "'r \<Rightarrow> u64"
    and push :: "'r option \<Rightarrow> 'a option \<Rightarrow> (bool \<times> 'r option) option"
    and pop :: "'r option \<Rightarrow> 'a option \<Rightarrow> (bool \<times> 'r option \<times> 'a option) option"
    and push_batch :: "'r option \<Rightarrow> 'a list option \<Rightarrow> u32 \<Rightarrow> u32 option
          \<Rightarrow> (bool \<times> 'r option \<times> u32 option) option"
    and pop_batch :: "'r option \<Rightarrow> 'a list option \<Rightarrow> u32 \<Rightarrow> u32 option
          \<Rightarrow> (bool \<times> 'r option \<times> 'a list option \<times> u32 option) option"
  assumes items_bound: "wf r \<Longrightarrow> length (items r) \<le> bound r"
    and push_law: "wf r \<Longrightarrow>
      \<exists>r'. push (Some r) (Some x) = Some (length (items r) < bound r, Some r') \<and> wf r'
        \<and> bound r' = bound r
        \<and> items r' = items r @ (if length (items r) < bound r then [x] else [])
        \<and> drops r' = drops r + (if length (items r) < bound r then 0 else 1)"
    and pop_law: "wf r \<Longrightarrow>
      \<exists>r'. pop (Some r) (Some x)
            = Some (items r \<noteq> [], Some r', Some (case items r of [] \<Rightarrow> x | y # _ \<Rightarrow> y))
        \<and> wf r' \<and> bound r' = bound r \<and> items r' = tl (items r) \<and> drops r' = drops r"
    and push_batch_law: "wf r \<Longrightarrow> m = min (unat n) (bound r - length (items r)) \<Longrightarrow> m \<le> length xs \<Longrightarrow>
      \<exists>r'. push_batch (Some r) (Some xs) n p
            = Some (0 < n \<and> m = unat n, Some r', set_out p (word_of_nat m))
        \<and> wf r' \<and> bound r' = bound r \<and> items r' = items r @ take m xs
        \<and> drops r' = drops r + word_of_nat (unat n - m)"
    and pop_batch_law: "wf r \<Longrightarrow> m = min (unat n) (length (items r)) \<Longrightarrow> m \<le> length xs \<Longrightarrow>
      \<exists>r'. pop_batch (Some r) (Some xs) n p
            = Some (0 < m, Some r', Some (take m (items r) @ drop m xs), set_out p (word_of_nat m))
        \<and> wf r' \<and> bound r' = bound r \<and> items r' = drop m (items r) \<and> drops r' = drops r"
begin

text \<open>Pushing one by one keeps the prefix that fits and counts the rest as dropped.\<close>

lemma push_each_law:
  assumes "wf r"
  shows "\<exists>r'. push_each push (Some r) xs = Some (Some r') \<and> wf r' \<and> bound r' = bound r
    \<and> items r' = items r @ take (bound r - length (items r)) xs
    \<and> drops r' = drops r + word_of_nat (length xs - (bound r - length (items r)))"
  using assms
proof (induction xs arbitrary: r)
  case Nil
  then show ?case by simp
next
  case (Cons x xs)
  obtain r1 where r1: "push (Some r) (Some x) = Some (length (items r) < bound r, Some r1)"
    "wf r1" "bound r1 = bound r"
    "items r1 = items r @ (if length (items r) < bound r then [x] else [])"
    "drops r1 = drops r + (if length (items r) < bound r then 0 else 1)"
    using push_law [OF Cons.prems] by blast
  obtain r2 where r2: "push_each push (Some r1) xs = Some (Some r2)" "wf r2" "bound r2 = bound r1"
    "items r2 = items r1 @ take (bound r1 - length (items r1)) xs"
    "drops r2 = drops r1 + word_of_nat (length xs - (bound r1 - length (items r1)))"
    using Cons.IH [OF r1(2)] by blast
  show ?case
  proof (cases "length (items r) < bound r")
    case True
    then have "bound r - length (items r) = Suc (bound r - Suc (length (items r)))" by simp
    with True r1 r2 show ?thesis by simp
  next
    case False
    with r1 r2 show ?thesis by simp
  qed
qed

lemma pop_each_law:
  assumes "wf r"
  shows "\<exists>r'. pop_each pop (Some r) (Some x) n = Some (Some r', take n (items r)) \<and> wf r'
    \<and> bound r' = bound r \<and> items r' = drop n (items r) \<and> drops r' = drops r"
  using assms
proof (induction n arbitrary: r x)
  case 0
  then show ?case by simp
next
  case (Suc n)
  obtain r1 where r1: "pop (Some r) (Some x)
      = Some (items r \<noteq> [], Some r1, Some (case items r of [] \<Rightarrow> x | y # _ \<Rightarrow> y))"
    "wf r1" "bound r1 = bound r" "items r1 = tl (items r)" "drops r1 = drops r"
    using pop_law [OF Suc.prems] by blast
  obtain r2 where r2:
    "pop_each pop (Some r1) (Some (case items r of [] \<Rightarrow> x | y # _ \<Rightarrow> y)) n
       = Some (Some r2, take n (items r1))"
    "wf r2" "bound r2 = bound r1" "items r2 = drop n (items r1)" "drops r2 = drops r1"
    using Suc.IH [OF r1(2)] by blast
  show ?case using r1 r2 by (cases "items r") (auto simp: drop_Suc)
qed

text \<open>A batch push has the effect of pushing its samples one by one.\<close>

lemma push_batch_is_push_each:
  assumes "wf r" "unat n = length xs"
  shows "\<exists>r1 r2 ok p'. push_batch (Some r) (Some xs) n p = Some (ok, Some r1, p')
    \<and> push_each push (Some r) xs = Some (Some r2)
    \<and> items r1 = items r2 \<and> drops r1 = drops r2 \<and> bound r1 = bound r2 \<and> wf r1 \<and> wf r2"
proof -
  let ?m = "min (unat n) (bound r - length (items r))"
  have "?m \<le> length xs" using assms(2) by simp
  then obtain r1 where "push_batch (Some r) (Some xs) n p
      = Some (0 < n \<and> ?m = unat n, Some r1, set_out p (word_of_nat ?m))"
    "wf r1" "bound r1 = bound r" "items r1 = items r @ take ?m xs"
    "drops r1 = drops r + word_of_nat (unat n - ?m)"
    using push_batch_law [OF assms(1) refl] by blast
  moreover have "take ?m xs = take (bound r - length (items r)) xs"
    "unat n - ?m = length xs - (bound r - length (items r))"
    using assms(2) by (auto simp: min_def)
  ultimately show ?thesis
    using push_each_law [OF assms(1), of xs] by auto
qed

lemma pop_batch_is_pop_each:
  assumes "wf r" "unat n \<le> length xs"
  shows "\<exists>r1 r2 ok ys p'. pop_batch (Some r) (Some xs) n p = Some (ok, Some r1, Some ys, p')
    \<and> pop_each pop (Some r) (Some x) (unat n) 
        = Some (Some r2, take (min (unat n) (length (items r))) ys)
    \<and> items r1 = items r2 \<and> drops r1 = drops r2 \<and> bound r1 = bound r2 \<and> wf r1 \<and> wf r2"
proof -
  let ?m = "min (unat n) (length (items r))"
  have "?m \<le> length xs" using assms(2) by simp
  then obtain r1 where r1: "pop_batch (Some r) (Some xs) n p
      = Some (0 < ?m, Some r1, Some (take ?m (items r) @ drop ?m xs), set_out p (word_of_nat ?m))"
    "wf r1" "bound r1 = bound r" "items r1 = drop ?m (items r)" "drops r1 = drops r"
    using pop_batch_law [OF assms(1) refl] by blast
  obtain r2 where "pop_each pop (Some r) (Some x) (unat n) = Some (Some r2, take (unat n) (items r))"
    "wf r2" "bound r2 = bound r" "items r2 = drop (unat n) (items r)" "drops r2 = drops r"
    using pop_each_law [OF assms(1)] by blast
  moreover have "take ?m (take ?m (items r) @ drop ?m xs) = take (unat n) (items r)"
    "drop ?m (items r) = drop (unat n) (items r)"
    by (simp_all add: min_def)
  ultimately show ?thesis using r1 by metis
qed

text \<open>
  Moving a batch from one queue to another, as the processing stage does: what is taken from the
  source is a prefix of it, what fits goes to the end of the destination in order, and the rest is
  accounted for by the destination's drop counter.
\<close>

lemma transfer_law:
  assumes "wf src" "wf dst" "unat n \<le> length xs"
    and m: "m = min (unat n) (length (items src))" and k: "k = min m (bound dst - length (items dst))"
  shows "\<exists>src' ys dst'. pop_batch (Some src) (Some xs) n (Some q)
        = Some (0 < m, Some src', Some ys, Some (word_of_nat m))
    \<and> push_batch (Some dst) (Some ys) (word_of_nat m) (Some q')
        = Some (0 < m \<and> k = m, Some dst', Some (word_of_nat k))
    \<and> wf src' \<and> wf dst' \<and> bound src' = bound src \<and> bound dst' = bound dst
    \<and> items src' = drop m (items src) \<and> items dst' = items dst @ take k (items src)
    \<and> drops src' = drops src \<and> drops dst' = drops dst + word_of_nat (m - k)"
proof -
  have ml: "m \<le> length xs" using m assms(3) by simp
  obtain src' where s: "pop_batch (Some src) (Some xs) n (Some q)
      = Some (0 < m, Some src', Some (take m (items src) @ drop m xs), Some (word_of_nat m))"
    "wf src'" "bound src' = bound src" "items src' = drop m (items src)" "drops src' = drops src"
    using pop_batch_law [OF assms(1) m ml, of "Some q"] by auto
  let ?ys = "take m (items src) @ drop m xs"
  have um: "unat (word_of_nat m :: u32) = m"
    using m unsigned_less [of n, where ?'a = nat] by (simp add: unat_of_nat)
  have km: "k \<le> m" using k by simp
  have "length ?ys = length xs" using ml m by simp
  then have "k \<le> length ?ys" using km ml by linarith
  then obtain dst' where d: "push_batch (Some dst) (Some ?ys) (word_of_nat m) (Some q')
      = Some (0 < (word_of_nat m :: u32) \<and> k = m, Some dst', Some (word_of_nat k))"
    "wf dst'" "bound dst' = bound dst" "items dst' = items dst @ take k ?ys"
    "drops dst' = drops dst + word_of_nat (m - k)"
    using push_batch_law [OF assms(2), of k "word_of_nat m" ?ys "Some q'"] k um by auto
  moreover have "0 < (word_of_nat m :: u32) \<longleftrightarrow> 0 < m"
    using um by (metis neq0_conv unat_0 word_gt_0 word_unat_eq_iff)
  moreover have "take k ?ys = take k (items src)"
    using km m by (simp add: min_absorb1 take_append)
  ultimately show ?thesis using s by auto
qed

end

end
