(* ===== verification/Ring_Buffer.thy ===== *)
theory Ring_Buffer
  imports Adc_Types Fifo_Spec
begin

text \<open>
  The ring buffer of \<^verbatim>\<open>src/buffer/ring_buffer.c\<close>: the control structure, every operation
  on it, its representation invariant, and the refinement of the operations to a bounded
  first-in-first-out queue of samples.

  A pointer argument \<^verbatim>\<open>ring_buffer_t *rb\<close> is \<^term>\<open>None\<close> for a null pointer and
  \<^term>\<open>Some r\<close> for the structure it points to; an operation returns the structure after the
  call. A result \<^term>\<open>None\<close> of the whole operation means undefined behaviour (an access
  outside the data array or outside the caller's array).
\<close>

section \<open>The control structure and its operations\<close>

record ring_buffer_t =
  rb_head :: u32
  rb_tail :: u32
  rb_capacity :: u32
  rb_mask :: u32
  rb_buffer :: "adc_sample_t list"
  rb_block :: nat \<comment> \<open>address of the data array\<close>
  rb_dropped :: u64

text \<open>
  The capacity normalisation at the start of \<^verbatim>\<open>ring_buffer_create\<close>. The doubling loop
  runs on a 32-bit variable, so its value is an option: \<^term>\<open>None\<close> is non-termination.
\<close>

partial_function (option) next_power :: "u32 \<Rightarrow> u32 \<Rightarrow> u32 option" where
  "next_power capacity pow =
     (if pow < capacity then next_power capacity (push_bit 1 pow) else Some pow)"

definition ring_capacity :: "u32 \<Rightarrow> u32 option" where
  "ring_capacity capacity =
     (let capacity = (if capacity < 2 then 2 else capacity)
      in if capacity AND (capacity - 1) \<noteq> 0 then next_power capacity 1 else Some capacity)"

definition ring_buffer_count :: "ring_buffer_t option \<Rightarrow> u32" where
  "ring_buffer_count rb =
     (case rb of None \<Rightarrow> 0 | Some r \<Rightarrow> (rb_head r - rb_tail r) AND rb_mask r)"

definition ring_buffer_is_empty :: "ring_buffer_t option \<Rightarrow> bool" where
  "ring_buffer_is_empty rb = (case rb of None \<Rightarrow> True | Some r \<Rightarrow> rb_head r = rb_tail r)"

definition ring_buffer_is_full :: "ring_buffer_t option \<Rightarrow> bool" where
  "ring_buffer_is_full rb =
     (case rb of None \<Rightarrow> True
      | Some r \<Rightarrow> let next_head = (rb_head r + 1) AND rb_mask r in next_head = rb_tail r)"

definition ring_buffer_available :: "ring_buffer_t option \<Rightarrow> u32" where
  "ring_buffer_available rb =
     (case rb of None \<Rightarrow> 0 | Some r \<Rightarrow> rb_capacity r - ring_buffer_count rb - 1)"

definition ring_buffer_push ::
  "ring_buffer_t option \<Rightarrow> adc_sample_t option \<Rightarrow> (bool \<times> ring_buffer_t option) option" where
  "ring_buffer_push rb sample =
     (case (rb, sample) of
        (Some r, Some s) \<Rightarrow>
          (let head = rb_head r; next_head = (head + 1) AND rb_mask r in
           if next_head = rb_tail r
           then Some (False, Some (r\<lparr>rb_dropped := rb_dropped r + 1\<rparr>))
           else do {
             buf \<leftarrow> mem_write (rb_buffer r) (unat head) [s];
             Some (True, Some (r\<lparr>rb_buffer := buf, rb_head := next_head\<rparr>))
           })
      | _ \<Rightarrow> Some (False, rb))"

definition ring_buffer_pop ::
  "ring_buffer_t option \<Rightarrow> adc_sample_t option
     \<Rightarrow> (bool \<times> ring_buffer_t option \<times> adc_sample_t option) option" where
  "ring_buffer_pop rb sample =
     (case (rb, sample) of
        (Some r, Some _) \<Rightarrow>
          (if rb_head r = rb_tail r then Some (False, rb, sample)
           else do {
             let tail = rb_tail r;
             xs \<leftarrow> mem_read (rb_buffer r) (unat tail) 1;
             Some (True, Some (r\<lparr>rb_tail := (tail + 1) AND rb_mask r\<rparr>), Some (hd xs))
           })
      | _ \<Rightarrow> Some (False, rb, sample))"

text \<open>
  The batch operations copy in at most two chunks, the second one when the batch wraps around the
  end of the data array.
\<close>

definition ring_buffer_push_batch ::
  "ring_buffer_t option \<Rightarrow> adc_sample_t list option \<Rightarrow> u32 \<Rightarrow> u32 option
     \<Rightarrow> (bool \<times> ring_buffer_t option \<times> u32 option) option" where
  "ring_buffer_push_batch rb samples count pushed =
     (case (rb, samples) of
        (Some r, Some xs) \<Rightarrow>
          if count = 0 then Some (False, rb, set_out pushed 0)
          else let available = ring_buffer_available rb;
                   to_push = (if count < available then count else available) in
            if to_push = 0
            then Some (False, Some (r\<lparr>rb_dropped := rb_dropped r + ucast count\<rparr>), set_out pushed 0)
            else do {
              let head = rb_head r;
              let wrap_point = rb_capacity r - head;
              let first_chunk = (if to_push > wrap_point then wrap_point else to_push);
              src \<leftarrow> mem_read xs 0 (unat first_chunk);
              buf \<leftarrow> mem_write (rb_buffer r) (unat head) src;
              buf \<leftarrow> (if first_chunk < to_push
                     then do {
                       let second_chunk = to_push - first_chunk;
                       src \<leftarrow> mem_read xs (unat first_chunk) (unat second_chunk);
                       mem_write buf 0 src
                     }
                     else Some buf);
              let r = r\<lparr>rb_buffer := buf, rb_head := (head + to_push) AND rb_mask r\<rparr>;
              let r = (if to_push < count
                       then r\<lparr>rb_dropped := rb_dropped r + ucast (count - to_push)\<rparr> else r);
              Some (to_push = count, Some r, set_out pushed to_push)
            }
      | _ \<Rightarrow> Some (False, rb, set_out pushed 0))"

definition ring_buffer_pop_batch ::
  "ring_buffer_t option \<Rightarrow> adc_sample_t list option \<Rightarrow> u32 \<Rightarrow> u32 option
     \<Rightarrow> (bool \<times> ring_buffer_t option \<times> adc_sample_t list option \<times> u32 option) option" where
  "ring_buffer_pop_batch rb samples count popped =
     (case (rb, samples) of
        (Some r, Some xs) \<Rightarrow>
          if count = 0 then Some (False, rb, samples, set_out popped 0)
          else let current_count = ring_buffer_count rb;
                   to_pop = (if count < current_count then count else current_count) in
            if to_pop = 0 then Some (False, rb, samples, set_out popped 0)
            else do {
              let tail = rb_tail r;
              let wrap_point = rb_capacity r - tail;
              let first_chunk = (if to_pop > wrap_point then wrap_point else to_pop);
              src \<leftarrow> mem_read (rb_buffer r) (unat tail) (unat first_chunk);
              ys \<leftarrow> mem_write xs 0 src;
              ys \<leftarrow> (if first_chunk < to_pop
                    then do {
                      let second_chunk = to_pop - first_chunk;
                      src \<leftarrow> mem_read (rb_buffer r) 0 (unat second_chunk);
                      mem_write ys (unat first_chunk) src
                    }
                    else Some ys);
              Some (to_pop > 0, Some (r\<lparr>rb_tail := (tail + to_pop) AND rb_mask r\<rparr>),
                    Some ys, set_out popped to_pop)
            }
      | _ \<Rightarrow> Some (False, rb, samples, set_out popped 0))"

definition ring_buffer_clear :: "ring_buffer_t option \<Rightarrow> ring_buffer_t option" where
  "ring_buffer_clear rb =
     (case rb of None \<Rightarrow> None
      | Some r \<Rightarrow> Some (r\<lparr>rb_head := 0, rb_tail := 0, rb_dropped := 0\<rparr>))"

section \<open>Invariant and abstraction\<close>

definition rb_wf :: "ring_buffer_t \<Rightarrow> bool" where
  "rb_wf r \<longleftrightarrow> (\<exists>k\<in>{1..31}. rb_capacity r = 2 ^ k) \<and> rb_mask r = rb_capacity r - 1
     \<and> rb_head r < rb_capacity r \<and> rb_tail r < rb_capacity r
     \<and> length (rb_buffer r) = unat (rb_capacity r)"

definition rb_size :: "ring_buffer_t \<Rightarrow> nat" where
  "rb_size r = unat (rb_capacity r)"

definition rb_len :: "ring_buffer_t \<Rightarrow> nat" where
  "rb_len r = (unat (rb_head r) + rb_size r - unat (rb_tail r)) mod rb_size r"

definition rb_room :: "ring_buffer_t \<Rightarrow> nat" where
  "rb_room r = rb_size r - 1 - rb_len r"

definition rb_contents :: "ring_buffer_t \<Rightarrow> adc_sample_t list" where
  "rb_contents r = ring_read (rb_buffer r) (unat (rb_tail r)) (rb_len r)"

section \<open>Words and natural numbers\<close>

lemma length_rb_contents [simp]: "length (rb_contents r) = rb_len r"
  by (simp add: rb_contents_def)

lemma rb_wfE:
  assumes "rb_wf r"
  obtains k where "1 \<le> k" "k \<le> 31" "rb_capacity r = 2 ^ k" "rb_mask r = 2 ^ k - 1"
    "rb_size r = 2 ^ k"
proof -
  from assms obtain k where k: "k \<in> {1..31}" "rb_capacity r = 2 ^ k" "rb_mask r = rb_capacity r - 1"
    by (auto simp: rb_wf_def)
  have "unat (2 ^ k :: u32) = 2 ^ k" using k(1) by (intro unat_pow2) simp
  with k show ?thesis by (intro that [of k]) (auto simp: rb_size_def)
qed

lemma rb_wf_nat:
  assumes "rb_wf r"
  shows "2 \<le> rb_size r" "rb_size r \<le> 2 ^ 31" "unat (rb_head r) < rb_size r"
    "unat (rb_tail r) < rb_size r" "length (rb_buffer r) = rb_size r"
proof -
  obtain k where k: "1 \<le> k" "k \<le> 31" "rb_size r = 2 ^ k" using assms by (rule rb_wfE)
  show "2 \<le> rb_size r" using k power_increasing [of 1 k "2::nat"] by simp
  show "rb_size r \<le> 2 ^ 31" using k power_increasing [of k 31 "2::nat"] by simp
qed (use assms in \<open>auto simp: rb_wf_def rb_size_def word_less_nat_alt\<close>)

lemma rb_len_less: "rb_wf r \<Longrightarrow> rb_len r < rb_size r"
  using rb_wf_nat(1) [of r] by (simp add: rb_len_def)

lemma rb_room_len: "rb_wf r \<Longrightarrow> rb_room r + rb_len r + 1 = rb_size r"
  using rb_len_less [of r] by (simp add: rb_room_def)

lemma unat_count: "rb_wf r \<Longrightarrow> unat (ring_buffer_count (Some r)) = rb_len r"
proof -
  assume wf: "rb_wf r"
  then obtain k where k: "k \<le> 31" "rb_mask r = 2 ^ k - 1" "rb_size r = 2 ^ k" by (rule rb_wfE)
  with rb_wf_nat(4) [OF wf] show ?thesis
    by (simp add: ring_buffer_count_def rb_len_def unat_sub_mask)
qed

lemma unat_index_add:
  "rb_wf r \<Longrightarrow> unat ((x + y) AND rb_mask r) = (unat x + unat y) mod rb_size r"
  by (erule rb_wfE) (simp add: unat_add_mask)

lemma unat_available: "rb_wf r \<Longrightarrow> unat (ring_buffer_available (Some r)) = rb_room r"
proof -
  assume wf: "rb_wf r"
  let ?c = "ring_buffer_count (Some r)"
  have lt: "unat ?c < unat (rb_capacity r)"
    using unat_count [OF wf] rb_len_less [OF wf] by (simp add: rb_size_def)
  then have "unat (rb_capacity r - ?c) = unat (rb_capacity r) - unat ?c"
    by (intro unat_sub) (simp add: word_le_nat_alt)
  moreover from this lt have "unat (rb_capacity r - ?c - 1) = unat (rb_capacity r - ?c) - 1"
    by (intro unat_minus_one) auto
  ultimately show ?thesis
    using unat_count [OF wf] by (simp add: ring_buffer_available_def rb_room_def rb_size_def)
qed

lemma rb_empty_iff: "rb_wf r \<Longrightarrow> rb_head r = rb_tail r \<longleftrightarrow> rb_len r = 0"
  using rb_wf_nat(3,4) [of r]
  by (auto simp: rb_len_def ring_dist_if word_unat_eq_iff split: if_splits)

lemma rb_full_iff:
  "rb_wf r \<Longrightarrow> (rb_head r + 1) AND rb_mask r = rb_tail r \<longleftrightarrow> rb_room r = 0"
  using rb_wf_nat(1,3,4) [of r]
  by (auto simp: word_unat_eq_iff unat_index_add rb_room_def rb_len_def ring_index mod_Suc
      split: if_splits)

section \<open>Advancing the indices\<close>

text \<open>The two index updates of the code, in terms of the invariant and the contents.\<close>

lemma rb_write_head:
  assumes wf: "rb_wf r" and m: "length ys \<le> rb_room r"
    and h': "unat h' = (unat (rb_head r) + length ys) mod rb_size r"
    and buf: "buf = ring_write (rb_buffer r) (unat (rb_head r)) ys"
  shows "rb_wf (r\<lparr>rb_buffer := buf, rb_head := h'\<rparr>)"
    and "rb_contents (r\<lparr>rb_buffer := buf, rb_head := h'\<rparr>) = rb_contents r @ ys"
proof -
  note n = rb_wf_nat [OF wf]
  have "unat h' < rb_size r" using h' n(1) by simp
  then show "rb_wf (r\<lparr>rb_buffer := buf, rb_head := h'\<rparr>)"
    using wf buf by (auto simp: rb_wf_def rb_size_def word_less_nat_alt)
  have lt: "rb_len r + length ys < rb_size r" using m rb_room_len [OF wf] by linarith
  have len: "rb_len (r\<lparr>rb_buffer := buf, rb_head := h'\<rparr>) = rb_len r + length ys"
    using ring_dist_add_head [of "unat (rb_head r)" "rb_size r" "unat (rb_tail r)" "length ys"] n lt h'
    by (simp add: rb_len_def rb_size_def)
  show "rb_contents (r\<lparr>rb_buffer := buf, rb_head := h'\<rparr>) = rb_contents r @ ys"
    using ring_read_ring_write [of "unat (rb_head r)" "rb_buffer r" "unat (rb_tail r)" "rb_len r" ys]
      n lt len buf
    by (simp add: rb_contents_def) (simp add: rb_len_def)
qed

lemma rb_advance_tail:
  assumes wf: "rb_wf r" and m: "m \<le> rb_len r"
    and t': "unat t' = (unat (rb_tail r) + m) mod rb_size r"
  shows "rb_wf (r\<lparr>rb_tail := t'\<rparr>)" and "rb_contents (r\<lparr>rb_tail := t'\<rparr>) = drop m (rb_contents r)"
proof -
  note n = rb_wf_nat [OF wf]
  have "unat t' < rb_size r" using t' n(1) by simp
  then show "rb_wf (r\<lparr>rb_tail := t'\<rparr>)"
    using wf by (auto simp: rb_wf_def rb_size_def word_less_nat_alt)
  have "rb_len (r\<lparr>rb_tail := t'\<rparr>) = rb_len r - m"
    using ring_dist_add_tail [of "unat (rb_head r)" "rb_size r" "unat (rb_tail r)" m] n m t'
    by (simp add: rb_len_def rb_size_def)
  then show "rb_contents (r\<lparr>rb_tail := t'\<rparr>) = drop m (rb_contents r)"
    using n(5) t' by (simp add: rb_contents_def drop_ring_read)
qed

section \<open>Every operation against the queue\<close>

lemma rb_push_full:
  assumes "rb_wf r" "rb_room r = 0"
  shows "ring_buffer_push (Some r) (Some s)
           = Some (False, Some (r\<lparr>rb_dropped := rb_dropped r + 1\<rparr>))"
  using assms by (simp add: ring_buffer_push_def rb_full_iff Let_def)

lemma rb_push_room:
  assumes wf: "rb_wf r" and room: "0 < rb_room r"
  obtains r' where "ring_buffer_push (Some r) (Some s) = Some (True, Some r')" "rb_wf r'"
    "rb_contents r' = rb_contents r @ [s]" "rb_size r' = rb_size r" "rb_dropped r' = rb_dropped r"
proof -
  note n = rb_wf_nat [OF wf]
  let ?h = "(rb_head r + 1) AND rb_mask r"
  define r' where "r' = r\<lparr>rb_buffer := (rb_buffer r)[unat (rb_head r) := s], rb_head := ?h\<rparr>"
  have "ring_buffer_push (Some r) (Some s) = Some (True, Some r')"
    using wf room n by (simp add: ring_buffer_push_def rb_full_iff Let_def mem_write_single r'_def)
  moreover have "rb_wf r'" "rb_contents r' = rb_contents r @ [s]"
    using rb_write_head [OF wf, of "[s]" ?h "(rb_buffer r)[unat (rb_head r) := s]"] room n
    by (simp_all add: r'_def unat_index_add [OF wf] ring_write_single)
  ultimately show ?thesis by (intro that [of r']) (simp_all add: r'_def rb_size_def)
qed

lemma rb_pop_empty:
  "rb_wf r \<Longrightarrow> rb_len r = 0 \<Longrightarrow> ring_buffer_pop (Some r) (Some s) = Some (False, Some r, Some s)"
  by (simp add: ring_buffer_pop_def rb_empty_iff)

lemma rb_pop_some:
  assumes wf: "rb_wf r" and len: "0 < rb_len r"
  obtains r' where
    "ring_buffer_pop (Some r) (Some s) = Some (True, Some r', Some (hd (rb_contents r)))"
    "rb_wf r'" "rb_contents r' = tl (rb_contents r)" "rb_size r' = rb_size r"
    "rb_dropped r' = rb_dropped r"
proof -
  note n = rb_wf_nat [OF wf]
  let ?t = "(rb_tail r + 1) AND rb_mask r"
  have hd: "hd (rb_contents r) = rb_buffer r ! unat (rb_tail r)"
    using len n by (simp add: hd_conv_nth rb_contents_def nth_ring_read flip: length_greater_0_conv)
  have "ring_buffer_pop (Some r) (Some s)
          = Some (True, Some (r\<lparr>rb_tail := ?t\<rparr>), Some (hd (rb_contents r)))"
    using wf len n by (simp add: ring_buffer_pop_def rb_empty_iff mem_read_single Let_def hd)
  moreover have "rb_wf (r\<lparr>rb_tail := ?t\<rparr>)" "rb_contents (r\<lparr>rb_tail := ?t\<rparr>) = tl (rb_contents r)"
    using rb_advance_tail [OF wf, of 1 ?t] len by (simp_all add: unat_index_add [OF wf] drop_Suc)
  ultimately show ?thesis by (intro that [of "r\<lparr>rb_tail := ?t\<rparr>"]) (simp_all add: rb_size_def)
qed

lemma unat_min_if: "unat (if a < b then a else b :: 'a::len word) = min (unat a) (unat b)"
  by (simp add: min_def word_less_nat_alt word_le_nat_alt)

lemma unat_chunk:
  "unat (if m > w then w else m :: 'a::len word) = min (unat m) (unat w)"
  by (auto simp: min_def word_less_nat_alt word_le_nat_alt)

lemma unat_wrap_point:
  "rb_wf r \<Longrightarrow> unat i < rb_size r \<Longrightarrow> unat (rb_capacity r - i) = rb_size r - unat i"
  by (simp add: rb_size_def unat_sub word_le_nat_alt)

lemma ucast_unat: "(ucast (x :: 'a::len word) :: 'b::len word) = word_of_nat (unat x)"
  by simp

text \<open>The chunk arithmetic on words, shared by the two batch operations.\<close>

lemma rb_chunk:
  assumes wf: "rb_wf r" and i: "unat i < rb_size r"
    and f: "f = (if m > rb_capacity r - i then rb_capacity r - i else m)"
  shows "unat f = min (unat m) (rb_size r - unat i)" and "unat (m - f) = unat m - unat f"
    and "f < m \<longleftrightarrow> unat f < unat m"
proof -
  show u: "unat f = min (unat m) (rb_size r - unat i)"
    unfolding f unat_chunk unat_wrap_point [OF wf i] ..
  then show "unat (m - f) = unat m - unat f" by (simp add: unat_sub word_le_nat_alt)
  show "f < m \<longleftrightarrow> unat f < unat m" by (simp add: word_less_nat_alt)
qed

lemma rb_pop_batch_unfold:
  assumes "count \<noteq> 0" "to_pop \<noteq> 0"
    and p: "to_pop = (if count < ring_buffer_count (Some r) then count else ring_buffer_count (Some r))"
    and f: "f = (if to_pop > rb_capacity r - rb_tail r then rb_capacity r - rb_tail r else to_pop)"
  shows "ring_buffer_pop_batch (Some r) (Some xs) count popped =
    (mem_read (rb_buffer r) (unat (rb_tail r)) (unat f) \<bind> (\<lambda>src. mem_write xs 0 src \<bind> (\<lambda>ys.
       if f < to_pop then mem_read (rb_buffer r) 0 (unat (to_pop - f))
         \<bind> (\<lambda>src. mem_write ys (unat f) src) else Some ys)))
    \<bind> (\<lambda>ys. Some (True, Some (r\<lparr>rb_tail := (rb_tail r + to_pop) AND rb_mask r\<rparr>), Some ys,
                   set_out popped to_pop))"
proof -
  have "0 < to_pop" using assms(2) by (simp add: word_neq_0_conv)
  then show ?thesis
    using assms(1,2) unfolding ring_buffer_pop_batch_def Let_def option.case prod.case
      p [symmetric] f [symmetric]
    by simp
qed

lemma rb_pop_batch:
  assumes wf: "rb_wf r" and m: "m = min (unat count) (rb_len r)" and bound: "m \<le> length xs"
  obtains r' where
    "ring_buffer_pop_batch (Some r) (Some xs) count popped
       = Some (0 < m, Some r', Some (take m (rb_contents r) @ drop m xs), set_out popped (word_of_nat m))"
    "rb_wf r'" "rb_contents r' = drop m (rb_contents r)" "rb_size r' = rb_size r"
    "rb_dropped r' = rb_dropped r"
proof (cases "m = 0")
  case True
  then have "count = 0 \<or> ring_buffer_count (Some r) = 0"
    using m unat_count [OF wf] by (auto simp: unat_eq_zero min_def split: if_splits)
  with True show ?thesis
    by (intro that [of r]) (auto simp: ring_buffer_pop_batch_def wf)
next
  case False
  note n = rb_wf_nat [OF wf]
  let ?c = "ring_buffer_count (Some r)"
  define to_pop where p: "to_pop = (if count < ?c then count else ?c)"
  define f where f: "f = (if to_pop > rb_capacity r - rb_tail r then rb_capacity r - rb_tail r else to_pop)"
  have u: "unat to_pop = m" unfolding p unat_min_if unat_count [OF wf] m ..
  have nz: "count \<noteq> 0" "to_pop \<noteq> 0" using False m u by auto
  note ch = rb_chunk [OF wf n(4) f, unfolded u]
  have mn: "m \<le> rb_size r" "m \<le> rb_len r" using m rb_len_less [OF wf] by simp_all
  have copy: "mem_read (rb_buffer r) (unat (rb_tail r)) (unat f)
      \<bind> (\<lambda>src. mem_write xs 0 src \<bind> (\<lambda>ys.
        if f < to_pop then mem_read (rb_buffer r) 0 (unat (to_pop - f))
          \<bind> (\<lambda>src. mem_write ys (unat f) src) else Some ys))
      = Some (take m (rb_contents r) @ drop m xs)"
    unfolding ch(2,3) rb_contents_def take_ring_read [OF mn(2)]
    by (rule ring_copy_out) (use n mn bound ch(1) in auto)
  have "ring_buffer_pop_batch (Some r) (Some xs) count popped
      = Some (True, Some (r\<lparr>rb_tail := (rb_tail r + to_pop) AND rb_mask r\<rparr>),
          Some (take m (rb_contents r) @ drop m xs), set_out popped to_pop)"
    unfolding rb_pop_batch_unfold [OF nz p f] copy by simp
  moreover have "set_out popped to_pop = set_out popped (word_of_nat m)" using u by auto
  moreover have "unat ((rb_tail r + to_pop) AND rb_mask r) = (unat (rb_tail r) + m) mod rb_size r"
    by (simp add: unat_index_add [OF wf] u)
  note rb_advance_tail [OF wf mn(2) this]
  ultimately show ?thesis
    using False by (intro that [of "r\<lparr>rb_tail := (rb_tail r + to_pop) AND rb_mask r\<rparr>"])
      (simp_all add: rb_size_def)
qed

lemma rb_push_batch_unfold:
  assumes "count \<noteq> 0" "to_push \<noteq> 0"
    and p: "to_push = (if count < ring_buffer_available (Some r) then count
                       else ring_buffer_available (Some r))"
    and f: "f = (if to_push > rb_capacity r - rb_head r then rb_capacity r - rb_head r else to_push)"
  shows "ring_buffer_push_batch (Some r) (Some xs) count pushed =
    (mem_read xs 0 (unat f) \<bind> (\<lambda>src. mem_write (rb_buffer r) (unat (rb_head r)) src \<bind> (\<lambda>buf.
       if f < to_push then mem_read xs (unat f) (unat (to_push - f))
         \<bind> (\<lambda>src. mem_write buf 0 src) else Some buf)))
    \<bind> (\<lambda>buf. let r = r\<lparr>rb_buffer := buf, rb_head := (rb_head r + to_push) AND rb_mask r\<rparr>;
                  r = (if to_push < count
                       then r\<lparr>rb_dropped := rb_dropped r + ucast (count - to_push)\<rparr> else r)
              in Some (to_push = count, Some r, set_out pushed to_push))"
  using assms(1,2) unfolding ring_buffer_push_batch_def Let_def option.case prod.case
    p [symmetric] f [symmetric]
  by simp

lemma rb_push_batch_none:
  assumes wf: "rb_wf r" and m: "min (unat count) (rb_room r) = 0"
  obtains r' where
    "ring_buffer_push_batch (Some r) (Some xs) count pushed = Some (False, Some r', set_out pushed 0)"
    "rb_wf r'" "rb_contents r' = rb_contents r" "rb_size r' = rb_size r"
    "rb_dropped r' = rb_dropped r + word_of_nat (unat count)"
proof (cases "count = 0")
  case True
  then show ?thesis by (intro that [of r]) (auto simp: ring_buffer_push_batch_def wf)
next
  case False
  then have "ring_buffer_available (Some r) = 0"
    using m unat_available [OF wf] by (auto simp: unat_eq_zero min_def split: if_splits)
  with False wf show ?thesis
    by (intro that [of "r\<lparr>rb_dropped := rb_dropped r + ucast count\<rparr>"])
       (auto simp: ring_buffer_push_batch_def rb_wf_def rb_size_def rb_contents_def rb_len_def)
qed

lemma rb_push_batch_copy:
  assumes wf: "rb_wf r" and m: "m = min (unat count) (rb_room r)" "0 < m" "m \<le> length xs"
    and r1: "r1 = r\<lparr>rb_buffer := ring_write (rb_buffer r) (unat (rb_head r)) (take m xs),
                   rb_head := (rb_head r + word_of_nat m) AND rb_mask r\<rparr>"
  shows "ring_buffer_push_batch (Some r) (Some xs) count pushed
      = Some (word_of_nat m = count,
          Some (if word_of_nat m < count
                then r1\<lparr>rb_dropped := rb_dropped r + ucast (count - word_of_nat m)\<rparr> else r1),
          set_out pushed (word_of_nat m))"
proof -
  note n = rb_wf_nat [OF wf]
  let ?a = "ring_buffer_available (Some r)"
  define to_push where p: "to_push = (if count < ?a then count else ?a)"
  define f where f: "f = (if to_push > rb_capacity r - rb_head r then rb_capacity r - rb_head r else to_push)"
  have u: "unat to_push = m" unfolding p unat_min_if unat_available [OF wf] m ..
  then have w: "to_push = word_of_nat m" by auto
  have nz: "count \<noteq> 0" "to_push \<noteq> 0" using m u by auto
  note ch = rb_chunk [OF wf n(3) f, unfolded u]
  have mn: "m \<le> rb_size r" using m rb_room_len [OF wf] by simp
  have copy: "mem_read xs 0 (unat f)
      \<bind> (\<lambda>src. mem_write (rb_buffer r) (unat (rb_head r)) src \<bind> (\<lambda>buf.
        if f < to_push then mem_read xs (unat f) (unat (to_push - f))
          \<bind> (\<lambda>src. mem_write buf 0 src) else Some buf))
      = Some (ring_write (rb_buffer r) (unat (rb_head r)) (take m xs))"
    unfolding ch(2,3) by (rule ring_copy_in) (use n mn m ch(1) in auto)
  show ?thesis
    unfolding rb_push_batch_unfold [OF nz p f] copy by (simp add: r1 w Let_def)
qed

lemma rb_push_batch:
  assumes wf: "rb_wf r" and m: "m = min (unat count) (rb_room r)" and bound: "m \<le> length xs"
  obtains r' where
    "ring_buffer_push_batch (Some r) (Some xs) count pushed
       = Some (0 < count \<and> m = unat count, Some r', set_out pushed (word_of_nat m))"
    "rb_wf r'" "rb_contents r' = rb_contents r @ take m xs" "rb_size r' = rb_size r"
    "rb_dropped r' = rb_dropped r + word_of_nat (unat count - m)"
proof (cases "m = 0")
  case True
  obtain r' where "ring_buffer_push_batch (Some r) (Some xs) count pushed
      = Some (False, Some r', set_out pushed 0)"
    "rb_wf r'" "rb_contents r' = rb_contents r" "rb_size r' = rb_size r"
    "rb_dropped r' = rb_dropped r + word_of_nat (unat count)"
    by (rule rb_push_batch_none [OF wf, of count xs pushed]) (use True m in auto)
  moreover have "\<not> (0 < count \<and> m = unat count)" using True by (auto simp: unat_eq_zero)
  ultimately show ?thesis using True by (intro that [of r']) simp_all
next
  case False
  let ?w = "word_of_nat m :: u32"
  define r1 where "r1 = r\<lparr>rb_buffer := ring_write (rb_buffer r) (unat (rb_head r)) (take m xs),
    rb_head := (rb_head r + ?w) AND rb_mask r\<rparr>"
  define r2 where "r2 = (if ?w < count
    then r1\<lparr>rb_dropped := rb_dropped r + ucast (count - ?w)\<rparr> else r1)"
  have mc: "m \<le> unat count" "m \<le> rb_room r" using m by simp_all
  have u: "unat ?w = m"
    using mc unsigned_less [of count, where ?'a = nat] by (simp add: unat_of_nat)
  have r1: "rb_wf r1" "rb_contents r1 = rb_contents r @ take m xs"
    using rb_write_head [OF wf, of "take m xs" "(rb_head r + ?w) AND rb_mask r"] mc bound u
    by (simp_all add: r1_def unat_index_add [OF wf] min_def)
  have r2: "rb_wf r2" "rb_contents r2 = rb_contents r @ take m xs" "rb_size r2 = rb_size r"
    using r1 by (auto simp: r2_def r1_def rb_wf_def rb_size_def rb_contents_def rb_len_def)
  have d: "rb_dropped r2 = rb_dropped r + word_of_nat (unat count - m)"
  proof (cases "?w < count")
    case True
    then have "unat (count - ?w) = unat count - m" using u by (simp add: unat_sub)
    with True show ?thesis by (simp add: r2_def ucast_unat)
  next
    case False
    then have "m = unat count" using mc u by (simp add: word_less_nat_alt)
    with False show ?thesis by (simp add: r2_def r1_def)
  qed
  have "?w = count \<longleftrightarrow> 0 < count \<and> m = unat count"
    using False u by (metis gr_zeroI unat_0 word_gt_0 word_unat_eq_iff)
  then show ?thesis
    using rb_push_batch_copy [OF wf m _ bound r1_def, of pushed] False r2 d
    by (intro that [of r2]) (simp_all add: r2_def)
qed

section \<open>The ring buffer is a bounded queue\<close>

definition rb_bound :: "ring_buffer_t \<Rightarrow> nat" where
  "rb_bound r = rb_size r - 1"

lemma rb_room_bound: "rb_room r = rb_bound r - length (rb_contents r)"
  by (simp add: rb_room_def rb_bound_def)

interpretation rbq: bounded_fifo rb_wf rb_contents rb_bound rb_dropped
  ring_buffer_push ring_buffer_pop ring_buffer_push_batch ring_buffer_pop_batch
proof unfold_locales
  fix r :: ring_buffer_t and x :: adc_sample_t and m n xs p
  assume wf: "rb_wf r"
  show "length (rb_contents r) \<le> rb_bound r"
    using rb_len_less [OF wf] by (simp add: rb_bound_def)
  show "\<exists>r'. ring_buffer_push (Some r) (Some x) = Some (length (rb_contents r) < rb_bound r, Some r')
      \<and> rb_wf r' \<and> rb_bound r' = rb_bound r
      \<and> rb_contents r' = rb_contents r @ (if length (rb_contents r) < rb_bound r then [x] else [])
      \<and> rb_dropped r' = rb_dropped r + (if length (rb_contents r) < rb_bound r then 0 else 1)"
  proof (cases "0 < rb_room r")
    case True
    with rb_push_room [OF wf True, of x] show ?thesis
      by (fastforce simp: rb_room_bound rb_bound_def)
  next
    case False
    then have "rb_room r = 0" by simp
    from rb_push_full [OF wf this, of x] this wf show ?thesis
      by (auto simp: rb_room_bound rb_bound_def rb_wf_def rb_size_def rb_contents_def rb_len_def)
  qed
  show "\<exists>r'. ring_buffer_pop (Some r) (Some x)
        = Some (rb_contents r \<noteq> [], Some r', Some (case rb_contents r of [] \<Rightarrow> x | y # _ \<Rightarrow> y))
      \<and> rb_wf r' \<and> rb_bound r' = rb_bound r \<and> rb_contents r' = tl (rb_contents r)
      \<and> rb_dropped r' = rb_dropped r"
  proof (cases "rb_len r = 0")
    case True
    then have "rb_contents r = []" by (simp flip: length_0_conv)
    with rb_pop_empty [OF wf True, of x] wf show ?thesis by simp
  next
    case False
    then have "rb_contents r \<noteq> []" by (simp flip: length_0_conv)
    moreover obtain r' where
      "ring_buffer_pop (Some r) (Some x) = Some (True, Some r', Some (hd (rb_contents r)))"
      "rb_wf r'" "rb_contents r' = tl (rb_contents r)" "rb_size r' = rb_size r"
      "rb_dropped r' = rb_dropped r"
      using rb_pop_some [OF wf] False by blast
    ultimately show ?thesis by (cases "rb_contents r") (auto simp: rb_bound_def)
  qed
  show "m = min (unat n) (rb_bound r - length (rb_contents r)) \<Longrightarrow> m \<le> length xs \<Longrightarrow>
      \<exists>r'. ring_buffer_push_batch (Some r) (Some xs) n p
            = Some (0 < n \<and> m = unat n, Some r', set_out p (word_of_nat m))
        \<and> rb_wf r' \<and> rb_bound r' = rb_bound r \<and> rb_contents r' = rb_contents r @ take m xs
        \<and> rb_dropped r' = rb_dropped r + word_of_nat (unat n - m)"
    by (rule rb_push_batch [OF wf, of m n xs p]) (auto simp: rb_room_bound rb_bound_def)
  fix q
  show "m = min (unat n) (length (rb_contents r)) \<Longrightarrow> m \<le> length xs \<Longrightarrow>
      \<exists>r'. ring_buffer_pop_batch (Some r) (Some xs) n q
            = Some (0 < m, Some r', Some (take m (rb_contents r) @ drop m xs), set_out q (word_of_nat m))
        \<and> rb_wf r' \<and> rb_bound r' = rb_bound r \<and> rb_contents r' = drop m (rb_contents r)
        \<and> rb_dropped r' = rb_dropped r"
    by (rule rb_pop_batch [OF wf, of m n xs q]) (auto simp: rb_bound_def)
qed

section \<open>Capacity normalisation\<close>

text \<open>The doubling loop stops at the least power of two that is not below the request, ...\<close>

lemma next_power_returns:
  assumes "j \<le> k" "k \<le> 31" "unat c \<le> 2 ^ k" "\<And>i. i < k \<Longrightarrow> 2 ^ i < unat c"
  shows "next_power c (2 ^ j) = Some (2 ^ k)"
  using assms(1)
proof (induction "k - j" arbitrary: j)
  case 0
  then have "j = k" by simp
  moreover have "\<not> (2 ^ k :: u32) < c" using assms by (simp add: word_less_nat_alt unat_pow2)
  ultimately show ?case by (simp add: next_power.simps)
next
  case (Suc d)
  then have j: "j < k" by simp
  have "(2 ^ j :: u32) < c" using assms(2) assms(4) [OF j] j by (simp add: word_less_nat_alt unat_pow2)
  moreover have "push_bit 1 (2 ^ j :: u32) = 2 ^ Suc j" by (simp add: push_bit_eq_mult)
  moreover have "next_power c (2 ^ Suc j) = Some (2 ^ k)" using Suc j by (intro Suc.hyps) auto
  ultimately show ?case by (simp add: next_power.simps [of c "2 ^ j"] mult.commute)
qed

text \<open>... and when it stops, the result is the start value shifted and not below the request.\<close>

lemma next_power_result:
  assumes "next_power c x = Some y"
  shows "\<not> y < c \<and> (\<exists>k. y = 2 ^ k * x)"
proof (rule next_power.raw_induct [where P = "\<lambda>c x y. \<not> y < c \<and> (\<exists>k. y = 2 ^ k * x)", OF _ assms])
  fix f :: "u32 \<Rightarrow> u32 \<Rightarrow> u32 option" and c x y
  assume IH: "\<And>c x y. f c x = Some y \<Longrightarrow> \<not> y < c \<and> (\<exists>k. y = 2 ^ k * x)"
    and eq: "(if x < c then f c (push_bit 1 x) else Some x) = Some y"
  show "\<not> y < c \<and> (\<exists>k. y = 2 ^ k * x)"
  proof (cases "x < c")
    case True
    with eq IH obtain k where k: "\<not> y < c" "y = 2 ^ k * push_bit 1 x" by fastforce
    then have "y = 2 ^ Suc k * x" by (simp add: push_bit_eq_mult ac_simps)
    with k show ?thesis by blast
  next
    case False
    with eq have "y = 2 ^ 0 * x" "\<not> y < c" by simp_all
    then show ?thesis by blast
  qed
qed

lemma unat_pow2_le: "unat (2 ^ k :: u32) \<le> 2 ^ 31"
proof (cases "k < 32")
  case True
  then show ?thesis using power_increasing [of k 31 "2::nat"] by (simp add: unat_pow2)
next
  case False
  then have z: "(2 ^ k :: u32) = 0" by (simp add: exp_eq_zero_iff)
  show ?thesis unfolding z by simp
qed

lemma ring_capacity_diverges:
  assumes "2 ^ 31 < unat c"
  shows "ring_capacity c = None"
proof -
  have c2: "\<not> c < 2" using assms by (simp add: word_less_nat_alt)
  have "c AND (c - 1) \<noteq> 0"
  proof
    assume a: "c AND (c - 1) = 0"
    have "c \<noteq> 0" using assms by auto
    from and_pred_eq_0_pow2 [OF this a] obtain k where "c = 2 ^ k" by blast
    with unat_pow2_le [of k] assms show False by simp
  qed
  moreover have "next_power c 1 = None"
  proof (cases "next_power c 1")
    case (Some y)
    then obtain k where "\<not> y < c" "y = 2 ^ k" using next_power_result by fastforce
    with unat_pow2_le [of k] assms show ?thesis by (simp add: word_less_nat_alt)
  qed simp
  ultimately show ?thesis using c2 by (simp add: ring_capacity_def Let_def)
qed

lemma ring_capacity_returns:
  assumes "unat c \<le> 2 ^ 31"
  obtains k where "1 \<le> k" "k \<le> 31" "ring_capacity c = Some (2 ^ k)"
    "max 2 (unat c) \<le> 2 ^ k" "2 ^ k < 2 * max 2 (unat c)"
proof -
  define d where "d = (if c < 2 then 2 else c)"
  have d: "unat d = max 2 (unat c)" by (simp add: d_def word_less_nat_alt max_def)
  have rc: "ring_capacity c = (if d AND (d - 1) \<noteq> 0 then next_power d 1 else Some d)"
    by (simp add: ring_capacity_def Let_def d_def)
  obtain i where i: "2 ^ i < unat d" "unat d \<le> 2 ^ (i + 1)"
    using ex_power_ivl2 [of 2 "unat d"] d by auto
  have "(2::nat) ^ i < 2 ^ 31" using i(1) d assms by (simp add: max_def split: if_splits)
  then have i31: "i < 31" by (rule power_less_imp_less_exp [rotated]) simp
  have below: "2 ^ j < unat d" if "j < i + 1" for j
  proof -
    have "(2::nat) ^ j \<le> 2 ^ i" using that by (intro power_increasing) simp_all
    with i(1) show ?thesis by linarith
  qed
  have "ring_capacity c = Some (2 ^ (i + 1))"
  proof (cases "d AND (d - 1) = 0")
    case False
    have "next_power d (2 ^ 0) = Some (2 ^ (i + 1))"
      using i i31 below by (intro next_power_returns) auto
    with False show ?thesis by (simp add: rc)
  next
    case True
    moreover have "d \<noteq> 0" using d by auto
    ultimately obtain j where j: "j < 32" "d = 2 ^ j" using and_pred_eq_0_pow2 [of d] by auto
    then have "unat d = 2 ^ j" by (simp add: unat_pow2)
    with i have lt: "(2::nat) ^ i < 2 ^ j" and le: "(2::nat) ^ j \<le> 2 ^ (i + 1)" by simp_all
    from lt have "i < j" by (rule power_less_imp_less_exp [rotated]) simp
    moreover from le have "j \<le> i + 1" by (rule power_le_imp_le_exp [rotated]) simp
    ultimately have "j = i + 1" by simp
    then show ?thesis using True j by (simp add: rc)
  qed
  with i i31 d show ?thesis by (intro that [of "i + 1"]) simp_all
qed

section \<open>Sequences of operations\<close>

text \<open>
  A client's calls as data, run on the ring and on the abstract queue. \<open>rb_exec\<close> returns the
  samples the call delivered; a batch pop is given an array of exactly the requested size.
\<close>

datatype rb_op =
    Push adc_sample_t
  | Pop
  | Push_Batch "adc_sample_t list"
  | Pop_Batch u32
  | Clear

record fifo =
  f_bound :: nat
  f_items :: "adc_sample_t list"
  f_dropped :: u64

definition blank_sample :: adc_sample_t where
  "blank_sample = \<lparr>s_timestamp = 0, s_value = 0, s_sequence = 0, s_channel = 0, s_flags = 0\<rparr>"

fun rb_exec :: "rb_op \<Rightarrow> ring_buffer_t option \<Rightarrow> (adc_sample_t list \<times> ring_buffer_t option) option" where
  "rb_exec (Push s) r = do { (_, r) \<leftarrow> ring_buffer_push r (Some s); Some ([], r) }"
| "rb_exec Pop r = do {
     (ok, r, out) \<leftarrow> ring_buffer_pop r (Some blank_sample);
     Some (case out of Some s \<Rightarrow> if ok then [s] else [] | None \<Rightarrow> [], r) }"
| "rb_exec (Push_Batch xs) r = do {
     (_, r, _) \<leftarrow> ring_buffer_push_batch r (Some xs) (word_of_nat (length xs)) None;
     Some ([], r) }"
| "rb_exec (Pop_Batch n) r = do {
     (_, r, out, got) \<leftarrow> ring_buffer_pop_batch r (Some (replicate (unat n) blank_sample)) n (Some 0);
     Some (case (out, got) of (Some ys, Some k) \<Rightarrow> take (unat k) ys | _ \<Rightarrow> [], r) }"
| "rb_exec Clear r = Some ([], ring_buffer_clear r)"

fun rb_run :: "rb_op list \<Rightarrow> ring_buffer_t option \<Rightarrow> (adc_sample_t list \<times> ring_buffer_t option) option" where
  "rb_run [] r = Some ([], r)"
| "rb_run (c # cs) r = do {
     (out, r) \<leftarrow> rb_exec c r; (out', r) \<leftarrow> rb_run cs r; Some (out @ out', r) }"

fun fifo_exec :: "rb_op \<Rightarrow> fifo \<Rightarrow> adc_sample_t list \<times> fifo" where
  "fifo_exec (Push s) q =
     ([], if length (f_items q) < f_bound q then q\<lparr>f_items := f_items q @ [s]\<rparr>
          else q\<lparr>f_dropped := f_dropped q + 1\<rparr>)"
| "fifo_exec Pop q = (take 1 (f_items q), q\<lparr>f_items := drop 1 (f_items q)\<rparr>)"
| "fifo_exec (Push_Batch xs) q =
     (let m = min (length xs) (f_bound q - length (f_items q))
      in ([], q\<lparr>f_items := f_items q @ take m xs, f_dropped := f_dropped q + word_of_nat (length xs - m)\<rparr>))"
| "fifo_exec (Pop_Batch n) q = (take (unat n) (f_items q), q\<lparr>f_items := drop (unat n) (f_items q)\<rparr>)"
| "fifo_exec Clear q = ([], q\<lparr>f_items := [], f_dropped := 0\<rparr>)"

fun fifo_run :: "rb_op list \<Rightarrow> fifo \<Rightarrow> adc_sample_t list \<times> fifo" where
  "fifo_run [] q = ([], q)"
| "fifo_run (c # cs) q =
     (let (out, q) = fifo_exec c q; (out', q) = fifo_run cs q in (out @ out', q))"

definition rb_view :: "ring_buffer_t \<Rightarrow> fifo" where
  "rb_view r = \<lparr>f_bound = rb_bound r, f_items = rb_contents r, f_dropped = rb_dropped r\<rparr>"

text \<open>A batch longer than a 32-bit count cannot be requested.\<close>

fun op_ok :: "rb_op \<Rightarrow> bool" where
  "op_ok (Push_Batch xs) \<longleftrightarrow> length xs < 2 ^ 32"
| "op_ok _ \<longleftrightarrow> True"

lemma rb_view_simps [simp]:
  "f_bound (rb_view r) = rb_bound r" "f_items (rb_view r) = rb_contents r"
  "f_dropped (rb_view r) = rb_dropped r"
  by (simp_all add: rb_view_def)

lemma rb_view_eqI:
  "rb_bound r' = f_bound q \<Longrightarrow> rb_contents r' = f_items q \<Longrightarrow> rb_dropped r' = f_dropped q \<Longrightarrow> rb_view r' = q"
  by (simp add: rb_view_def)

lemma rb_exec_refines:
  assumes wf: "rb_wf r" and ok: "op_ok c"
  shows "\<exists>r'. rb_exec c (Some r) = Some (fst (fifo_exec c (rb_view r)), Some r') \<and> rb_wf r'
           \<and> rb_view r' = snd (fifo_exec c (rb_view r))"
proof (cases c)
  case (Push s)
  with rbq.push_law [OF wf, of s] show ?thesis by (fastforce simp: rb_view_def)
next
  case Pop
  with rbq.pop_law [OF wf, of blank_sample] show ?thesis
    by (cases "rb_contents r") (fastforce simp: rb_view_def)+
next
  case (Push_Batch xs)
  let ?m = "min (length xs) (rb_bound r - length (rb_contents r))"
  have "unat (word_of_nat (length xs) :: u32) = length xs"
    using ok Push_Batch by (simp add: unat_of_nat)
  with rbq.push_batch_law [OF wf, of ?m "word_of_nat (length xs)" xs None] Push_Batch
  show ?thesis by (fastforce simp: rb_view_def Let_def)
next
  case (Pop_Batch n)
  let ?m = "min (unat n) (length (rb_contents r))"
  have "unat (word_of_nat ?m :: u32) = ?m"
    using unsigned_less [of n, where ?'a = nat] by (simp add: unat_of_nat)
  moreover have "take ?m (rb_contents r) = take (unat n) (rb_contents r)"
    "drop ?m (rb_contents r) = drop (unat n) (rb_contents r)"
    by (simp_all add: min_def)
  ultimately show ?thesis
    using rbq.pop_batch_law [OF wf, of ?m n "replicate (unat n) blank_sample" "Some 0"] Pop_Batch
    by (fastforce simp: rb_view_def)
next
  case Clear
  have "rb_wf (r\<lparr>rb_head := 0, rb_tail := 0, rb_dropped := 0\<rparr>)"
    using wf rb_wf_nat(1) [OF wf] by (auto simp: rb_wf_def rb_size_def word_less_nat_alt)
  with Clear show ?thesis
    by (auto simp: ring_buffer_clear_def rb_view_def rb_bound_def rb_size_def rb_contents_def rb_len_def)
qed

lemma rb_run_refines:
  assumes "rb_wf r" "\<forall>c\<in>set cs. op_ok c"
  shows "\<exists>r'. rb_run cs (Some r) = Some (fst (fifo_run cs (rb_view r)), Some r') \<and> rb_wf r'
           \<and> rb_view r' = snd (fifo_run cs (rb_view r))"
  using assms
proof (induction cs arbitrary: r)
  case Nil
  then show ?case by simp
next
  case (Cons c cs)
  obtain r1 where r1: "rb_exec c (Some r) = Some (fst (fifo_exec c (rb_view r)), Some r1)" "rb_wf r1"
    "rb_view r1 = snd (fifo_exec c (rb_view r))"
    using rb_exec_refines [of r c] Cons.prems by auto
  moreover obtain r2 where "rb_run cs (Some r1) = Some (fst (fifo_run cs (rb_view r1)), Some r2)" "rb_wf r2"
    "rb_view r2 = snd (fifo_run cs (rb_view r1))"
    using Cons.IH [OF r1(2)] Cons.prems by auto
  ultimately show ?case by (simp add: case_prod_beta Let_def)
qed

end
