(* ===== verification/Spsc.thy ===== *)
theory Spsc
  imports Ring_Buffer
begin

text \<open>
  The ring buffer under concurrent use by one producer and one consumer, as
  \<^verbatim>\<open>include/ring_buffer.h\<close> promises. Each access of the code to a shared variable
  (\<^verbatim>\<open>head\<close>, \<^verbatim>\<open>tail\<close>, \<^verbatim>\<open>dropped\<close>, one element of the data array) is one
  atomic step, and the steps of the two threads interleave in any order. The local variables of
  a call in progress are the arguments of the thread's program counter; the producer's own counter
  \<^verbatim>\<open>dropped\<close> is updated in the step that decides the rejection.

  The steps of one thread are taken in program order and take effect at once (sequential
  consistency). Theory \<open>Spsc_Tso\<close> lifts the result to store buffers, the memory model of x86,
  and shows where the barriers of the code are too weak for other machines. The fields \<open>sent\<close>, \<open>got\<close>, \<open>offered\<close> and
  \<open>lost\<close> are history variables: the samples published by a head update, the samples handed
  to the consumer by a tail update, the number of samples the producer's calls were given and the
  number they rejected.
\<close>

section \<open>States\<close>

datatype prod_pc =
    P_Idle
  | P_Push1 adc_sample_t u32 \<comment> \<open>head loaded\<close>
  | P_Push2 adc_sample_t u32 u32 \<comment> \<open>not full: sample, head, next\_head\<close>
  | P_Push3 adc_sample_t u32 \<comment> \<open>sample stored\<close>
  | P_Batch1 "adc_sample_t list" u32 \<comment> \<open>in \<open>ring_buffer_count\<close>: head loaded\<close>
  | P_Batch2 "adc_sample_t list" u32 \<comment> \<open>available computed\<close>
  | P_Copy "adc_sample_t list" u32 u32 nat \<comment> \<open>head, to\_push, elements copied\<close>
  | P_Drop "adc_sample_t list" u32 \<comment> \<open>head stored: to\_push\<close>

datatype cons_pc =
    C_Idle
  | C_Pop1 u32 \<comment> \<open>head loaded\<close>
  | C_Pop2 u32 \<comment> \<open>not empty: tail\<close>
  | C_Pop3 u32 adc_sample_t \<comment> \<open>sample read\<close>
  | C_Batch1 u32 u32 \<comment> \<open>in \<open>ring_buffer_count\<close>: count, head\<close>
  | C_Batch2 u32 u32 \<comment> \<open>count, current\_count\<close>
  | C_Copy u32 u32 "adc_sample_t list" \<comment> \<open>tail, to\_pop, elements copied\<close>

record spsc =
  ring :: ring_buffer_t
  prod :: prod_pc
  cons :: cons_pc
  sent :: "adc_sample_t list"
  got :: "adc_sample_t list"
  offered :: nat
  lost :: nat

text \<open>The count argument of a batch push of the array \<open>xs\<close>.\<close>

definition cnt :: "adc_sample_t list \<Rightarrow> u32" where
  "cnt xs = word_of_nat (length xs)"

definition word_min :: "u32 \<Rightarrow> u32 \<Rightarrow> u32" where
  "word_min a b = (if a < b then a else b)"

text \<open>
  The element index the two-chunk copy of the code uses for its \<open>i\<close>-th element: the first
  chunk starts at \<open>start\<close>, the second one at index 0.
\<close>

definition copy_index :: "ring_buffer_t \<Rightarrow> u32 \<Rightarrow> u32 \<Rightarrow> nat \<Rightarrow> nat" where
  "copy_index r start n i =
     (let wrap_point = rb_capacity r - start;
          first_chunk = (if n > wrap_point then wrap_point else n)
      in if i < unat first_chunk then unat start + i else i - unat first_chunk)"

section \<open>Steps\<close>

inductive pstep :: "spsc \<Rightarrow> spsc \<Rightarrow> bool" where
  push_load: "prod s = P_Idle \<Longrightarrow>
     pstep s (s\<lparr>prod := P_Push1 x (rb_head (ring s)), offered := offered s + 1\<rparr>)"
| push_full: "prod s = P_Push1 x h \<Longrightarrow> (h + 1) AND rb_mask (ring s) = rb_tail (ring s) \<Longrightarrow>
     pstep s (s\<lparr>ring := (ring s)\<lparr>rb_dropped := rb_dropped (ring s) + 1\<rparr>, prod := P_Idle,
                lost := lost s + 1\<rparr>)"
| push_room: "prod s = P_Push1 x h \<Longrightarrow> (h + 1) AND rb_mask (ring s) \<noteq> rb_tail (ring s) \<Longrightarrow>
     pstep s (s\<lparr>prod := P_Push2 x h ((h + 1) AND rb_mask (ring s))\<rparr>)"
| push_write: "prod s = P_Push2 x h nh \<Longrightarrow> mem_write (rb_buffer (ring s)) (unat h) [x] = Some buf \<Longrightarrow>
     pstep s (s\<lparr>ring := (ring s)\<lparr>rb_buffer := buf\<rparr>, prod := P_Push3 x nh\<rparr>)"
| push_publish: "prod s = P_Push3 x nh \<Longrightarrow>
     pstep s (s\<lparr>ring := (ring s)\<lparr>rb_head := nh\<rparr>, prod := P_Idle, sent := sent s @ [x]\<rparr>)"
| batch_load_head: "prod s = P_Idle \<Longrightarrow> xs \<noteq> [] \<Longrightarrow> length xs < 2 ^ 32 \<Longrightarrow>
     pstep s (s\<lparr>prod := P_Batch1 xs (rb_head (ring s)), offered := offered s + length xs\<rparr>)"
| batch_load_tail: "prod s = P_Batch1 xs h \<Longrightarrow>
     pstep s (s\<lparr>prod := P_Batch2 xs (rb_capacity (ring s) - ((h - rb_tail (ring s)) AND rb_mask (ring s)) - 1)\<rparr>)"
| batch_none: "prod s = P_Batch2 xs av \<Longrightarrow> word_min (cnt xs) av = 0 \<Longrightarrow>
     pstep s (s\<lparr>ring := (ring s)\<lparr>rb_dropped := rb_dropped (ring s) + ucast (cnt xs)\<rparr>,
                prod := P_Idle, lost := lost s + length xs\<rparr>)"
| batch_some: "prod s = P_Batch2 xs av \<Longrightarrow> word_min (cnt xs) av = n \<Longrightarrow> n \<noteq> 0 \<Longrightarrow>
     pstep s (s\<lparr>prod := P_Copy xs (rb_head (ring s)) n 0\<rparr>)"
| batch_copy: "prod s = P_Copy xs h n i \<Longrightarrow> i < unat n \<Longrightarrow>
     mem_write (rb_buffer (ring s)) (copy_index (ring s) h n i) [xs ! i] = Some buf \<Longrightarrow>
     pstep s (s\<lparr>ring := (ring s)\<lparr>rb_buffer := buf\<rparr>, prod := P_Copy xs h n (Suc i)\<rparr>)"
| batch_publish: "prod s = P_Copy xs h n i \<Longrightarrow> i = unat n \<Longrightarrow>
     pstep s (s\<lparr>ring := (ring s)\<lparr>rb_head := (h + n) AND rb_mask (ring s)\<rparr>, prod := P_Drop xs n,
                sent := sent s @ take i xs\<rparr>)"
| batch_count: "prod s = P_Drop xs n \<Longrightarrow>
     pstep s (s\<lparr>ring := (if n < cnt xs
                         then (ring s)\<lparr>rb_dropped := rb_dropped (ring s) + ucast (cnt xs - n)\<rparr>
                         else ring s),
                prod := P_Idle, lost := lost s + (length xs - unat n)\<rparr>)"

inductive cstep :: "spsc \<Rightarrow> spsc \<Rightarrow> bool" where
  pop_load: "cons s = C_Idle \<Longrightarrow> cstep s (s\<lparr>cons := C_Pop1 (rb_head (ring s))\<rparr>)"
| pop_empty: "cons s = C_Pop1 h \<Longrightarrow> h = rb_tail (ring s) \<Longrightarrow> cstep s (s\<lparr>cons := C_Idle\<rparr>)"
| pop_some: "cons s = C_Pop1 h \<Longrightarrow> h \<noteq> rb_tail (ring s) \<Longrightarrow>
     cstep s (s\<lparr>cons := C_Pop2 (rb_tail (ring s))\<rparr>)"
| pop_read: "cons s = C_Pop2 t \<Longrightarrow> mem_read (rb_buffer (ring s)) (unat t) 1 = Some [x] \<Longrightarrow>
     cstep s (s\<lparr>cons := C_Pop3 t x\<rparr>)"
| pop_publish: "cons s = C_Pop3 t x \<Longrightarrow>
     cstep s (s\<lparr>ring := (ring s)\<lparr>rb_tail := (t + 1) AND rb_mask (ring s)\<rparr>, cons := C_Idle,
                got := got s @ [x]\<rparr>)"
| cbatch_load_head: "cons s = C_Idle \<Longrightarrow> n \<noteq> 0 \<Longrightarrow>
     cstep s (s\<lparr>cons := C_Batch1 n (rb_head (ring s))\<rparr>)"
| cbatch_load_tail: "cons s = C_Batch1 n h \<Longrightarrow>
     cstep s (s\<lparr>cons := C_Batch2 n ((h - rb_tail (ring s)) AND rb_mask (ring s))\<rparr>)"
| cbatch_none: "cons s = C_Batch2 n c \<Longrightarrow> word_min n c = 0 \<Longrightarrow> cstep s (s\<lparr>cons := C_Idle\<rparr>)"
| cbatch_some: "cons s = C_Batch2 n c \<Longrightarrow> word_min n c = m \<Longrightarrow> m \<noteq> 0 \<Longrightarrow>
     cstep s (s\<lparr>cons := C_Copy (rb_tail (ring s)) m []\<rparr>)"
| cbatch_copy: "cons s = C_Copy t m acc \<Longrightarrow> length acc < unat m \<Longrightarrow>
     mem_read (rb_buffer (ring s)) (copy_index (ring s) t m (length acc)) 1 = Some [x] \<Longrightarrow>
     cstep s (s\<lparr>cons := C_Copy t m (acc @ [x])\<rparr>)"
| cbatch_publish: "cons s = C_Copy t m acc \<Longrightarrow> length acc = unat m \<Longrightarrow>
     cstep s (s\<lparr>ring := (ring s)\<lparr>rb_tail := (t + m) AND rb_mask (ring s)\<rparr>, cons := C_Idle,
                got := got s @ acc\<rparr>)"

definition spsc_init :: "ring_buffer_t \<Rightarrow> spsc" where
  "spsc_init r = \<lparr>ring = r, prod = P_Idle, cons = C_Idle, sent = [], got = [], offered = 0, lost = 0\<rparr>"

text \<open>Reachability from a freshly created (empty, well-formed) ring.\<close>

inductive reach :: "ring_buffer_t \<Rightarrow> spsc \<Rightarrow> bool" for r where
  start: "reach r (spsc_init r)"
| prod_step: "reach r s \<Longrightarrow> pstep s s' \<Longrightarrow> reach r s'"
| cons_step: "reach r s \<Longrightarrow> cstep s s' \<Longrightarrow> reach r s'"

section \<open>The invariant\<close>

definition stale_head :: "ring_buffer_t \<Rightarrow> u32 \<Rightarrow> bool" where
  "stale_head r h \<longleftrightarrow> unat h < rb_size r \<and>
     (unat h + rb_size r - unat (rb_tail r)) mod rb_size r \<le> rb_len r"

fun prod_inv :: "ring_buffer_t \<Rightarrow> prod_pc \<Rightarrow> bool" where
  "prod_inv r P_Idle \<longleftrightarrow> True"
| "prod_inv r (P_Push1 x h) \<longleftrightarrow> h = rb_head r"
| "prod_inv r (P_Push2 x h nh) \<longleftrightarrow> h = rb_head r \<and> nh = (h + 1) AND rb_mask r \<and> 0 < rb_room r"
| "prod_inv r (P_Push3 x nh) \<longleftrightarrow>
     nh = (rb_head r + 1) AND rb_mask r \<and> 0 < rb_room r \<and> rb_buffer r ! unat (rb_head r) = x"
| "prod_inv r (P_Batch1 xs h) \<longleftrightarrow> h = rb_head r \<and> xs \<noteq> [] \<and> length xs < 2 ^ 32"
| "prod_inv r (P_Batch2 xs av) \<longleftrightarrow> unat av \<le> rb_room r \<and> xs \<noteq> [] \<and> length xs < 2 ^ 32"
| "prod_inv r (P_Copy xs h n i) \<longleftrightarrow> h = rb_head r \<and> unat n \<le> rb_room r \<and> unat n \<le> length xs
     \<and> length xs < 2 ^ 32 \<and> i \<le> unat n
     \<and> (\<forall>j<i. rb_buffer r ! ((unat h + j) mod rb_size r) = xs ! j)"
| "prod_inv r (P_Drop xs n) \<longleftrightarrow> unat n \<le> length xs \<and> length xs < 2 ^ 32"

fun cons_inv :: "ring_buffer_t \<Rightarrow> cons_pc \<Rightarrow> bool" where
  "cons_inv r C_Idle \<longleftrightarrow> True"
| "cons_inv r (C_Pop1 h) \<longleftrightarrow> stale_head r h"
| "cons_inv r (C_Pop2 t) \<longleftrightarrow> t = rb_tail r \<and> 0 < rb_len r"
| "cons_inv r (C_Pop3 t x) \<longleftrightarrow> t = rb_tail r \<and> 0 < rb_len r \<and> rb_contents r ! 0 = x"
| "cons_inv r (C_Batch1 n h) \<longleftrightarrow> stale_head r h"
| "cons_inv r (C_Batch2 n c) \<longleftrightarrow> unat c \<le> rb_len r"
| "cons_inv r (C_Copy t m acc) \<longleftrightarrow> t = rb_tail r \<and> unat m \<le> rb_len r \<and> length acc \<le> unat m
     \<and> acc = take (length acc) (rb_contents r)"

fun pending :: "prod_pc \<Rightarrow> nat" where
  "pending P_Idle = 0"
| "pending (P_Push1 x h) = 1"
| "pending (P_Push2 x h nh) = 1"
| "pending (P_Push3 x nh) = 1"
| "pending (P_Batch1 xs h) = length xs"
| "pending (P_Batch2 xs av) = length xs"
| "pending (P_Copy xs h n i) = length xs"
| "pending (P_Drop xs n) = length xs - unat n"

definition spsc_inv :: "ring_buffer_t \<Rightarrow> spsc \<Rightarrow> bool" where
  "spsc_inv r0 s \<longleftrightarrow> rb_wf (ring s) \<and> rb_capacity (ring s) = rb_capacity r0
     \<and> got s @ rb_contents (ring s) = sent s
     \<and> prod_inv (ring s) (prod s) \<and> cons_inv (ring s) (cons s)
     \<and> offered s = length (sent s) + lost s + pending (prod s)
     \<and> rb_dropped (ring s) = rb_dropped r0 + word_of_nat (lost s)"

section \<open>Effects of one side as the other side sees them\<close>

text \<open>The producer only appends; the consumer only removes from the front.\<close>

definition prod_eff :: "ring_buffer_t \<Rightarrow> ring_buffer_t \<Rightarrow> bool" where
  "prod_eff r r' \<longleftrightarrow> rb_wf r' \<and> rb_tail r' = rb_tail r \<and> rb_capacity r' = rb_capacity r
     \<and> rb_mask r' = rb_mask r \<and> (\<exists>ys. rb_contents r' = rb_contents r @ ys)"

definition cons_eff :: "ring_buffer_t \<Rightarrow> ring_buffer_t \<Rightarrow> bool" where
  "cons_eff r r' \<longleftrightarrow> rb_wf r' \<and> rb_head r' = rb_head r \<and> rb_capacity r' = rb_capacity r
     \<and> rb_mask r' = rb_mask r \<and> rb_buffer r' = rb_buffer r \<and> rb_dropped r' = rb_dropped r
     \<and> rb_len r' \<le> rb_len r"

lemma prod_eff_refl: "rb_wf r \<Longrightarrow> prod_eff r r"
  by (simp add: prod_eff_def)

lemma cons_inv_stable:
  assumes eff: "prod_eff r r'" and inv: "cons_inv r c"
  shows "cons_inv r' c"
proof -
  obtain ys where ys: "rb_contents r' = rb_contents r @ ys" using eff by (auto simp: prod_eff_def)
  then have "length (rb_contents r') = length (rb_contents r) + length ys" by simp
  then have len: "rb_len r \<le> rb_len r'" by simp
  have same: "rb_size r' = rb_size r" "rb_tail r' = rb_tail r" "rb_mask r' = rb_mask r"
    using eff by (simp_all add: prod_eff_def rb_size_def)
  have stale: "stale_head r h \<Longrightarrow> stale_head r' h" for h
    using len same by (auto simp: stale_head_def)
  show ?thesis using inv len same ys by (cases c) (auto simp: stale nth_append)
qed

lemma prod_inv_stable:
  assumes wf: "rb_wf r" and eff: "cons_eff r r'" and inv: "prod_inv r p"
  shows "prod_inv r' p"
proof -
  have same: "rb_size r' = rb_size r" "rb_head r' = rb_head r" "rb_mask r' = rb_mask r"
    "rb_buffer r' = rb_buffer r" "rb_room r \<le> rb_room r'"
    using eff by (auto simp: cons_eff_def rb_size_def rb_room_def)
  show ?thesis using inv same by (cases p) auto
qed

section \<open>What each memory access does\<close>

lemma copy_index_eq:
  assumes wf: "rb_wf r" and i: "unat start < rb_size r" "j < unat n" "unat n \<le> rb_size r"
  shows "copy_index r start n j = (unat start + j) mod rb_size r"
proof -
  define f where "f = (if n > rb_capacity r - start then rb_capacity r - start else n)"
  have "unat f = min (unat n) (rb_size r - unat start)" by (rule rb_chunk(1) [OF wf i(1) f_def])
  moreover have "copy_index r start n j = (if j < unat f then unat start + j else j - unat f)"
    by (simp add: copy_index_def f_def Let_def)
  ultimately show ?thesis using i by (auto simp: ring_add_if min_def split: if_splits)
qed

lemma rb_store_free:
  assumes wf: "rb_wf r" and i: "i < rb_room r"
    and r': "r' = r\<lparr>rb_buffer := (rb_buffer r)[(unat (rb_head r) + i) mod rb_size r := x]\<rparr>"
  shows "rb_wf r'" "rb_contents r' = rb_contents r" "rb_len r' = rb_len r"
proof -
  note n = rb_wf_nat [OF wf]
  show "rb_wf r'" using wf by (simp add: r' rb_wf_def)
  show len: "rb_len r' = rb_len r" by (simp add: r' rb_len_def rb_size_def)
  have "(unat (rb_tail r) + rb_len r) mod rb_size r = unat (rb_head r)"
    unfolding rb_len_def using n by (intro ring_head_of_tail)
  then have "(unat (rb_head r) + i) mod rb_size r
      = ((unat (rb_tail r) + rb_len r) mod rb_size r + i) mod rb_size r" by simp
  then have slot: "(unat (rb_head r) + i) mod rb_size r
      = (unat (rb_tail r) + (rb_len r + i)) mod rb_size r"
    by (simp add: mod_add_left_eq add.assoc)
  have lt: "rb_len r + i < rb_size r" using i rb_room_len [OF wf] by linarith
  have "ring_read ((rb_buffer r)[(unat (rb_tail r) + (rb_len r + i)) mod rb_size r := x])
      (unat (rb_tail r)) (rb_len r) = ring_read (rb_buffer r) (unat (rb_tail r)) (rb_len r)"
    using ring_read_update [of "unat (rb_tail r)" "rb_buffer r" "rb_len r" "rb_len r + i" x] n lt
    by simp
  with len slot show "rb_contents r' = rb_contents r" by (simp add: rb_contents_def r')
qed

lemma rb_publish_head:
  assumes wf: "rb_wf r" and m: "length ys \<le> rb_room r"
    and data: "\<And>j. j < length ys \<Longrightarrow> rb_buffer r ! ((unat (rb_head r) + j) mod rb_size r) = ys ! j"
    and h': "unat h' = (unat (rb_head r) + length ys) mod rb_size r"
  shows "rb_wf (r\<lparr>rb_head := h'\<rparr>)" "rb_contents (r\<lparr>rb_head := h'\<rparr>) = rb_contents r @ ys"
proof -
  note n = rb_wf_nat [OF wf]
  have "ring_write (rb_buffer r) (unat (rb_head r)) ys = rb_buffer r"
    using n m data rb_room_len [OF wf] by (intro ring_write_same) auto
  with rb_write_head [OF wf m h' refl]
  show "rb_wf (r\<lparr>rb_head := h'\<rparr>)" "rb_contents (r\<lparr>rb_head := h'\<rparr>) = rb_contents r @ ys"
    by simp_all
qed

lemma rb_read_slot:
  assumes wf: "rb_wf r" and i: "i < rb_len r"
  shows "mem_read (rb_buffer r) ((unat (rb_tail r) + i) mod rb_size r) (Suc 0) = Some [rb_contents r ! i]"
proof -
  note n = rb_wf_nat [OF wf]
  have "(unat (rb_tail r) + i) mod rb_size r < length (rb_buffer r)" using n by simp
  then show ?thesis using i n by (simp add: mem_read_single rb_contents_def nth_ring_read)
qed

section \<open>Every step keeps the invariant\<close>

lemma unat_cnt: "length xs < 2 ^ 32 \<Longrightarrow> unat (cnt xs) = length xs"
  by (simp add: cnt_def unat_of_nat)

lemma unat_word_min: "unat (word_min a b) = min (unat a) (unat b)"
  unfolding word_min_def by (rule unat_min_if)

lemma cnt_sub:
  assumes "length xs < 2 ^ 32" "n < cnt xs"
  shows "(ucast (cnt xs - n) :: u64) = word_of_nat (length xs - unat n)"
proof -
  have "unat (cnt xs - n) = length xs - unat n"
    using assms by (simp add: unat_sub unat_cnt)
  then show ?thesis by (simp add: ucast_unat)
qed

lemma cnt_not_less: "length xs < 2 ^ 32 \<Longrightarrow> \<not> n < cnt xs \<Longrightarrow> length xs - unat n = 0"
  by (simp add: word_less_nat_alt unat_cnt)

lemma prod_eff_dropped: "rb_wf r \<Longrightarrow> prod_eff r (r\<lparr>rb_dropped := d\<rparr>)"
  by (auto simp: prod_eff_def rb_wf_def rb_contents_def rb_len_def rb_size_def)

lemma rb_dropped_frame [simp]:
  "rb_contents (r\<lparr>rb_dropped := d\<rparr>) = rb_contents r" "rb_wf (r\<lparr>rb_dropped := d\<rparr>) = rb_wf r"
  by (simp_all add: rb_contents_def rb_len_def rb_size_def rb_wf_def)

text \<open>What a producer step has to establish; the consumer's part of the invariant follows.\<close>

lemma spsc_inv_prodI:
  assumes inv: "spsc_inv r0 s" and eff: "prod_eff (ring s) (ring s')"
    and "rb_contents (ring s') = rb_contents (ring s) @ ys" "sent s' = sent s @ ys"
    and "got s' = got s" "cons s' = cons s"
    and "prod_inv (ring s') (prod s')"
    and "offered s' = length (sent s') + lost s' + pending (prod s')"
    and "rb_dropped (ring s') = rb_dropped r0 + word_of_nat (lost s')"
  shows "spsc_inv r0 s'"
  using assms cons_inv_stable [OF eff, of "cons s"]
  by (auto simp: spsc_inv_def prod_eff_def)

lemma push_write_inv:
  assumes inv: "spsc_inv r0 s" and p: "prod s = P_Push2 x h nh"
    and w: "mem_write (rb_buffer (ring s)) (unat h) [x] = Some buf"
  shows "spsc_inv r0 (s\<lparr>ring := (ring s)\<lparr>rb_buffer := buf\<rparr>, prod := P_Push3 x nh\<rparr>)"
proof -
  let ?r = "ring s"
  have i: "rb_wf ?r" "h = rb_head ?r" "0 < rb_room ?r" using inv p by (auto simp: spsc_inv_def)
  note n = rb_wf_nat [OF i(1)]
  have buf: "buf = (rb_buffer ?r)[(unat (rb_head ?r) + 0) mod rb_size ?r := x]"
    using w i n by (simp add: mem_write_single)
  note st = rb_store_free [OF i(1,3) refl, of x, folded buf]
  show ?thesis using inv p i n st
    by (intro spsc_inv_prodI [OF inv, where ys = "[]"])
       (auto simp: spsc_inv_def prod_eff_def buf rb_room_def rb_size_def)
qed

lemma push_publish_inv:
  assumes inv: "spsc_inv r0 s" and p: "prod s = P_Push3 x nh"
  shows "spsc_inv r0 (s\<lparr>ring := (ring s)\<lparr>rb_head := nh\<rparr>, prod := P_Idle, sent := sent s @ [x]\<rparr>)"
proof -
  let ?r = "ring s"
  have i: "rb_wf ?r" "nh = (rb_head ?r + 1) AND rb_mask ?r" "0 < rb_room ?r"
    "rb_buffer ?r ! unat (rb_head ?r) = x"
    using inv p by (auto simp: spsc_inv_def)
  have "rb_wf (?r\<lparr>rb_head := nh\<rparr>)" "rb_contents (?r\<lparr>rb_head := nh\<rparr>) = rb_contents ?r @ [x]"
    using rb_publish_head [OF i(1), of "[x]" nh] i rb_wf_nat(3) [OF i(1)] by (simp_all add: unat_index_add)
  then show ?thesis using inv p
    by (intro spsc_inv_prodI [OF inv, where ys = "[x]"]) (auto simp: spsc_inv_def prod_eff_def)
qed

lemma batch_copy_inv:
  assumes inv: "spsc_inv r0 s" and p: "prod s = P_Copy xs h n i" and i: "i < unat n"
    and w: "mem_write (rb_buffer (ring s)) (copy_index (ring s) h n i) [xs ! i] = Some buf"
  shows "spsc_inv r0 (s\<lparr>ring := (ring s)\<lparr>rb_buffer := buf\<rparr>, prod := P_Copy xs h n (Suc i)\<rparr>)"
proof -
  let ?r = "ring s"
  have a: "rb_wf ?r" "h = rb_head ?r" "unat n \<le> rb_room ?r" "unat n \<le> length xs" "length xs < 2 ^ 32"
    "\<And>j. j < i \<Longrightarrow> rb_buffer ?r ! ((unat h + j) mod rb_size ?r) = xs ! j"
    using inv p by (auto simp: spsc_inv_def)
  note n = rb_wf_nat [OF a(1)]
  have room: "i < rb_room ?r" "unat n \<le> rb_size ?r" using i a(3) rb_room_len [OF a(1)] by linarith+
  let ?slot = "(unat (rb_head ?r) + i) mod rb_size ?r"
  have slot: "?slot < length (rb_buffer ?r)" using n by simp
  have buf: "buf = (rb_buffer ?r)[?slot := xs ! i]"
    using w copy_index_eq [OF a(1) _ i] n slot room a(2) by (simp add: mem_write_single)
  have data: "buf ! ((unat (rb_head ?r) + j) mod rb_size ?r) = xs ! j" if "j < Suc i" for j
  proof (cases "j = i")
    case False
    then have "?slot \<noteq> (unat (rb_head ?r) + j) mod rb_size ?r"
      using ring_slot_inj [of "unat (rb_head ?r)" "rb_size ?r" i j] n that room i by auto
    with False that a(2,6) show ?thesis by (simp add: buf)
  qed (use slot in \<open>simp add: buf\<close>)
  note st = rb_store_free [OF a(1) room(1) refl, of "xs ! i", folded buf]
  show ?thesis using inv p a i st data
    by (intro spsc_inv_prodI [OF inv, where ys = "[]"])
       (auto simp: spsc_inv_def prod_eff_def rb_room_def rb_size_def)
qed

lemma batch_publish_inv:
  assumes inv: "spsc_inv r0 s" and p: "prod s = P_Copy xs h n i" and i: "i = unat n"
  shows "spsc_inv r0 (s\<lparr>ring := (ring s)\<lparr>rb_head := (h + n) AND rb_mask (ring s)\<rparr>,
           prod := P_Drop xs n, sent := sent s @ take i xs\<rparr>)"
proof -
  let ?r = "ring s" and ?ys = "take i xs"
  have a: "rb_wf ?r" "h = rb_head ?r" "i \<le> rb_room ?r" "i \<le> length xs"
    "\<And>j. j < i \<Longrightarrow> rb_buffer ?r ! ((unat (rb_head ?r) + j) mod rb_size ?r) = xs ! j"
    using inv p i by (auto simp: spsc_inv_def)
  let ?h = "(h + n) AND rb_mask ?r"
  have len: "length ?ys = i" using a(4) by simp
  have "rb_wf (?r\<lparr>rb_head := ?h\<rparr>)" "rb_contents (?r\<lparr>rb_head := ?h\<rparr>) = rb_contents ?r @ ?ys"
    using rb_publish_head [OF a(1), of ?ys ?h] a i len by (simp_all add: unat_index_add)
  then show ?thesis using inv p i a len
    by (intro spsc_inv_prodI [OF inv, where ys = ?ys]) (auto simp: spsc_inv_def prod_eff_def)
qed

lemma batch_count_inv:
  assumes inv: "spsc_inv r0 s" and p: "prod s = P_Drop xs n"
  shows "spsc_inv r0 (s\<lparr>ring := (if n < cnt xs
             then (ring s)\<lparr>rb_dropped := rb_dropped (ring s) + ucast (cnt xs - n)\<rparr> else ring s),
           prod := P_Idle, lost := lost s + (length xs - unat n)\<rparr>)"
proof -
  define k where "k = length xs - unat n"
  have a: "length xs < 2 ^ 32" "rb_wf (ring s)" "offered s = length (sent s) + lost s + k"
    using inv p by (auto simp: spsc_inv_def k_def)
  show ?thesis
    unfolding k_def [symmetric]
  proof (cases "n < cnt xs")
    case True
    then have c: "ucast (cnt xs - n) = (word_of_nat k :: u64)" using a(1) by (simp add: cnt_sub k_def)
    show "spsc_inv r0 (s\<lparr>ring := (if n < cnt xs
             then (ring s)\<lparr>rb_dropped := rb_dropped (ring s) + ucast (cnt xs - n)\<rparr> else ring s),
           prod := P_Idle, lost := lost s + k\<rparr>)"
      using inv p a True
      by (intro spsc_inv_prodI [OF inv, where ys = "[]"])
         (simp_all add: c prod_eff_dropped spsc_inv_def)
  next
    case False
    then have "k = 0" using a(1) by (simp add: cnt_not_less k_def)
    with False inv p a show "spsc_inv r0 (s\<lparr>ring := (if n < cnt xs
             then (ring s)\<lparr>rb_dropped := rb_dropped (ring s) + ucast (cnt xs - n)\<rparr> else ring s),
           prod := P_Idle, lost := lost s + k\<rparr>)"
      by (intro spsc_inv_prodI [OF inv, where ys = "[]"]) (simp_all add: prod_eff_refl spsc_inv_def)
  qed
qed

lemma batch_load_tail_inv:
  assumes inv: "spsc_inv r0 s" and p: "prod s = P_Batch1 xs h"
  shows "spsc_inv r0 (s\<lparr>prod := P_Batch2 xs
           (rb_capacity (ring s) - ((h - rb_tail (ring s)) AND rb_mask (ring s)) - 1)\<rparr>)"
proof -
  have wf: "rb_wf (ring s)" "h = rb_head (ring s)" using inv p by (auto simp: spsc_inv_def)
  have "unat (rb_capacity (ring s) - ((h - rb_tail (ring s)) AND rb_mask (ring s)) - 1) = rb_room (ring s)"
    using unat_available [OF wf(1)] wf(2) by (simp add: ring_buffer_available_def ring_buffer_count_def)
  with inv p show ?thesis
    by (intro spsc_inv_prodI [OF inv, where ys = "[]"]) (auto simp: spsc_inv_def prod_eff_refl)
qed

lemma pstep_inv:
  assumes "pstep s s'" and inv: "spsc_inv r0 s"
  shows "spsc_inv r0 s'"
  using assms(1)
proof cases
  case (push_room x h)
  with inv show ?thesis
    by (intro spsc_inv_prodI [OF inv, where ys = "[]"])
       (auto simp: spsc_inv_def prod_eff_refl rb_full_iff)
next
  case (batch_none xs av)
  with inv show ?thesis
    by (intro spsc_inv_prodI [OF inv, where ys = "[]"])
       (auto simp: spsc_inv_def prod_eff_dropped ucast_unat unat_cnt)
next
  case (batch_some xs av n)
  then have "unat n = min (length xs) (unat av)"
    using inv by (auto simp: spsc_inv_def unat_word_min unat_cnt)
  with inv batch_some show ?thesis
    by (intro spsc_inv_prodI [OF inv, where ys = "[]"]) (auto simp: spsc_inv_def prod_eff_refl)
next
  case (push_full x h)
  with inv show ?thesis
    by (intro spsc_inv_prodI [OF inv, where ys = "[]"]) (auto simp: spsc_inv_def prod_eff_dropped)
next
  case (push_load x)
  with inv show ?thesis
    by (intro spsc_inv_prodI [OF inv, where ys = "[]"]) (auto simp: spsc_inv_def prod_eff_refl)
next
  case (batch_load_head xs)
  with inv show ?thesis
    by (intro spsc_inv_prodI [OF inv, where ys = "[]"]) (auto simp: spsc_inv_def prod_eff_refl)
qed (use inv in \<open>simp_all add: push_write_inv push_publish_inv batch_load_tail_inv batch_copy_inv
        batch_publish_inv batch_count_inv\<close>)

lemma stale_head_now: "rb_wf r \<Longrightarrow> stale_head r (rb_head r)"
  using rb_wf_nat(3) [of r] by (simp add: stale_head_def rb_len_def)

lemma stale_head_count:
  assumes wf: "rb_wf r" and st: "stale_head r h"
  shows "unat ((h - rb_tail r) AND rb_mask r) \<le> rb_len r"
proof -
  obtain k where k: "k \<le> 31" "rb_mask r = 2 ^ k - 1" "rb_size r = 2 ^ k" using wf by (rule rb_wfE)
  with rb_wf_nat(4) [OF wf] st show ?thesis by (simp add: stale_head_def unat_sub_mask)
qed

lemma stale_head_nonempty:
  assumes wf: "rb_wf r" and st: "stale_head r h" and ne: "h \<noteq> rb_tail r"
  shows "0 < rb_len r"
proof -
  have "unat h \<noteq> unat (rb_tail r)" using ne by (simp add: word_unat_eq_iff)
  then have "0 < (unat h + rb_size r - unat (rb_tail r)) mod rb_size r"
    using st rb_wf_nat(4) [OF wf] by (auto simp: stale_head_def ring_dist_if)
  with st show ?thesis by (auto simp: stale_head_def)
qed

lemma spsc_inv_consI:
  assumes inv: "spsc_inv r0 s" and eff: "cons_eff (ring s) (ring s')"
    and "got s' @ rb_contents (ring s') = sent s" "cons_inv (ring s') (cons s')"
    and "sent s' = sent s" "prod s' = prod s" "offered s' = offered s" "lost s' = lost s"
  shows "spsc_inv r0 s'"
  using assms prod_inv_stable [OF _ eff, of "prod s"]
  by (auto simp: spsc_inv_def cons_eff_def)

lemma cons_eff_refl: "rb_wf r \<Longrightarrow> cons_eff r r"
  by (simp add: cons_eff_def)

lemma cons_eff_tail:
  assumes wf: "rb_wf r" and m: "unat m \<le> rb_len r"
  shows "cons_eff r (r\<lparr>rb_tail := (rb_tail r + m) AND rb_mask r\<rparr>)"
    and "rb_contents (r\<lparr>rb_tail := (rb_tail r + m) AND rb_mask r\<rparr>) = drop (unat m) (rb_contents r)"
proof -
  let ?r = "r\<lparr>rb_tail := (rb_tail r + m) AND rb_mask r\<rparr>"
  have adv: "rb_wf ?r" "rb_contents ?r = drop (unat m) (rb_contents r)"
    using rb_advance_tail [OF wf m] by (simp_all add: unat_index_add [OF wf])
  then show "rb_contents ?r = drop (unat m) (rb_contents r)" by simp
  have "length (rb_contents ?r) = length (rb_contents r) - unat m" using adv(2) by simp
  then show "cons_eff r ?r" using adv(1) by (simp add: cons_eff_def)
qed

lemma cbatch_copy_inv:
  assumes inv: "spsc_inv r0 s" and c: "cons s = C_Copy t m acc" and l: "length acc < unat m"
    and rd: "mem_read (rb_buffer (ring s)) (copy_index (ring s) t m (length acc)) 1 = Some [x]"
  shows "spsc_inv r0 (s\<lparr>cons := C_Copy t m (acc @ [x])\<rparr>)"
proof -
  let ?r = "ring s"
  have a: "rb_wf ?r" "t = rb_tail ?r" "unat m \<le> rb_len ?r" "acc = take (length acc) (rb_contents ?r)"
    using inv c by (auto simp: spsc_inv_def)
  note n = rb_wf_nat [OF a(1)]
  have lt: "length acc < rb_len ?r" "unat m \<le> rb_size ?r" using l a(3) rb_len_less [OF a(1)] by linarith+
  have "x = rb_contents ?r ! length acc"
    using rd rb_read_slot [OF a(1) lt(1)] copy_index_eq [OF a(1) _ l lt(2), of t] n a(2) by simp
  then have "acc @ [x] = take (Suc (length acc)) (rb_contents ?r)"
    using a(4) lt(1) by (simp add: take_Suc_conv_app_nth)
  with inv c a l show ?thesis
    by (intro spsc_inv_consI [OF inv]) (auto simp: spsc_inv_def cons_eff_refl)
qed

lemma cstep_inv:
  assumes "cstep s s'" and inv: "spsc_inv r0 s"
  shows "spsc_inv r0 s'"
proof -
  have wf: "rb_wf (ring s)" and fifo: "got s @ rb_contents (ring s) = sent s"
    and ci: "cons_inv (ring s) (cons s)"
    using inv by (auto simp: spsc_inv_def)
  note quiet = spsc_inv_consI [OF inv]
  show ?thesis using assms(1)
  proof cases
    case (pop_read t x)
    with ci rb_read_slot [OF wf, of 0] rb_wf_nat(4) [OF wf] show ?thesis
      by (intro quiet) (auto simp: cons_eff_refl wf fifo)
  next
    case (pop_publish t x)
    then have "t = rb_tail (ring s)" "0 < rb_len (ring s)" "rb_contents (ring s) ! 0 = x" using ci by auto
    moreover from this have "rb_contents (ring s) = x # drop 1 (rb_contents (ring s))"
      by (cases "rb_contents (ring s)") (auto simp flip: length_rb_contents)
    ultimately show ?thesis using pop_publish cons_eff_tail [OF wf, of 1] fifo
      by (intro quiet) auto
  next
    case (cbatch_copy t m acc x)
    with inv show ?thesis by (simp add: cbatch_copy_inv)
  next
    case (cbatch_publish t m acc)
    then have "t = rb_tail (ring s)" "unat m \<le> rb_len (ring s)" "acc = take (unat m) (rb_contents (ring s))"
      using ci by auto
    with cbatch_publish cons_eff_tail [OF wf, of m] fifo show ?thesis by (intro quiet) auto
  qed (use wf fifo ci in \<open>auto intro!: quiet stale_head_now
        simp: cons_eff_refl stale_head_nonempty stale_head_count unat_word_min\<close>)
qed

lemma spsc_inv_init: "rb_wf r \<Longrightarrow> rb_contents r = [] \<Longrightarrow> spsc_inv r (spsc_init r)"
  by (simp add: spsc_inv_def spsc_init_def)

lemma reach_inv:
  assumes "reach r s" "rb_wf r" "rb_contents r = []"
  shows "spsc_inv r s"
  using assms(1)
proof (induction rule: reach.induct)
  case start
  show ?case using assms(2,3) by (rule spsc_inv_init)
next
  case (prod_step s s')
  then show ?case by (blast intro: pstep_inv)
next
  case (cons_step s s')
  then show ?case by (blast intro: cstep_inv)
qed

section \<open>Memory accesses and progress\<close>

text \<open>The data slot the next step of a thread accesses, if any.\<close>

fun prod_slot :: "ring_buffer_t \<Rightarrow> prod_pc \<Rightarrow> nat option" where
  "prod_slot r (P_Push2 x h nh) = Some (unat h)"
| "prod_slot r (P_Copy xs h n i) = (if i < unat n then Some (copy_index r h n i) else None)"
| "prod_slot r _ = None"

fun cons_slot :: "ring_buffer_t \<Rightarrow> cons_pc \<Rightarrow> nat option" where
  "cons_slot r (C_Pop2 t) = Some (unat t)"
| "cons_slot r (C_Copy t m acc) =
     (if length acc < unat m then Some (copy_index r t m (length acc)) else None)"
| "cons_slot r _ = None"

text \<open>An upper bound of the steps a call still has to take.\<close>

fun prod_work :: "prod_pc \<Rightarrow> nat" where
  "prod_work P_Idle = 0"
| "prod_work (P_Push1 x h) = 3"
| "prod_work (P_Push2 x h nh) = 2"
| "prod_work (P_Push3 x nh) = 1"
| "prod_work (P_Batch1 xs h) = length xs + 4"
| "prod_work (P_Batch2 xs av) = length xs + 3"
| "prod_work (P_Copy xs h n i) = unat n - i + 2"
| "prod_work (P_Drop xs n) = 1"

fun cons_work :: "cons_pc \<Rightarrow> nat" where
  "cons_work C_Idle = 0"
| "cons_work (C_Pop1 h) = 3"
| "cons_work (C_Pop2 t) = 2"
| "cons_work (C_Pop3 t x) = 1"
| "cons_work (C_Batch1 n h) = unat n + 3"
| "cons_work (C_Batch2 n c) = unat n + 2"
| "cons_work (C_Copy t m acc) = unat m - length acc + 1"

lemma prod_slot_free:
  assumes inv: "spsc_inv r0 s" and p: "prod_slot (ring s) (prod s) = Some i"
  obtains j where "j < rb_room (ring s)" "i = (unat (rb_head (ring s)) + j) mod rb_size (ring s)"
proof -
  have wf: "rb_wf (ring s)" using inv by (simp add: spsc_inv_def)
  note n = rb_wf_nat [OF wf] and rl = rb_room_len [OF wf]
  show ?thesis
  proof (cases "prod s")
    case (P_Push2 x h nh)
    then show ?thesis using inv p n by (intro that [of 0]) (auto simp: spsc_inv_def)
  next
    case (P_Copy xs h m k)
    then have "k < unat m" "unat m \<le> rb_room (ring s)" "h = rb_head (ring s)"
      "i = copy_index (ring s) h m k"
      using inv p by (auto simp: spsc_inv_def split: if_splits)
    with copy_index_eq [OF wf, of h k m] n rl show ?thesis by (intro that [of k]) simp_all
  qed (use p in auto)
qed

lemma cons_slot_used:
  assumes inv: "spsc_inv r0 s" and c: "cons_slot (ring s) (cons s) = Some i"
  obtains j where "j < rb_len (ring s)" "i = (unat (rb_tail (ring s)) + j) mod rb_size (ring s)"
proof -
  have wf: "rb_wf (ring s)" using inv by (simp add: spsc_inv_def)
  note n = rb_wf_nat [OF wf] and ll = rb_len_less [OF wf]
  show ?thesis
  proof (cases "cons s")
    case (C_Pop2 t)
    then show ?thesis using inv c n by (intro that [of 0]) (auto simp: spsc_inv_def)
  next
    case (C_Copy t m acc)
    then have "length acc < unat m" "unat m \<le> rb_len (ring s)" "t = rb_tail (ring s)"
      "i = copy_index (ring s) t m (length acc)"
      using inv c by (auto simp: spsc_inv_def split: if_splits)
    with copy_index_eq [OF wf, of t "length acc" m] n ll show ?thesis
      by (intro that [of "length acc"]) simp_all
  qed (use c in auto)
qed

lemma slots_disjoint:
  assumes inv: "spsc_inv r0 s" and p: "prod_slot (ring s) (prod s) = Some i"
    and c: "cons_slot (ring s) (cons s) = Some j"
  shows "i \<noteq> j"
proof -
  let ?r = "ring s"
  have wf: "rb_wf ?r" using inv by (simp add: spsc_inv_def)
  note n = rb_wf_nat [OF wf]
  obtain a where a: "a < rb_room ?r" "i = (unat (rb_head ?r) + a) mod rb_size ?r"
    using prod_slot_free [OF inv p] .
  obtain b where b: "b < rb_len ?r" "j = (unat (rb_tail ?r) + b) mod rb_size ?r"
    using cons_slot_used [OF inv c] .
  have "unat (rb_head ?r) = (unat (rb_tail ?r) + rb_len ?r) mod rb_size ?r"
    unfolding rb_len_def using n by (simp add: ring_head_of_tail)
  then have "i = (unat (rb_tail ?r) + (rb_len ?r + a)) mod rb_size ?r"
    using a by (simp add: mod_add_left_eq add.assoc)
  then show ?thesis
    using ring_slot_inj [of "unat (rb_tail ?r)" "rb_size ?r" "rb_len ?r + a" b] n a b rb_room_len [OF wf]
    by auto
qed

lemma slots_in_bounds:
  assumes inv: "spsc_inv r0 s"
  shows "prod_slot (ring s) (prod s) = Some i \<Longrightarrow> i < length (rb_buffer (ring s))"
    and "cons_slot (ring s) (cons s) = Some i \<Longrightarrow> i < length (rb_buffer (ring s))"
proof -
  have wf: "rb_wf (ring s)" using inv by (simp add: spsc_inv_def)
  note n = rb_wf_nat [OF wf]
  show "prod_slot (ring s) (prod s) = Some i \<Longrightarrow> i < length (rb_buffer (ring s))"
    using prod_slot_free [OF inv] n by (metis less_le_trans mod_less_divisor zero_less_numeral)
  show "cons_slot (ring s) (cons s) = Some i \<Longrightarrow> i < length (rb_buffer (ring s))"
    using cons_slot_used [OF inv] n by (metis less_le_trans mod_less_divisor zero_less_numeral)
qed

lemma pstep_progress:
  assumes inv: "spsc_inv r0 s" and p: "prod s \<noteq> P_Idle"
  shows "\<exists>s'. pstep s s'"
proof -
  note b = slots_in_bounds(1) [OF inv]
  show ?thesis
  proof (cases "prod s")
    case (P_Push2 x h nh)
    then have "mem_write (rb_buffer (ring s)) (unat h) [x] = Some ((rb_buffer (ring s))[unat h := x])"
      using b [of "unat h"] by (simp add: mem_write_single)
    with P_Push2 show ?thesis by (blast intro: pstep.push_write)
  next
    case (P_Copy xs h n i)
    show ?thesis
    proof (cases "i < unat n")
      case True
      then have "mem_write (rb_buffer (ring s)) (copy_index (ring s) h n i) [xs ! i]
          = Some ((rb_buffer (ring s))[copy_index (ring s) h n i := xs ! i])"
        using b [of "copy_index (ring s) h n i"] P_Copy by (simp add: mem_write_single)
      with True P_Copy show ?thesis by (blast intro: pstep.batch_copy)
    next
      case False
      then have "i = unat n" using inv P_Copy by (simp add: spsc_inv_def)
      with P_Copy show ?thesis by (blast intro: pstep.batch_publish)
    qed
  qed (use p in \<open>blast intro: pstep.intros\<close>)+
qed

lemma cstep_progress:
  assumes inv: "spsc_inv r0 s" and c: "cons s \<noteq> C_Idle"
  shows "\<exists>s'. cstep s s'"
proof -
  note b = slots_in_bounds(2) [OF inv]
  show ?thesis
  proof (cases "cons s")
    case (C_Pop2 t)
    then have "mem_read (rb_buffer (ring s)) (unat t) 1 = Some [rb_buffer (ring s) ! unat t]"
      using b [of "unat t"] by (simp add: mem_read_single)
    with C_Pop2 show ?thesis by (blast intro: cstep.pop_read)
  next
    case (C_Copy t m acc)
    show ?thesis
    proof (cases "length acc < unat m")
      case True
      let ?i = "copy_index (ring s) t m (length acc)"
      have "mem_read (rb_buffer (ring s)) ?i 1 = Some [rb_buffer (ring s) ! ?i]"
        using b [of ?i] True C_Copy by (simp add: mem_read_single)
      with True C_Copy show ?thesis by (blast intro: cstep.cbatch_copy)
    next
      case False
      then have "length acc = unat m" using inv C_Copy by (simp add: spsc_inv_def)
      with C_Copy show ?thesis by (blast intro: cstep.cbatch_publish)
    qed
  qed (use c in \<open>blast intro: cstep.intros\<close>)+
qed

lemma unat_cnt_le: "unat (cnt xs) \<le> length xs"
  by (simp add: cnt_def unat_of_nat)

lemma pstep_work: "pstep s s' \<Longrightarrow> prod s \<noteq> P_Idle \<Longrightarrow> prod_work (prod s') < prod_work (prod s)"
  by (erule pstep.cases) (auto simp: unat_word_min less_Suc_eq_le intro: le_trans [OF _ unat_cnt_le])

lemma cstep_work: "cstep s s' \<Longrightarrow> cons s \<noteq> C_Idle \<Longrightarrow> cons_work (cons s') < cons_work (cons s)"
  by (erule cstep.cases) (auto simp: unat_word_min)

lemma pstep_cons: "pstep s s' \<Longrightarrow> cons s' = cons s"
  by (erule pstep.cases) auto

lemma cstep_prod: "cstep s s' \<Longrightarrow> prod s' = prod s"
  by (erule cstep.cases) auto

end
