(* ===== verification/Spsc_Refine.thy ===== *)
theory Spsc_Refine
  imports Spsc
begin

text \<open>
  The atomic steps of theory \<open>Spsc\<close> and the sequential operations of theory
  \<open>Ring_Buffer\<close> describe the same code: a call that runs without interference takes its
  steps from idle to idle and ends in exactly the state the sequential operation computes. The
  theory closes with the properties of the concurrent ring.
\<close>

section \<open>Runs of one thread\<close>

text \<open>The steps a whole call takes, one lemma per operation and outcome.\<close>

lemma solo_push:
  assumes wf: "rb_wf (ring s)" and p: "prod s = P_Idle"
    and op: "ring_buffer_push (Some (ring s)) (Some x) = Some (ok, Some r')"
  shows "pstep\<^sup>*\<^sup>* s (s\<lparr>ring := r', offered := offered s + 1,
           sent := sent s @ (if ok then [x] else []), lost := lost s + (if ok then 0 else 1)\<rparr>)"
proof -
  let ?h = "rb_head (ring s)"
  let ?nh = "(?h + 1) AND rb_mask (ring s)"
  let ?s1 = "s\<lparr>prod := P_Push1 x ?h, offered := offered s + 1\<rparr>"
  have s1: "pstep s ?s1" using p by (rule pstep.push_load)
  show ?thesis
  proof (cases "?nh = rb_tail (ring s)")
    case True
    then have r': "r' = (ring s)\<lparr>rb_dropped := rb_dropped (ring s) + 1\<rparr>" "\<not> ok"
      using op by (auto simp: ring_buffer_push_def Let_def)
    have "pstep ?s1 (?s1\<lparr>ring := (ring ?s1)\<lparr>rb_dropped := rb_dropped (ring ?s1) + 1\<rparr>,
        prod := P_Idle, lost := lost ?s1 + 1\<rparr>)"
      by (rule pstep.push_full) (use True in simp_all)
    with s1 have "pstep\<^sup>*\<^sup>* s (?s1\<lparr>ring := (ring ?s1)\<lparr>rb_dropped := rb_dropped (ring ?s1) + 1\<rparr>,
        prod := P_Idle, lost := lost ?s1 + 1\<rparr>)" by (rule rtranclp.rtrancl_into_rtrancl [OF r_into_rtranclp])
    with r' p show ?thesis by (cases s rule: spsc.cases) simp
  next
    case False
    let ?b = "(rb_buffer (ring s))[unat ?h := x]"
    let ?s2 = "?s1\<lparr>prod := P_Push2 x ?h ?nh\<rparr>"
    let ?s3 = "?s2\<lparr>ring := (ring s)\<lparr>rb_buffer := ?b\<rparr>, prod := P_Push3 x ?nh\<rparr>"
    have w: "mem_write (rb_buffer (ring s)) (unat ?h) [x] = Some ?b"
      using rb_wf_nat [OF wf] by (simp add: mem_write_single)
    have r': "r' = (ring s)\<lparr>rb_buffer := ?b, rb_head := ?nh\<rparr>" ok
      using op False w by (auto simp: ring_buffer_push_def Let_def)
    have s2: "pstep ?s1 (?s1\<lparr>prod := P_Push2 x ?h ((?h + 1) AND rb_mask (ring ?s1))\<rparr>)"
      by (rule pstep.push_room) (use False in simp_all)
    have s3: "pstep ?s2 (?s2\<lparr>ring := (ring ?s2)\<lparr>rb_buffer := ?b\<rparr>, prod := P_Push3 x ?nh\<rparr>)"
      by (rule pstep.push_write) (use w in simp_all)
    have s4: "pstep ?s3 (?s3\<lparr>ring := (ring ?s3)\<lparr>rb_head := ?nh\<rparr>, prod := P_Idle, sent := sent ?s3 @ [x]\<rparr>)"
      by (rule pstep.push_publish) simp
    have "pstep\<^sup>*\<^sup>* s (?s3\<lparr>ring := (ring ?s3)\<lparr>rb_head := ?nh\<rparr>, prod := P_Idle, sent := sent ?s3 @ [x]\<rparr>)"
      using s1 s2 s3 s4 by simp
    with r' p show ?thesis by (cases s rule: spsc.cases) simp
  qed
qed


text \<open>The copy loop of a batch push fills the free slots from the head on.\<close>

lemma solo_copy_in:
  assumes wf: "rb_wf r" and h: "h = rb_head r" and n: "unat n < rb_size r" "unat n \<le> length xs"
    and i: "i \<le> unat n" and s: "prod s = P_Copy xs h n i"
      "ring s = r\<lparr>rb_buffer := ring_write (rb_buffer r) (unat h) (take i xs)\<rparr>"
  shows "pstep\<^sup>*\<^sup>* s (s\<lparr>prod := P_Copy xs h n (unat n),
           ring := r\<lparr>rb_buffer := ring_write (rb_buffer r) (unat h) (take (unat n) xs)\<rparr>\<rparr>)"
  using i s
proof (induction "unat n - i" arbitrary: i s)
  case 0
  then have "i = unat n" by simp
  with 0 show ?case by (cases s rule: spsc.cases) simp
next
  case (Suc d)
  note w = rb_wf_nat [OF wf]
  have lt: "i < unat n" using Suc by simp
  let ?b = "ring_write (rb_buffer r) (unat h) (take i xs)"
  have wf': "rb_wf (ring s)" using wf Suc.prems(3) by (simp add: rb_wf_def)
  have "copy_index (ring s) h n i = (unat h + i) mod rb_size r"
    using copy_index_eq [OF wf' _ lt] Suc.prems(3) w h n by (simp add: rb_size_def)
  moreover have "ring_write (rb_buffer r) (unat h) (take (Suc i) xs) = ?b[(unat h + i) mod rb_size r := xs ! i]"
    using lt n w h by (simp add: take_Suc_conv_app_nth ring_write_snoc)
  ultimately have m: "mem_write (rb_buffer (ring s)) (copy_index (ring s) h n i) [xs ! i]
      = Some (ring_write (rb_buffer r) (unat h) (take (Suc i) xs))"
    using Suc.prems(3) w by (simp add: mem_write_single)
  have "pstep s (s\<lparr>ring := (ring s)\<lparr>rb_buffer := ring_write (rb_buffer r) (unat h) (take (Suc i) xs)\<rparr>,
      prod := P_Copy xs h n (Suc i)\<rparr>)" (is "pstep s ?t")
    using Suc.prems(2) lt m by (rule pstep.batch_copy)
  moreover have "pstep\<^sup>*\<^sup>* ?t (?t\<lparr>prod := P_Copy xs h n (unat n),
      ring := r\<lparr>rb_buffer := ring_write (rb_buffer r) (unat h) (take (unat n) xs)\<rparr>\<rparr>)"
    using Suc lt by (intro Suc.hyps(1)) simp_all
  ultimately show ?case by (cases s rule: spsc.cases) (simp add: converse_rtranclp_into_rtranclp)
qed

lemma solo_batch_available:
  assumes p: "prod s = P_Idle" and xs: "xs \<noteq> []" "length xs < 2 ^ 32"
  shows "pstep\<^sup>*\<^sup>* s (s\<lparr>offered := offered s + length xs,
           prod := P_Batch2 xs (ring_buffer_available (Some (ring s)))\<rparr>)"
proof -
  let ?h = "rb_head (ring s)"
  have "pstep s (s\<lparr>prod := P_Batch1 xs ?h, offered := offered s + length xs\<rparr>)" (is "pstep s ?s1")
    using p xs by (rule pstep.batch_load_head)
  moreover have "pstep ?s1 (?s1\<lparr>prod := P_Batch2 xs
      (rb_capacity (ring ?s1) - ((?h - rb_tail (ring ?s1)) AND rb_mask (ring ?s1)) - 1)\<rparr>)"
    by (rule pstep.batch_load_tail) simp
  ultimately show ?thesis
    by (cases s rule: spsc.cases) (simp add: ring_buffer_available_def ring_buffer_count_def)
qed

lemma solo_batch_store:
  assumes wf: "rb_wf r" and k: "k = min (length xs) (rb_room r)" "k \<noteq> 0" "length xs < 2 ^ 32"
    and s: "prod s = P_Batch2 xs (ring_buffer_available (Some r))" "ring s = r"
    and op: "ring_buffer_push_batch (Some r) (Some xs) (cnt xs) q = Some (ok, Some r', q')"
  shows "pstep\<^sup>*\<^sup>* s (s\<lparr>ring := r', prod := P_Idle, sent := sent s @ take k xs,
           lost := lost s + (length xs - k)\<rparr>)"
proof -
  let ?n = "word_of_nat k :: u32" and ?h = "rb_head r"
  have u: "unat (word_min (cnt xs) (ring_buffer_available (Some r))) = k"
    using k by (simp add: unat_word_min unat_cnt unat_available [OF wf])
  then have n: "word_min (cnt xs) (ring_buffer_available (Some r)) = ?n" by auto
  then have un: "unat ?n = k" "?n \<noteq> 0" using u k(2) by auto
  let ?b = "ring_write (rb_buffer r) (unat ?h) (take k xs)"
  let ?r5 = "r\<lparr>rb_buffer := ?b, rb_head := (?h + ?n) AND rb_mask r\<rparr>"
  let ?s3 = "s\<lparr>prod := P_Copy xs ?h ?n 0\<rparr>"
  let ?s4 = "?s3\<lparr>prod := P_Copy xs ?h ?n k, ring := r\<lparr>rb_buffer := ?b\<rparr>\<rparr>"
  let ?s5 = "?s4\<lparr>ring := ?r5, prod := P_Drop xs ?n, sent := sent s @ take k xs\<rparr>"
  have r': "r' = (if ?n < cnt xs then ?r5\<lparr>rb_dropped := rb_dropped r + ucast (cnt xs - ?n)\<rparr> else ?r5)"
    using rb_push_batch_copy [OF wf _ _ _ refl, of k "cnt xs" xs q] op k by (simp add: unat_cnt)
  have s3: "pstep s ?s3" using pstep.batch_some [OF s(1) n un(2)] s(2) by simp
  have "unat ?n < rb_size r" using un(1) k(1) rb_room_len [OF wf] by linarith
  then have s4: "pstep\<^sup>*\<^sup>* ?s3 ?s4"
    using solo_copy_in [OF wf refl, of ?n xs 0 ?s3] un(1) k(1) s(2) by simp
  have s5: "pstep ?s4 ?s5"
    using pstep.batch_publish [of ?s4 xs ?h ?n k] un(1) by simp
  have s6: "pstep ?s5 (?s5\<lparr>ring := r', prod := P_Idle, lost := lost s + (length xs - k)\<rparr>)" (is "pstep _ ?s6")
    using pstep.batch_count [of ?s5 xs ?n] un(1) r' by (simp cong: if_cong)
  have "pstep\<^sup>*\<^sup>* s ?s6"
    using converse_rtranclp_into_rtranclp [of pstep, OF s3] s4 s5 s6
    by (blast intro: rtranclp.rtrancl_into_rtrancl)
  then show ?thesis by (cases s rule: spsc.cases) simp
qed

lemma solo_push_batch:
  assumes wf: "rb_wf (ring s)" and p: "prod s = P_Idle" and xs: "xs \<noteq> []" "length xs < 2 ^ 32"
    and op: "ring_buffer_push_batch (Some (ring s)) (Some xs) (cnt xs) q = Some (ok, Some r', q')"
    and k: "k = min (length xs) (rb_room (ring s))"
  shows "pstep\<^sup>*\<^sup>* s (s\<lparr>ring := r', offered := offered s + length xs,
           sent := sent s @ take k xs, lost := lost s + (length xs - k)\<rparr>)"
proof -
  let ?r = "ring s" and ?av = "ring_buffer_available (Some (ring s))"
  let ?s2 = "s\<lparr>offered := offered s + length xs, prod := P_Batch2 xs ?av\<rparr>"
  have s2: "pstep\<^sup>*\<^sup>* s ?s2" using p xs by (rule solo_batch_available)
  have "pstep\<^sup>*\<^sup>* ?s2 (?s2\<lparr>ring := r', prod := P_Idle, sent := sent s @ take k xs,
      lost := lost s + (length xs - k)\<rparr>)"
  proof (cases "k = 0")
    case True
    then have z: "word_min (cnt xs) ?av = 0"
      using xs k by (simp add: unat_word_min unat_cnt unat_available [OF wf] flip: unat_eq_zero)
    have "pstep ?s2 (?s2\<lparr>ring := (ring ?s2)\<lparr>rb_dropped := rb_dropped (ring ?s2) + ucast (cnt xs)\<rparr>,
        prod := P_Idle, lost := lost ?s2 + length xs\<rparr>)"
      using z by (intro pstep.batch_none) simp_all
    moreover have "cnt xs \<noteq> 0" using xs unat_cnt [of xs] by auto
    then have "r' = ?r\<lparr>rb_dropped := rb_dropped ?r + ucast (cnt xs)\<rparr>"
      using op z by (auto simp: ring_buffer_push_batch_def word_min_def Let_def)
    ultimately show ?thesis using True by (intro r_into_rtranclp) (cases s rule: spsc.cases, simp)
  next
    case False
    with solo_batch_store [OF wf k, of ?s2 q ok r' q'] xs op show ?thesis by simp
  qed
  with s2 have "pstep\<^sup>*\<^sup>* s (?s2\<lparr>ring := r', prod := P_Idle, sent := sent s @ take k xs,
      lost := lost s + (length xs - k)\<rparr>)" by (rule rtranclp_trans)
  with p show ?thesis by (cases s rule: spsc.cases) simp
qed

lemma solo_pop:
  assumes wf: "rb_wf (ring s)" and c: "cons s = C_Idle"
    and op: "ring_buffer_pop (Some (ring s)) (Some y) = Some (ok, Some r', Some x)"
  shows "cstep\<^sup>*\<^sup>* s (s\<lparr>ring := r', got := got s @ (if ok then [x] else [])\<rparr>)"
proof -
  let ?t = "rb_tail (ring s)"
  let ?s1 = "s\<lparr>cons := C_Pop1 (rb_head (ring s))\<rparr>"
  have s1: "cstep s ?s1" using c by (rule cstep.pop_load)
  show ?thesis
  proof (cases "rb_head (ring s) = ?t")
    case True
    then have "r' = ring s" "\<not> ok" using op by (auto simp: ring_buffer_pop_def)
    moreover have "cstep ?s1 (?s1\<lparr>cons := C_Idle\<rparr>)"
      by (rule cstep.pop_empty) (use True in simp_all)
    ultimately show ?thesis
      using s1 c by (cases s rule: spsc.cases) (simp add: rtranclp.rtrancl_into_rtrancl r_into_rtranclp)
  next
    case False
    let ?s2 = "?s1\<lparr>cons := C_Pop2 ?t\<rparr>"
    let ?s3 = "?s2\<lparr>cons := C_Pop3 ?t x\<rparr>"
    let ?s4 = "?s3\<lparr>ring := r', cons := C_Idle, got := got s @ [x]\<rparr>"
    have rd: "mem_read (rb_buffer (ring s)) (unat ?t) 1 = Some [rb_buffer (ring s) ! unat ?t]"
      using rb_wf_nat [OF wf] by (simp add: mem_read_single)
    have r': "r' = (ring s)\<lparr>rb_tail := (?t + 1) AND rb_mask (ring s)\<rparr>" "x = rb_buffer (ring s) ! unat ?t" ok
      using op False rd by (auto simp: ring_buffer_pop_def Let_def)
    have s2: "cstep ?s1 ?s2" using cstep.pop_some [of ?s1] False by simp
    have s3: "cstep ?s2 ?s3" using cstep.pop_read [of ?s2 ?t x] rd r' by simp
    have s4: "cstep ?s3 ?s4" using cstep.pop_publish [of ?s3 ?t x] r' by simp
    have "cstep\<^sup>*\<^sup>* s ?s4"
      using r_into_rtranclp [of cstep, OF s1] s2 s3 s4 by (blast intro: rtranclp.rtrancl_into_rtrancl)
    with r' c show ?thesis by (cases s rule: spsc.cases) simp
  qed
qed

lemma solo_copy_out:
  assumes wf: "rb_wf (ring s)" and m: "unat m \<le> rb_len (ring s)" and i: "i \<le> unat m"
    and c: "cons s = C_Copy (rb_tail (ring s)) m (take i (rb_contents (ring s)))"
  shows "cstep\<^sup>*\<^sup>* s (s\<lparr>cons := C_Copy (rb_tail (ring s)) m (take (unat m) (rb_contents (ring s)))\<rparr>)"
  using wf m i c
proof (induction "unat m - i" arbitrary: i s)
  case 0
  then have "i = unat m" by simp
  with 0 show ?case by (cases s rule: spsc.cases) simp
next
  case (Suc d)
  let ?r = "ring s" and ?acc = "take i (rb_contents (ring s))"
  have lt: "i < unat m" "i < rb_len ?r" using Suc by simp_all
  have l: "length ?acc = i" using lt by simp
  have "copy_index ?r (rb_tail ?r) m i = (unat (rb_tail ?r) + i) mod rb_size ?r"
    using copy_index_eq [OF Suc.prems(1) _ lt(1)] rb_wf_nat [OF Suc.prems(1)]
      rb_len_less [OF Suc.prems(1)] Suc.prems(2) by simp
  then have "mem_read (rb_buffer ?r) (copy_index ?r (rb_tail ?r) m (length ?acc)) 1
      = Some [rb_contents ?r ! i]"
    using rb_read_slot [OF Suc.prems(1) lt(2)] l by simp
  then have "cstep s (s\<lparr>cons := C_Copy (rb_tail ?r) m (?acc @ [rb_contents ?r ! i])\<rparr>)"
    using lt(1) l by (intro cstep.cbatch_copy [OF Suc.prems(4)]) simp_all
  also have "?acc @ [rb_contents ?r ! i] = take (Suc i) (rb_contents ?r)"
    using lt(2) by (simp add: take_Suc_conv_app_nth)
  finally have st: "cstep s (s\<lparr>cons := C_Copy (rb_tail ?r) m (take (Suc i) (rb_contents ?r))\<rparr>)" (is "cstep s ?t") .
  have "cstep\<^sup>*\<^sup>* ?t (?t\<lparr>cons := C_Copy (rb_tail (ring ?t)) m (take (unat m) (rb_contents (ring ?t)))\<rparr>)"
    using Suc lt by (intro Suc.hyps(1)) simp_all
  with st show ?case by (simp add: converse_rtranclp_into_rtranclp)
qed

lemma rb_pop_batch_ring:
  assumes op: "ring_buffer_pop_batch (Some r) (Some xs) count q = Some (ok, Some r', ys, q')"
    and nz: "count \<noteq> 0" "word_min count (ring_buffer_count (Some r)) = m" "m \<noteq> 0"
  shows "r' = r\<lparr>rb_tail := (rb_tail r + m) AND rb_mask r\<rparr>"
  using op rb_pop_batch_unfold [OF nz(1,3) nz(2) [symmetric, unfolded word_min_def] refl, of xs q]
  by (auto simp: bind_eq_Some_conv)

lemma solo_pop_batch:
  assumes wf: "rb_wf (ring s)" and c: "cons s = C_Idle" and n: "n \<noteq> 0"
    and op: "ring_buffer_pop_batch (Some (ring s)) (Some xs) n q = Some (ok, Some r', ys, q')"
  shows "cstep\<^sup>*\<^sup>* s (s\<lparr>ring := r', got := got s @ take (unat n) (rb_contents (ring s))\<rparr>)"
proof -
  let ?r = "ring s" and ?c = "ring_buffer_count (Some (ring s))"
  let ?s1 = "s\<lparr>cons := C_Batch1 n (rb_head ?r)\<rparr>"
  let ?s2 = "?s1\<lparr>cons := C_Batch2 n ?c\<rparr>"
  define m where m: "m = word_min n ?c"
  have um: "unat m = min (unat n) (rb_len ?r)" by (simp add: m unat_word_min unat_count [OF wf])
  have s1: "cstep s ?s1" using c n by (rule cstep.cbatch_load_head)
  have s2: "cstep ?s1 ?s2"
    using cstep.cbatch_load_tail [of ?s1 n "rb_head ?r"] by (simp add: ring_buffer_count_def)
  have s12: "cstep\<^sup>*\<^sup>* s ?s2" using s1 s2 by simp
  show ?thesis
  proof (cases "m = 0")
    case True
    then have z: "rb_contents ?r = []" using um n by (simp add: min_def unat_eq_zero flip: length_0_conv split: if_splits)
    have "r' = ?r" using op True by (auto simp: ring_buffer_pop_batch_def m word_min_def Let_def split: if_splits)
    moreover have "cstep ?s2 (?s2\<lparr>cons := C_Idle\<rparr>)"
      using True by (intro cstep.cbatch_none [where n = n and c = ?c]) (simp_all add: m)
    ultimately show ?thesis using s12 z c
      by (cases s rule: spsc.cases) (simp add: rtranclp.rtrancl_into_rtrancl)
  next
    case False
    let ?s3 = "?s2\<lparr>cons := C_Copy (rb_tail ?r) m []\<rparr>"
    let ?s4 = "?s3\<lparr>cons := C_Copy (rb_tail ?r) m (take (unat m) (rb_contents ?r))\<rparr>"
    let ?s5 = "?s4\<lparr>ring := r', cons := C_Idle, got := got s @ take (unat m) (rb_contents ?r)\<rparr>"
    have r': "r' = ?r\<lparr>rb_tail := (rb_tail ?r + m) AND rb_mask ?r\<rparr>"
      by (rule rb_pop_batch_ring [OF op n m [symmetric] False])
    have s3: "cstep ?s2 ?s3" using cstep.cbatch_some [of ?s2 n ?c m] False by (simp add: m)
    have s4: "cstep\<^sup>*\<^sup>* ?s3 ?s4" using solo_copy_out [of ?s3 m 0] wf um by simp
    have s5: "cstep ?s4 ?s5"
      using cstep.cbatch_publish [of ?s4 "rb_tail ?r" m "take (unat m) (rb_contents ?r)"] um r' by simp
    have "cstep\<^sup>*\<^sup>* s ?s5"
      using rtranclp_trans [of cstep, OF rtranclp.rtrancl_into_rtrancl [OF s12 s3] s4] s5
      by (rule rtranclp.rtrancl_into_rtrancl)
    moreover have "take (unat m) (rb_contents ?r) = take (unat n) (rb_contents ?r)"
      unfolding um by (simp add: min_def)
    ultimately show ?thesis using c by (cases s rule: spsc.cases) simp
  qed
qed

end
