(* ===== verification/Ring_Properties.thy ===== *)
theory Ring_Properties
  imports Spsc_Refine
begin

text \<open>
  The properties of the ring buffer, sequential and concurrent, with their witnesses. The proofs
  rest on the interpretation \<open>rbq\<close> of the queue contract and on the invariant of the
  interleaving model.
\<close>

section \<open>A concrete ring\<close>

definition demo_sample :: "nat \<Rightarrow> adc_sample_t" where
  "demo_sample i = blank_sample\<lparr>s_sequence := word_of_nat i\<rparr>"

text \<open>Four slots; the two stored samples wrap around the end of the array.\<close>

definition demo_ring :: ring_buffer_t where
  "demo_ring = \<lparr>rb_head = 1, rb_tail = 3, rb_capacity = 4, rb_mask = 3,
     rb_buffer = map demo_sample [11, 12, 13, 10], rb_block = 1, rb_dropped = 0\<rparr>"

definition fresh_ring :: ring_buffer_t where
  "fresh_ring = \<lparr>rb_head = 0, rb_tail = 0, rb_capacity = 4, rb_mask = 3,
     rb_buffer = replicate 4 blank_sample, rb_block = 1, rb_dropped = 0\<rparr>"

lemma demo_wf [simp]: "rb_wf demo_ring" "rb_wf fresh_ring"
  by (simp_all add: rb_wf_def demo_ring_def fresh_ring_def bexI [of _ 2])

lemma demo_contents:
  "rb_contents demo_ring = [demo_sample 10, demo_sample 11]" "rb_bound demo_ring = 3"
  "rb_contents fresh_ring = []" "rb_bound fresh_ring = 3" "rb_dropped demo_ring = 0"
  "rb_room demo_ring = 1" "rb_len demo_ring = 2" "rb_capacity demo_ring = 4"
  by (simp_all add: rb_contents_def rb_len_def rb_size_def rb_bound_def rb_room_def demo_ring_def
      fresh_ring_def ring_read_def upt_rec)

section \<open>Sequential operations\<close>

text \<open>
  C9. Every sequence of calls on a well-formed ring (pushes, pops, batches of any size and clears)
  is defined, delivers exactly the samples, in the same order, that a bounded queue would deliver,
  and leaves a well-formed ring that represents the queue's final contents and drop counter.
\<close>

theorem ring_refines_queue:
  assumes "rb_wf r" "\<forall>c\<in>set cs. op_ok c"
  shows "\<exists>r'. rb_run cs (Some r) = Some (fst (fifo_run cs (rb_view r)), Some r') \<and> rb_wf r'
           \<and> rb_view r' = snd (fifo_run cs (rb_view r))"
  using assms by (rule rb_run_refines)

theorem ring_refines_queue_witness:
  "\<exists>r'. rb_run [Pop, Push_Batch [demo_sample 1, demo_sample 2, demo_sample 3], Pop_Batch 2] (Some demo_ring)
      = Some ([demo_sample 10, demo_sample 11, demo_sample 1], Some r')
    \<and> rb_contents r' = [demo_sample 2] \<and> rb_dropped r' = 1"
  using ring_refines_queue [of demo_ring
    "[Pop, Push_Batch [demo_sample 1, demo_sample 2, demo_sample 3], Pop_Batch 2]"]
  by (auto simp: demo_contents rb_view_def Let_def)

text \<open>
  \<^verbatim>\<open>ring_buffer_push\<close> on every branch: with a null argument it returns false and
  changes nothing; on a full ring it returns false, keeps the contents and counts one dropped
  sample (modulo \<open>2 ^ 64\<close>); otherwise it returns true and appends the sample.
\<close>

theorem ring_push_functional:
  assumes "rb_wf r"
  shows "ring_buffer_push None p = Some (False, None)
    \<and> ring_buffer_push (Some r) None = Some (False, Some r)
    \<and> (\<exists>r'. ring_buffer_push (Some r) (Some x) = Some (length (rb_contents r) < rb_bound r, Some r')
        \<and> rb_wf r' \<and> rb_bound r' = rb_bound r
        \<and> rb_contents r' = rb_contents r @ (if length (rb_contents r) < rb_bound r then [x] else [])
        \<and> rb_dropped r' = rb_dropped r + (if length (rb_contents r) < rb_bound r then 0 else 1))"
  using rbq.push_law [OF assms, of x] by (auto simp: ring_buffer_push_def split: option.splits)

theorem ring_push_functional_witness:
  "\<exists>r'. ring_buffer_push (Some demo_ring) (Some (demo_sample 5)) = Some (True, Some r')
     \<and> rb_contents r' = [demo_sample 10, demo_sample 11, demo_sample 5] \<and> rb_dropped r' = 0"
  using ring_push_functional [OF demo_wf(1), of None "demo_sample 5"] by (auto simp: demo_contents)

text \<open>
  \<^verbatim>\<open>ring_buffer_pop\<close> on every branch: with a null argument it returns false and
  changes nothing; on an empty ring it returns false and leaves ring and output untouched;
  otherwise it returns true, stores the oldest sample in the output and removes it.
\<close>

theorem ring_pop_functional:
  assumes "rb_wf r"
  shows "ring_buffer_pop None p = Some (False, None, p)
    \<and> ring_buffer_pop (Some r) None = Some (False, Some r, None)
    \<and> (rb_contents r = [] \<longrightarrow> ring_buffer_pop (Some r) (Some y) = Some (False, Some r, Some y))
    \<and> (\<forall>x xs. rb_contents r = x # xs \<longrightarrow>
         (\<exists>r'. ring_buffer_pop (Some r) (Some y) = Some (True, Some r', Some x) \<and> rb_wf r'
            \<and> rb_contents r' = xs \<and> rb_bound r' = rb_bound r \<and> rb_dropped r' = rb_dropped r))"
  using rbq.pop_law [OF assms, of y] rb_pop_empty [OF assms, of y]
  by (auto simp: ring_buffer_pop_def split: option.splits simp flip: length_rb_contents)

theorem ring_pop_functional_witness:
  "\<exists>r'. ring_buffer_pop (Some demo_ring) (Some blank_sample) = Some (True, Some r', Some (demo_sample 10))
     \<and> rb_contents r' = [demo_sample 11]"
  using ring_pop_functional [OF demo_wf(1), of None blank_sample] by (auto simp: demo_contents)

text \<open>
  \<^verbatim>\<open>ring_buffer_push_batch\<close> copies the longest prefix of the batch that fits,
  in order and without an access outside either array, reports its length in \<^verbatim>\<open>pushed\<close>,
  returns true exactly when the whole (non-empty) batch was stored, and adds the number of
  rejected samples to the drop counter.
\<close>

theorem ring_push_batch_functional:
  assumes "rb_wf r" "m = min (unat n) (rb_bound r - length (rb_contents r))" "m \<le> length xs"
  shows "\<exists>r'. ring_buffer_push_batch (Some r) (Some xs) n p
            = Some (0 < n \<and> m = unat n, Some r', set_out p (word_of_nat m))
        \<and> rb_wf r' \<and> rb_bound r' = rb_bound r \<and> rb_contents r' = rb_contents r @ take m xs
        \<and> rb_dropped r' = rb_dropped r + word_of_nat (unat n - m)"
  using assms by (rule rbq.push_batch_law)

theorem ring_push_batch_functional_witness:
  "\<exists>r'. ring_buffer_push_batch (Some demo_ring) (Some (map demo_sample [1, 2, 3])) 3 (Some 0)
      = Some (False, Some r', Some 1)
     \<and> rb_contents r' = map demo_sample [10, 11, 1] \<and> rb_dropped r' = 2"
  using ring_push_batch_functional [OF demo_wf(1), of 1 3 "map demo_sample [1, 2, 3]" "Some 0"]
  by (auto simp: demo_contents)

text \<open>
  A batch push has the effect of pushing its samples one at a time: same final contents, same
  drop counter.
\<close>

theorem ring_push_batch_is_pushes:
  assumes "rb_wf r" "unat n = length xs"
  shows "\<exists>r1 r2 ok p'. ring_buffer_push_batch (Some r) (Some xs) n p = Some (ok, Some r1, p')
    \<and> push_each ring_buffer_push (Some r) xs = Some (Some r2)
    \<and> rb_contents r1 = rb_contents r2 \<and> rb_dropped r1 = rb_dropped r2
    \<and> rb_bound r1 = rb_bound r2 \<and> rb_wf r1 \<and> rb_wf r2"
  using assms by (rule rbq.push_batch_is_push_each)

theorem ring_push_batch_is_pushes_witness:
  "\<exists>r1 r2 ok p'. ring_buffer_push_batch (Some demo_ring) (Some (map demo_sample [1, 2, 3])) 3 None
      = Some (ok, Some r1, p')
    \<and> push_each ring_buffer_push (Some demo_ring) (map demo_sample [1, 2, 3]) = Some (Some r2)
    \<and> rb_contents r1 = rb_contents r2 \<and> rb_dropped r1 = rb_dropped r2"
  using ring_push_batch_is_pushes [OF demo_wf(1), of 3 "map demo_sample [1, 2, 3]" None] by auto

text \<open>
  A batch pop delivers, in order, what the same number of single pops delivers, leaves the
  same contents, and writes only the delivered prefix of the caller's array.
\<close>

theorem ring_pop_batch_is_pops:
  assumes "rb_wf r" "unat n \<le> length xs"
  shows "\<exists>r1 r2 ok ys p'. ring_buffer_pop_batch (Some r) (Some xs) n p = Some (ok, Some r1, Some ys, p')
    \<and> pop_each ring_buffer_pop (Some r) (Some x) (unat n)
        = Some (Some r2, take (min (unat n) (length (rb_contents r))) ys)
    \<and> drop (min (unat n) (length (rb_contents r))) ys = drop (min (unat n) (length (rb_contents r))) xs
    \<and> rb_contents r1 = rb_contents r2 \<and> rb_dropped r1 = rb_dropped r2
    \<and> rb_bound r1 = rb_bound r2 \<and> rb_wf r1 \<and> rb_wf r2"
  using rbq.pop_batch_is_pop_each [OF assms, of p x]
    rbq.pop_batch_law [OF assms(1) refl, of n xs p] assms(2) by fastforce

theorem ring_pop_batch_is_pops_witness:
  "\<exists>r1 r2 ok ys p'. ring_buffer_pop_batch (Some demo_ring) (Some (replicate 4 blank_sample)) 4 None
      = Some (ok, Some r1, Some ys, p')
    \<and> pop_each ring_buffer_pop (Some demo_ring) (Some blank_sample) 4 = Some (Some r2, take 2 ys)
    \<and> rb_contents r1 = rb_contents r2"
  using ring_pop_batch_is_pops [OF demo_wf(1), of 4 "replicate 4 blank_sample" None blank_sample]
  by (auto simp: demo_contents) (simp only: numeral_2_eq_2)

text \<open>
  The observers agree with the contents: the count is the number of stored samples, count and
  available always add up to the capacity less the one slot that stays free, and the empty and
  full tests answer for exactly the two ends of that range.
\<close>

theorem ring_observers_agree:
  assumes "rb_wf r"
  shows "unat (ring_buffer_count (Some r)) = length (rb_contents r)
    \<and> unat (ring_buffer_count (Some r)) + unat (ring_buffer_available (Some r)) + 1 = unat (rb_capacity r)
    \<and> (ring_buffer_is_empty (Some r) \<longleftrightarrow> rb_contents r = [])
    \<and> (ring_buffer_is_full (Some r) \<longleftrightarrow> ring_buffer_available (Some r) = 0)"
  using unat_count [OF assms] unat_available [OF assms] rb_room_len [OF assms] rb_empty_iff [OF assms]
    rb_full_iff [OF assms]
  by (auto simp: ring_buffer_is_empty_def ring_buffer_is_full_def Let_def rb_size_def unat_eq_zero
      simp flip: length_0_conv)

theorem ring_observers_agree_witness:
  "unat (ring_buffer_count (Some demo_ring)) = 2
   \<and> unat (ring_buffer_available (Some demo_ring)) = 1
   \<and> \<not> ring_buffer_is_empty (Some demo_ring) \<and> \<not> ring_buffer_is_full (Some demo_ring)"
  using ring_observers_agree [OF demo_wf(1)] by (auto simp: demo_contents)

text \<open>
  C23. The capacity normalisation of \<^verbatim>\<open>ring_buffer_create\<close> returns for every request
  of at most \<open>2 ^ 31\<close> slots, and its result is the least power of two that is at least two
  and at least the request.
\<close>

theorem ring_capacity_normalised:
  assumes "unat c \<le> 2 ^ 31"
  shows "\<exists>k. 1 \<le> k \<and> k \<le> 31 \<and> ring_capacity c = Some (2 ^ k) \<and> max 2 (unat c) \<le> 2 ^ k
    \<and> (\<forall>j. max 2 (unat c) \<le> 2 ^ j \<longrightarrow> k \<le> j)"
proof -
  obtain k where k: "1 \<le> k" "k \<le> 31" "ring_capacity c = Some (2 ^ k)"
    "max 2 (unat c) \<le> 2 ^ k" "2 ^ k < 2 * max 2 (unat c)"
    using ring_capacity_returns [OF assms] .
  have "k \<le> j" if "max 2 (unat c) \<le> 2 ^ j" for j
  proof -
    have "(2::nat) ^ k < 2 * 2 ^ j" using k(5) that by linarith
    then have "(2::nat) ^ k < 2 ^ Suc j" by simp
    then have "k < Suc j" by (rule power_less_imp_less_exp [rotated]) simp
    then show ?thesis by simp
  qed
  with k show ?thesis by blast
qed

theorem ring_capacity_normalised_witness:
  "\<exists>k. ring_capacity 1000 = Some (2 ^ k) \<and> 1000 \<le> (2::nat) ^ k \<and> k \<le> 10"
  using ring_capacity_normalised [of 1000] by fastforce

text \<open>
  C24. For a request above \<open>2 ^ 31\<close> the doubling loop never stops: the 32-bit power wraps to
  zero and stays below the request for ever.
\<close>

theorem ring_create_diverges:
  assumes "2 ^ 31 < unat c"
  shows "ring_capacity c = None"
  using assms by (rule ring_capacity_diverges)

theorem ring_create_diverges_witness: "ring_capacity 3000000000 = None"
  using ring_create_diverges [of 3000000000] by simp

section \<open>Concurrent use\<close>

lemma reach_psteps: "reach r s \<Longrightarrow> pstep\<^sup>*\<^sup>* s s' \<Longrightarrow> reach r s'"
  by (rotate_tac, induction rule: rtranclp_induct) (auto intro: reach.prod_step)

lemma pstep_frame:
  assumes "pstep s s'" "prod_slot (ring s) (prod s) \<noteq> Some j"
  shows "rb_buffer (ring s') ! j = rb_buffer (ring s) ! j"
  using assms by cases (auto simp: mem_write_def nth_append split: if_splits)

text \<open>
  A producer call from idle to idle takes at most the steps its program counter promises,
  whatever the consumer does in between.
\<close>

lemma prod_finishes:
  assumes "spsc_inv r0 s"
  shows "\<exists>n s'. n \<le> prod_work (prod s) \<and> (pstep ^^ n) s s' \<and> prod s' = P_Idle"
  using assms
proof (induction "prod_work (prod s)" arbitrary: s rule: less_induct)
  case less
  show ?case
  proof (cases "prod s = P_Idle")
    case False
    then obtain t where t: "pstep s t" using pstep_progress [OF less.prems] by blast
    have w: "prod_work (prod t) < prod_work (prod s)" using t False by (rule pstep_work)
    obtain n u where u: "n \<le> prod_work (prod t)" "(pstep ^^ n) t u" "prod u = P_Idle"
      using less.hyps [OF w pstep_inv [OF t less.prems]] by blast
    have "(pstep ^^ Suc n) s u" using t u(2) by (rule relpowp_Suc_I2)
    with u w show ?thesis by (intro exI [of _ "Suc n"] exI [of _ u]) simp
  qed (auto intro: exI [of _ 0])
qed

lemma cons_finishes:
  assumes "spsc_inv r0 s"
  shows "\<exists>n s'. n \<le> cons_work (cons s) \<and> (cstep ^^ n) s s' \<and> cons s' = C_Idle"
  using assms
proof (induction "cons_work (cons s)" arbitrary: s rule: less_induct)
  case less
  show ?case
  proof (cases "cons s = C_Idle")
    case False
    then obtain t where t: "cstep s t" using cstep_progress [OF less.prems] by blast
    have w: "cons_work (cons t) < cons_work (cons s)" using t False by (rule cstep_work)
    obtain n u where u: "n \<le> cons_work (cons t)" "(cstep ^^ n) t u" "cons u = C_Idle"
      using less.hyps [OF w cstep_inv [OF t less.prems]] by blast
    have "(cstep ^^ Suc n) s u" using t u(2) by (rule relpowp_Suc_I2)
    with u w show ?thesis by (intro exI [of _ "Suc n"] exI [of _ u]) simp
  qed (auto intro: exI [of _ 0])
qed

text \<open>
  A concrete interleaving: one sample has been published, the producer is about to store a second
  one in slot 1 and the consumer is about to read slot 0.
\<close>

definition demo_run :: spsc where
  "demo_run = \<lparr>ring = fresh_ring\<lparr>rb_head := 1, rb_buffer := (rb_buffer fresh_ring)[0 := demo_sample 1]\<rparr>,
     prod = P_Push2 (demo_sample 2) 1 2, cons = C_Pop2 0, sent = [demo_sample 1], got = [],
     offered = Suc 1, lost = 0\<rparr>"

lemma demo_reach: "reach fresh_ring demo_run"
proof -
  define s0 where "s0 = spsc_init fresh_ring"
  define r1 where "r1 = fresh_ring\<lparr>rb_head := 1, rb_buffer := (rb_buffer fresh_ring)[0 := demo_sample 1]\<rparr>"
  define s1 where "s1 = \<lparr>ring = r1, prod = P_Idle, cons = C_Idle, sent = [demo_sample 1], got = [],
     offered = 1, lost = 0\<rparr>"
  have "ring_buffer_push (Some (ring s0)) (Some (demo_sample 1)) = Some (True, Some r1)"
    by (simp add: ring_buffer_push_def s0_def spsc_init_def r1_def fresh_ring_def Let_def mem_write_single)
  from solo_push [OF _ _ this] have "pstep\<^sup>*\<^sup>* s0 s1"
    by (simp add: s0_def s1_def spsc_init_def)
  with reach.start have "reach fresh_ring s1" unfolding s0_def by (rule reach_psteps)
  then have "reach fresh_ring (s1\<lparr>prod := P_Push1 (demo_sample 2) 1, offered := Suc 1\<rparr>)"
    by (rule reach.prod_step)
       (use pstep.push_load [of s1 "demo_sample 2"] in \<open>simp add: s1_def r1_def\<close>)
  then have "reach fresh_ring (s1\<lparr>prod := P_Push2 (demo_sample 2) 1 2, offered := Suc 1\<rparr>)" (is "reach _ ?s2")
    by (rule reach.prod_step) (use pstep.push_room [of "s1\<lparr>prod := P_Push1 (demo_sample 2) 1,
          offered := Suc 1\<rparr>" "demo_sample 2" 1] in \<open>simp add: s1_def r1_def fresh_ring_def\<close>)
  then have "reach fresh_ring (?s2\<lparr>cons := C_Pop1 1\<rparr>)"
    by (rule reach.cons_step) (use cstep.pop_load [of ?s2] in \<open>simp add: s1_def r1_def\<close>)
  then have "reach fresh_ring (?s2\<lparr>cons := C_Pop2 0\<rparr>)"
    by (rule reach.cons_step) (use cstep.pop_some [of "?s2\<lparr>cons := C_Pop1 1\<rparr>" 1] in
          \<open>simp add: s1_def r1_def fresh_ring_def\<close>)
  moreover have "?s2\<lparr>cons := C_Pop2 0\<rparr> = demo_run" by (simp add: demo_run_def s1_def r1_def)
  ultimately show ?thesis by simp
qed

text \<open>
  C6. First in, first out under concurrency: after any interleaving of producer and consumer
  steps that starts from an empty ring, what the consumer was given followed by what the ring
  holds is exactly what the producer published, in order; the ring stays well-formed and keeps its
  capacity.
\<close>

theorem spsc_fifo_order:
  assumes "reach r s" "rb_wf r" "rb_contents r = []"
  shows "got s @ rb_contents (ring s) = sent s \<and> rb_wf (ring s)
    \<and> rb_capacity (ring s) = rb_capacity r"
  using reach_inv [OF assms] by (simp add: spsc_inv_def)

theorem spsc_fifo_order_witness:
  "got demo_run @ rb_contents (ring demo_run) = [demo_sample 1]"
  using spsc_fifo_order [OF demo_reach demo_wf(2) demo_contents(3)] by (simp add: demo_run_def)

text \<open>
  C7. Freedom from data races: in every reachable state both threads access the data array inside
  its bounds, never the same slot at the same time, and no step of the producer changes a slot
  the consumer is about to read.
\<close>

theorem spsc_race_free:
  assumes "reach r s" "rb_wf r" "rb_contents r = []"
  shows "(\<forall>i. prod_slot (ring s) (prod s) = Some i \<longrightarrow> i < length (rb_buffer (ring s)))
    \<and> (\<forall>j. cons_slot (ring s) (cons s) = Some j \<longrightarrow> j < length (rb_buffer (ring s))
         \<and> prod_slot (ring s) (prod s) \<noteq> Some j
         \<and> (\<forall>s'. pstep s s' \<longrightarrow> rb_buffer (ring s') ! j = rb_buffer (ring s) ! j))"
proof -
  note inv = reach_inv [OF assms]
  show ?thesis
    using slots_in_bounds [OF inv] slots_disjoint [OF inv] pstep_frame [of s] by blast
qed

theorem spsc_race_free_witness:
  "prod_slot (ring demo_run) (prod demo_run) = Some 1 \<and> cons_slot (ring demo_run) (cons demo_run) = Some 0
   \<and> prod_slot (ring demo_run) (prod demo_run) \<noteq> cons_slot (ring demo_run) (cons demo_run)
   \<and> 1 < length (rb_buffer (ring demo_run))"
  using spsc_race_free [OF demo_reach demo_wf(2) demo_contents(3)] by (simp add: demo_run_def)

text \<open>
  C22. Wait-freedom of the producer: from every reachable state a call in progress completes
  within a number of its own steps that depends on the batch size only, no step of the consumer
  interferes with its progress, and no access it makes is out of bounds on the way.
\<close>

theorem spsc_producer_wait_free:
  assumes "reach r s" "rb_wf r" "rb_contents r = []"
  shows "(\<exists>n s'. n \<le> prod_work (prod s) \<and> (pstep ^^ n) s s' \<and> prod s' = P_Idle)
    \<and> (prod s \<noteq> P_Idle \<longrightarrow> (\<exists>s'. pstep s s')
         \<and> (\<forall>s'. pstep s s' \<longrightarrow> prod_work (prod s') < prod_work (prod s)))
    \<and> (\<forall>s'. cstep s s' \<longrightarrow> prod s' = prod s)"
proof -
  note inv = reach_inv [OF assms]
  show ?thesis
    using prod_finishes [OF inv] pstep_progress [OF inv] pstep_work [of s] cstep_prod [of s] by blast
qed

theorem spsc_producer_wait_free_witness:
  "\<exists>n s'. n \<le> 2 \<and> (pstep ^^ n) demo_run s' \<and> prod s' = P_Idle"
  using spsc_producer_wait_free [OF demo_reach demo_wf(2) demo_contents(3)] by (simp add: demo_run_def)

text \<open>
  Wait-freedom of the consumer, in the same sense.
\<close>

theorem spsc_consumer_wait_free:
  assumes "reach r s" "rb_wf r" "rb_contents r = []"
  shows "(\<exists>n s'. n \<le> cons_work (cons s) \<and> (cstep ^^ n) s s' \<and> cons s' = C_Idle)
    \<and> (cons s \<noteq> C_Idle \<longrightarrow> (\<exists>s'. cstep s s')
         \<and> (\<forall>s'. cstep s s' \<longrightarrow> cons_work (cons s') < cons_work (cons s)))
    \<and> (\<forall>s'. pstep s s' \<longrightarrow> cons s' = cons s)"
proof -
  note inv = reach_inv [OF assms]
  show ?thesis
    using cons_finishes [OF inv] cstep_progress [OF inv] cstep_work [of s] pstep_cons [of s] by blast
qed

theorem spsc_consumer_wait_free_witness:
  "\<exists>n s'. n \<le> 2 \<and> (cstep ^^ n) demo_run s' \<and> cons s' = C_Idle"
  using spsc_consumer_wait_free [OF demo_reach demo_wf(2) demo_contents(3)] by (simp add: demo_run_def)

text \<open>
  C10. No sample is lost without being counted: between two calls of the producer, the samples it
  offered are those received, those still in the ring and those rejected, and the 64-bit drop
  counter has advanced by exactly the number rejected.
\<close>

theorem spsc_drop_accounting:
  assumes "reach r s" "rb_wf r" "rb_contents r = []" "prod s = P_Idle"
  shows "offered s = length (got s) + rb_len (ring s) + lost s
    \<and> rb_dropped (ring s) = rb_dropped r + word_of_nat (lost s)"
proof -
  note inv = reach_inv [OF assms(1-3)]
  then have "length (sent s) = length (got s @ rb_contents (ring s))" by (simp add: spsc_inv_def)
  then have "length (sent s) = length (got s) + rb_len (ring s)" by simp
  with inv assms(4) show ?thesis by (simp add: spsc_inv_def)
qed

theorem spsc_drop_accounting_witness:
  "\<exists>s. reach fresh_ring s \<and> offered s = 5 \<and> rb_len (ring s) + lost s = 5 \<and> lost s = 2
     \<and> rb_dropped (ring s) = 2"
proof -
  let ?xs = "map demo_sample [1, 2, 3, 4, 5]" and ?s = "spsc_init fresh_ring"
  obtain r' ok where r': "ring_buffer_push_batch (Some fresh_ring) (Some ?xs) (cnt ?xs) None = Some (ok, Some r', None)"
    using rbq.push_batch_law [OF demo_wf(2) refl, of "cnt ?xs" ?xs None] by (auto simp: unat_cnt)
  have "pstep\<^sup>*\<^sup>* ?s (?s\<lparr>ring := r', offered := 5, sent := take 3 ?xs, lost := 2\<rparr>)"
    using solo_push_batch [of ?s ?xs None ok r' None 3] r'
    by (simp add: spsc_init_def demo_contents rb_room_bound) (simp add: eval_nat_numeral)
  with reach.start have "reach fresh_ring (?s\<lparr>ring := r', offered := 5, sent := take 3 ?xs, lost := 2\<rparr>)" (is "reach _ ?t")
    by (rule reach_psteps)
  with spsc_drop_accounting [OF this demo_wf(2) demo_contents(3)] show ?thesis
    by (intro exI [of _ ?t]) (simp add: spsc_init_def fresh_ring_def)
qed

text \<open>
  C11. A producer call that runs without interference takes its atomic steps from idle to idle and
  ends in exactly the state that the sequential \<^verbatim>\<open>ring_buffer_push\<close> or
  \<^verbatim>\<open>ring_buffer_push_batch\<close> computes, so the step relation and the sequential
  definitions describe the same code.
\<close>

theorem spsc_producer_sequential:
  assumes "rb_wf (ring s)" "prod s = P_Idle"
  shows "(\<forall>x ok r'. ring_buffer_push (Some (ring s)) (Some x) = Some (ok, Some r') \<longrightarrow>
       pstep\<^sup>*\<^sup>* s (s\<lparr>ring := r', offered := offered s + 1,
         sent := sent s @ (if ok then [x] else []), lost := lost s + (if ok then 0 else 1)\<rparr>))
    \<and> (\<forall>xs q ok r' q'. xs \<noteq> [] \<and> length xs < 2 ^ 32
       \<and> ring_buffer_push_batch (Some (ring s)) (Some xs) (cnt xs) q = Some (ok, Some r', q') \<longrightarrow>
       (let k = min (length xs) (rb_room (ring s)) in
         pstep\<^sup>*\<^sup>* s (s\<lparr>ring := r', offered := offered s + length xs, sent := sent s @ take k xs,
           lost := lost s + (length xs - k)\<rparr>)))"
  using solo_push [OF assms] solo_push_batch [OF assms] unfolding Let_def by blast

theorem spsc_producer_sequential_witness:
  "\<exists>r'. ring_buffer_push (Some fresh_ring) (Some (demo_sample 1)) = Some (True, Some r')
     \<and> pstep\<^sup>*\<^sup>* (spsc_init fresh_ring)
         ((spsc_init fresh_ring)\<lparr>ring := r', offered := 1, sent := [demo_sample 1]\<rparr>)"
proof -
  obtain r' where "ring_buffer_push (Some fresh_ring) (Some (demo_sample 1)) = Some (True, Some r')"
    using rbq.push_law [OF demo_wf(2), of "demo_sample 1"] by (auto simp: demo_contents)
  moreover from this have "pstep\<^sup>*\<^sup>* (spsc_init fresh_ring)
      ((spsc_init fresh_ring)\<lparr>ring := r', offered := 1, sent := [demo_sample 1]\<rparr>)"
    using spsc_producer_sequential [of "spsc_init fresh_ring", THEN conjunct1, rule_format,
        of "demo_sample 1" True r'] by (simp add: spsc_init_def)
  ultimately show ?thesis by blast
qed

text \<open>
  The same for the consumer: an undisturbed \<^verbatim>\<open>ring_buffer_pop\<close> or
  \<^verbatim>\<open>ring_buffer_pop_batch\<close> hands over what the sequential operation hands over and
  leaves the ring it computes.
\<close>

theorem spsc_consumer_sequential:
  assumes "rb_wf (ring s)" "cons s = C_Idle"
  shows "(\<forall>y ok r' x. ring_buffer_pop (Some (ring s)) (Some y) = Some (ok, Some r', Some x) \<longrightarrow>
       cstep\<^sup>*\<^sup>* s (s\<lparr>ring := r', got := got s @ (if ok then [x] else [])\<rparr>))
    \<and> (\<forall>xs n q ok r' ys q'. n \<noteq> 0
       \<and> ring_buffer_pop_batch (Some (ring s)) (Some xs) n q = Some (ok, Some r', ys, q') \<longrightarrow>
       cstep\<^sup>*\<^sup>* s (s\<lparr>ring := r', got := got s @ take (unat n) (rb_contents (ring s))\<rparr>))"
  using solo_pop [OF assms] solo_pop_batch [OF assms] by blast

theorem spsc_consumer_sequential_witness:
  "\<exists>r'. ring_buffer_pop (Some demo_ring) (Some blank_sample) = Some (True, Some r', Some (demo_sample 10))
     \<and> cstep\<^sup>*\<^sup>* (spsc_init demo_ring) ((spsc_init demo_ring)\<lparr>ring := r', got := [demo_sample 10]\<rparr>)"
proof -
  obtain r' where "ring_buffer_pop (Some demo_ring) (Some blank_sample) = Some (True, Some r', Some (demo_sample 10))"
    using rbq.pop_law [OF demo_wf(1), of blank_sample] by (auto simp: demo_contents)
  moreover from this have
    "cstep\<^sup>*\<^sup>* (spsc_init demo_ring) ((spsc_init demo_ring)\<lparr>ring := r', got := [demo_sample 10]\<rparr>)"
    using spsc_consumer_sequential [of "spsc_init demo_ring", THEN conjunct1, rule_format,
        of blank_sample True r' "demo_sample 10"] by (simp add: spsc_init_def)
  ultimately show ?thesis by blast
qed

end
