(* ===== verification/Spsc_Tso.thy ===== *)
theory Spsc_Tso
  imports Ring_Properties "HOL-Library.Sublist"
begin

unbundle bit_operations_syntax

text \<open>
  The ring buffer on a machine with store buffers (total store order, the memory model of x86).
  The barriers of \<^verbatim>\<open>src/buffer/ring_buffer.c\<close> are acquire and release fences, which emit
  no instruction there: a store of one thread waits in that thread's buffer, the thread itself
  reads its own pending stores, and the other thread sees a store only once it is flushed to
  memory. Flushes happen at any time, in the order of the stores.

  A thread takes the steps of theory \<open>Spsc\<close> on its own view, memory under its own pending
  stores. The theory shows that first-in-first-out delivery, the drop accounting and the
  absence of stuck calls survive the delays, by an invariant over all the states that lie between
  memory and the fully flushed state. The barriers do not order the load of \<^verbatim>\<open>head\<close>
  before the load of the data in \<^verbatim>\<open>ring_buffer_pop\<close>; the last section shows what a
  machine that reorders these two loads does.
\<close>

section \<open>Stores and views\<close>

text \<open>
  A pending store, with the history it completes: a store to \<^verbatim>\<open>head\<close> publishes samples, a
  store to \<^verbatim>\<open>dropped\<close> counts rejected ones, a store to \<^verbatim>\<open>tail\<close> takes samples.
\<close>

datatype store =
    St_Cell nat adc_sample_t
  | St_Head u32 "adc_sample_t list"
  | St_Dropped u64 nat
  | St_Tail u32 "adc_sample_t list"

fun apply_store :: "store \<Rightarrow> spsc \<Rightarrow> spsc" where
  "apply_store (St_Cell i x) s = s\<lparr>ring := (ring s)\<lparr>rb_buffer := (rb_buffer (ring s))[i := x]\<rparr>\<rparr>"
| "apply_store (St_Head h ys) s = s\<lparr>ring := (ring s)\<lparr>rb_head := h\<rparr>, sent := sent s @ ys\<rparr>"
| "apply_store (St_Dropped d k) s = s\<lparr>ring := (ring s)\<lparr>rb_dropped := d\<rparr>, lost := lost s + k\<rparr>"
| "apply_store (St_Tail t ys) s = s\<lparr>ring := (ring s)\<lparr>rb_tail := t\<rparr>, got := got s @ ys\<rparr>"

text \<open>
  The state of the machine: memory together with the two program counters (registers are not
  buffered), and the two store buffers, oldest store first.
\<close>

record tso =
  mem :: spsc
  pbuf :: "store list"
  cbuf :: "store list"

definition pview :: "tso \<Rightarrow> spsc" where
  "pview t = fold apply_store (pbuf t) (mem t)"

definition cview :: "tso \<Rightarrow> spsc" where
  "cview t = fold apply_store (cbuf t) (mem t)"

text \<open>What memory becomes when both buffers are flushed.\<close>

definition flushed :: "tso \<Rightarrow> spsc" where
  "flushed t = fold apply_store (cbuf t) (fold apply_store (pbuf t) (mem t))"

text \<open>The stores of a thread's next step.\<close>

fun prod_stores :: "ring_buffer_t \<Rightarrow> prod_pc \<Rightarrow> store list" where
  "prod_stores r (P_Push1 x h) =
     (if (h + 1) AND rb_mask r = rb_tail r then [St_Dropped (rb_dropped r + 1) 1] else [])"
| "prod_stores r (P_Push2 x h nh) = [St_Cell (unat h) x]"
| "prod_stores r (P_Push3 x nh) = [St_Head nh [x]]"
| "prod_stores r (P_Batch2 xs av) =
     (if word_min (cnt xs) av = 0 then [St_Dropped (rb_dropped r + ucast (cnt xs)) (length xs)] else [])"
| "prod_stores r (P_Copy xs h n i) =
     (if i < unat n then [St_Cell (copy_index r h n i) (xs ! i)]
      else [St_Head ((h + n) AND rb_mask r) (take i xs)])"
| "prod_stores r (P_Drop xs n) =
     [St_Dropped (if n < cnt xs then rb_dropped r + ucast (cnt xs - n) else rb_dropped r)
        (length xs - unat n)]"
| "prod_stores r _ = []"

fun cons_stores :: "ring_buffer_t \<Rightarrow> cons_pc \<Rightarrow> store list" where
  "cons_stores r (C_Pop3 t x) = [St_Tail ((t + 1) AND rb_mask r) [x]]"
| "cons_stores r (C_Copy t m acc) =
     (if length acc < unat m then [] else [St_Tail ((t + m) AND rb_mask r) acc])"
| "cons_stores r _ = []"

section \<open>Steps of the machine\<close>

inductive tstep :: "tso \<Rightarrow> tso \<Rightarrow> bool" where
  t_prod: "pstep (pview t) s' \<Longrightarrow>
     tstep t (t\<lparr>mem := (mem t)\<lparr>prod := prod s', offered := offered s'\<rparr>,
                pbuf := pbuf t @ prod_stores (ring (pview t)) (prod (mem t))\<rparr>)"
| t_cons: "cstep (cview t) s' \<Longrightarrow>
     tstep t (t\<lparr>mem := (mem t)\<lparr>cons := cons s'\<rparr>,
                cbuf := cbuf t @ cons_stores (ring (cview t)) (cons (mem t))\<rparr>)"
| flush_prod: "pbuf t = st # b \<Longrightarrow> tstep t (t\<lparr>mem := apply_store st (mem t), pbuf := b\<rparr>)"
| flush_cons: "cbuf t = st # c \<Longrightarrow> tstep t (t\<lparr>mem := apply_store st (mem t), cbuf := c\<rparr>)"

definition tso_init :: "ring_buffer_t \<Rightarrow> tso" where
  "tso_init r = \<lparr>mem = spsc_init r, pbuf = [], cbuf = []\<rparr>"

inductive treach :: "ring_buffer_t \<Rightarrow> tso \<Rightarrow> bool" for r where
  start: "treach r (tso_init r)"
| step: "treach r t \<Longrightarrow> tstep t t' \<Longrightarrow> treach r t'"

section \<open>Stores of one side and the other side's fields\<close>

fun prod_store :: "store \<Rightarrow> bool" where
  "prod_store (St_Tail _ _) \<longleftrightarrow> False"
| "prod_store _ \<longleftrightarrow> True"

lemma apply_store_pcs [simp]:
  "prod (apply_store st s) = prod s" "cons (apply_store st s) = cons s"
  "offered (apply_store st s) = offered s"
  by (cases st; simp)+

lemma fold_store_pcs [simp]:
  "prod (fold apply_store b s) = prod s" "cons (fold apply_store b s) = cons s"
  "offered (fold apply_store b s) = offered s"
  by (induction b arbitrary: s) simp_all

lemma apply_store_upd:
  "apply_store st (s\<lparr>prod := p\<rparr>) = (apply_store st s)\<lparr>prod := p\<rparr>"
  "apply_store st (s\<lparr>cons := q\<rparr>) = (apply_store st s)\<lparr>cons := q\<rparr>"
  "apply_store st (s\<lparr>offered := k\<rparr>) = (apply_store st s)\<lparr>offered := k\<rparr>"
  by (cases st; simp)+

lemma fold_store_upd [simp]:
  "fold apply_store b (s\<lparr>prod := p\<rparr>) = (fold apply_store b s)\<lparr>prod := p\<rparr>"
  "fold apply_store b (s\<lparr>cons := q\<rparr>) = (fold apply_store b s)\<lparr>cons := q\<rparr>"
  "fold apply_store b (s\<lparr>offered := k\<rparr>) = (fold apply_store b s)\<lparr>offered := k\<rparr>"
  by (induction b arbitrary: s) (simp_all add: apply_store_upd)

lemma apply_store_commute:
  "prod_store a \<Longrightarrow> \<not> prod_store b \<Longrightarrow> apply_store a (apply_store b s) = apply_store b (apply_store a s)"
  by (cases a; cases b; simp)

lemma fold_store_commute1:
  "prod_store a \<Longrightarrow> list_all (\<lambda>st. \<not> prod_store st) c \<Longrightarrow>
     fold apply_store c (apply_store a s) = apply_store a (fold apply_store c s)"
  by (induction c arbitrary: s) (simp_all, metis apply_store_commute)

lemma fold_store_commute:
  "list_all prod_store b \<Longrightarrow> list_all (\<lambda>st. \<not> prod_store st) c \<Longrightarrow>
     fold apply_store c (fold apply_store b s) = fold apply_store b (fold apply_store c s)"
  by (induction b arbitrary: s) (simp_all add: fold_store_commute1)

text \<open>The stores of a step are its whole effect on memory.\<close>

lemma pstep_stores:
  "pstep s s' \<Longrightarrow> s' = (fold apply_store (prod_stores (ring s) (prod s)) s)\<lparr>prod := prod s', offered := offered s'\<rparr>"
  by (erule pstep.cases) (auto simp: mem_write_def list_update_append upd_conv_take_nth_drop split: if_splits)

lemma cstep_stores:
  "cstep s s' \<Longrightarrow> s' = (fold apply_store (cons_stores (ring s) (cons s)) s)\<lparr>cons := cons s'\<rparr>"
  by (erule cstep.cases) auto


section \<open>A producer step under a stale tail\<close>

text \<open>
  The state that differs from \<open>s\<close> by what the consumer has done meanwhile: a newer tail, more
  samples taken, another program counter.
\<close>

definition retail :: "u32 \<Rightarrow> adc_sample_t list \<Rightarrow> cons_pc \<Rightarrow> spsc \<Rightarrow> spsc" where
  "retail T g q s = s\<lparr>ring := (ring s)\<lparr>rb_tail := T\<rparr>, got := g, cons := q\<rparr>"

lemma retail_simps [simp]:
  "ring (retail T g q s) = (ring s)\<lparr>rb_tail := T\<rparr>" "prod (retail T g q s) = prod s"
  "cons (retail T g q s) = q" "sent (retail T g q s) = sent s" "got (retail T g q s) = g"
  "offered (retail T g q s) = offered s" "lost (retail T g q s) = lost s"
  by (simp_all add: retail_def)

fun reads_tail :: "prod_pc \<Rightarrow> bool" where
  "reads_tail (P_Push1 x h) \<longleftrightarrow> True"
| "reads_tail (P_Batch1 xs h) \<longleftrightarrow> True"
| "reads_tail _ \<longleftrightarrow> False"

lemma retail_upd:
  "retail T g q (s\<lparr>prod := p\<rparr>) = (retail T g q s)\<lparr>prod := p\<rparr>"
  "retail T g q (s\<lparr>offered := k\<rparr>) = (retail T g q s)\<lparr>offered := k\<rparr>"
  "retail T g q (s\<lparr>sent := ys\<rparr>) = (retail T g q s)\<lparr>sent := ys\<rparr>"
  "retail T g q (s\<lparr>lost := k\<rparr>) = (retail T g q s)\<lparr>lost := k\<rparr>"
  "retail T g q (s\<lparr>ring := r\<rparr>) = (retail T g q s)\<lparr>ring := r\<lparr>rb_tail := T\<rparr>\<rparr>"
  by (simp_all add: retail_def)

lemma tail_last:
  "(r :: ring_buffer_t)\<lparr>rb_dropped := d, rb_tail := T\<rparr> = r\<lparr>rb_tail := T, rb_dropped := d\<rparr>"
  "r\<lparr>rb_buffer := b, rb_tail := T\<rparr> = r\<lparr>rb_tail := T, rb_buffer := b\<rparr>"
  "r\<lparr>rb_head := h, rb_tail := T\<rparr> = r\<lparr>rb_tail := T, rb_head := h\<rparr>"
  by simp_all

lemma pstep_retail:
  assumes st: "pstep s s'" and nr: "\<not> reads_tail (prod s)"
  shows "pstep (retail T g q s) (retail T g q s')"
proof -
  let ?u = "retail T g q s"
  have ci: "copy_index (ring ?u) = copy_index (ring s)" by (simp add: copy_index_def fun_eq_iff)
  from st show ?thesis
  proof cases
    case (push_load x)
    then show ?thesis using pstep.push_load [of ?u x] by (simp add: retail_upd tail_last)
  next
    case (push_write x h nh buf)
    then show ?thesis using pstep.push_write [of ?u x h nh buf] by (simp add: retail_upd tail_last)
  next
    case (push_publish x nh)
    then show ?thesis using pstep.push_publish [of ?u x nh] by (simp add: retail_upd tail_last)
  next
    case (batch_load_head xs)
    then show ?thesis using pstep.batch_load_head [of ?u xs] by (simp add: retail_upd tail_last)
  next
    case (batch_none xs av)
    then show ?thesis using pstep.batch_none [of ?u xs av] by (simp add: retail_upd tail_last)
  next
    case (batch_some xs av n)
    then show ?thesis using pstep.batch_some [of ?u xs av n] by (simp add: retail_upd tail_last)
  next
    case (batch_copy xs h n i buf)
    then show ?thesis using pstep.batch_copy [of ?u xs h n i buf] ci by (simp add: retail_upd tail_last) 
  next
    case (batch_publish xs h n i)
    then show ?thesis using pstep.batch_publish [of ?u xs h n i] by (simp add: retail_upd tail_last)
  next
    case (batch_count xs n)
    then show ?thesis using pstep.batch_count [of ?u xs n] by (simp add: retail_upd tail_last split: if_splits)
  qed (use nr in simp_all)
qed

lemma pstep_reads_tail:
  assumes "pstep s s'" "reads_tail (prod s)"
  obtains (drop) x h where "prod s = P_Push1 x h"
      "s' = s\<lparr>ring := (ring s)\<lparr>rb_dropped := rb_dropped (ring s) + 1\<rparr>, prod := P_Idle, lost := lost s + 1\<rparr>"
    | (quiet) p where "s' = s\<lparr>prod := p\<rparr>" "pending p = pending (prod s)"
  using assms by cases auto

lemma stale_pstep_inv:
  assumes st: "pstep s s'" and inv: "spsc_inv r0 s" and u: "spsc_inv r0 (retail T g q s)"
    and len: "length (got s) \<le> length g"
  shows "spsc_inv r0 (retail T g q s')"
proof (cases "reads_tail (prod s)")
  case False
  with st u show ?thesis by (blast intro: pstep_retail pstep_inv)
next
  case True
  let ?r = "(ring s)\<lparr>rb_tail := T\<rparr>"
  have "length (got s @ rb_contents (ring s)) = length (g @ rb_contents ?r)"
    using inv u by (simp add: spsc_inv_def)
  then have "cons_eff (ring s) ?r" using u len by (simp add: cons_eff_def spsc_inv_def)
  note stable = prod_inv_stable [OF _ this]
  from st True show ?thesis
  proof (cases rule: pstep_reads_tail)
    case (drop x h)
    with u show ?thesis
      by (intro spsc_inv_prodI [OF u, where ys = "[]"])
         (use prod_eff_dropped [of ?r] in \<open>auto simp: spsc_inv_def tail_last\<close>)
  next
    case (quiet p)
    have "prod_inv (ring s) p" using pstep_inv [OF st inv] quiet by (simp add: spsc_inv_def)
    then have "prod_inv ?r p" using inv by (intro stable) (simp_all add: spsc_inv_def)
    with quiet u show ?thesis
      by (intro spsc_inv_prodI [OF u, where ys = "[]"]) (auto simp: spsc_inv_def prod_eff_refl)
  qed
qed

section \<open>A consumer step under a stale head\<close>

text \<open>
  The state that differs from \<open>s\<close> by what the producer has done meanwhile: other data, head and
  drop counter.
\<close>

definition rehead :: "spsc \<Rightarrow> spsc \<Rightarrow> spsc" where
  "rehead u s = s\<lparr>ring := (ring u)\<lparr>rb_tail := rb_tail (ring s)\<rparr>, prod := prod u, sent := sent u,
     offered := offered u, lost := lost u\<rparr>"

lemma rehead_simps [simp]:
  "ring (rehead u s) = (ring u)\<lparr>rb_tail := rb_tail (ring s)\<rparr>" "prod (rehead u s) = prod u"
  "cons (rehead u s) = cons s" "sent (rehead u s) = sent u" "got (rehead u s) = got s"
  "offered (rehead u s) = offered u" "lost (rehead u s) = lost u"
  by (simp_all add: rehead_def)

lemma cstep_stores_rehead:
  assumes "cstep s s'" "cons_stores (ring s) (cons s) \<noteq> []" "rb_mask (ring u) = rb_mask (ring s)"
  shows "cstep (rehead u s) (rehead u s')"
  using assms
  by (cases s rule: spsc.cases) (elim cstep.cases; simp add: cstep.simps rehead_def split: if_splits)

lemma stale_cstep_inv:
  assumes st: "cstep s s'" and inv: "spsc_inv r0 s" and u: "spsc_inv r0 (rehead u s)"
    and new: "prefix (sent s) (sent u)"
  shows "spsc_inv r0 (rehead u s')"
proof -
  have mask: "rb_mask (ring u) = rb_mask (ring s)"
    using inv u by (simp add: spsc_inv_def rb_wf_def)
  show ?thesis
  proof (cases "cons_stores (ring s) (cons s) = []")
    case False
    show ?thesis using cstep_inv [OF cstep_stores_rehead [OF st False mask] u] .
  next
    case True
    with cstep_stores [OF st] have s': "s' = s\<lparr>cons := cons s'\<rparr>" by simp
    then have same: "ring s' = ring s" "got s' = got s" by (metis spsc.select_convs spsc.surjective spsc.update_convs)+
    let ?r = "(ring u)\<lparr>rb_tail := rb_tail (ring s)\<rparr>"
    obtain ys where "sent u = sent s @ ys" using new by (auto simp: prefix_def)
    then have "got s @ rb_contents ?r = got s @ (rb_contents (ring s) @ ys)"
      using inv u by (simp add: spsc_inv_def flip: append_assoc)
    then have "rb_contents ?r = rb_contents (ring s) @ ys" by simp
    then have "prod_eff (ring s) ?r" using inv u mask by (auto simp: prod_eff_def spsc_inv_def)
    moreover have "cons_inv (ring s) (cons s')" using cstep_inv [OF st inv] same by (simp add: spsc_inv_def)
    ultimately have "cons_inv ?r (cons s')" by (rule cons_inv_stable)
    with u same show ?thesis by (simp add: spsc_inv_def)
  qed
qed

lemma pstep_frame_cons:
  assumes "pstep s s'"
  shows "pstep (s\<lparr>cons := q\<rparr>) (s'\<lparr>cons := q\<rparr>)"
  using assms by (cases s rule: spsc.cases) (elim pstep.cases; simp add: pstep.simps)

lemma cstep_frame_prod:
  assumes "cstep s s'"
  shows "cstep (s\<lparr>prod := p, offered := k\<rparr>) (s'\<lparr>prod := p, offered := k\<rparr>)"
  using assms by (cases s rule: spsc.cases) (elim cstep.cases; simp add: cstep.simps)

section \<open>The invariant of the machine\<close>

text \<open>
  Memory after some of the pending stores of either thread: every state the machine can be in
  while the buffers drain. Each of them satisfies the invariant of the interleaving model, for an
  idle thread as long as stores of that thread are missing and for the thread's own program counter
  once they are all there.
\<close>

definition snap :: "store list \<Rightarrow> store list \<Rightarrow> spsc \<Rightarrow> spsc" where
  "snap b c m = fold apply_store c (fold apply_store b m)"

definition obs :: "prod_pc \<Rightarrow> cons_pc \<Rightarrow> spsc \<Rightarrow> spsc" where
  "obs p q s = s\<lparr>prod := p, cons := q, offered := length (sent s) + lost s + pending p\<rparr>"

definition tso_inv :: "ring_buffer_t \<Rightarrow> tso \<Rightarrow> bool" where
  "tso_inv r0 t \<longleftrightarrow> list_all prod_store (pbuf t) \<and> list_all (\<lambda>st. \<not> prod_store st) (cbuf t)
     \<and> offered (mem t) = length (sent (pview t)) + lost (pview t) + pending (prod (mem t))
     \<and> (\<forall>b c. prefix b (pbuf t) \<longrightarrow> prefix c (cbuf t) \<longrightarrow>
          spsc_inv r0 (obs (if b = pbuf t then prod (mem t) else P_Idle)
                           (if c = cbuf t then cons (mem t) else C_Idle) (snap b c (mem t))))"

lemma obs_upd [simp]:
  "obs p q (s\<lparr>prod := p'\<rparr>) = obs p q s" "obs p q (s\<lparr>cons := q'\<rparr>) = obs p q s"
  "obs p q (s\<lparr>offered := k\<rparr>) = obs p q s"
  by (simp_all add: obs_def)

lemma obs_simps [simp]:
  "ring (obs p q s) = ring s" "sent (obs p q s) = sent s" "got (obs p q s) = got s"
  "lost (obs p q s) = lost s" "prod (obs p q s) = p" "cons (obs p q s) = q"
  "offered (obs p q s) = length (sent s) + lost s + pending p"
  by (simp_all add: obs_def)

lemma obs_idle:
  "spsc_inv r0 (obs p q s) \<Longrightarrow> spsc_inv r0 (obs P_Idle q s)"
  "spsc_inv r0 (obs p q s) \<Longrightarrow> spsc_inv r0 (obs p C_Idle s)"
  by (simp_all add: spsc_inv_def)

lemma obs_self: "spsc_inv r0 s \<Longrightarrow> obs (prod s) (cons s) s = s"
  by (simp add: obs_def spsc_inv_def)

lemma snap_upd [simp]:
  "snap b c (m\<lparr>prod := p\<rparr>) = (snap b c m)\<lparr>prod := p\<rparr>"
  "snap b c (m\<lparr>cons := q\<rparr>) = (snap b c m)\<lparr>cons := q\<rparr>"
  "snap b c (m\<lparr>offered := k\<rparr>) = (snap b c m)\<lparr>offered := k\<rparr>"
  by (simp_all add: snap_def)

text \<open>Draining the consumer's buffer advances the tail and hands over samples.\<close>

fun ctail :: "store list \<Rightarrow> u32 \<Rightarrow> u32" where
  "ctail (St_Tail w ys # c) t = ctail c w"
| "ctail (_ # c) t = ctail c t"
| "ctail [] t = t"

fun cgot :: "store list \<Rightarrow> adc_sample_t list" where
  "cgot (St_Tail w ys # c) = ys @ cgot c"
| "cgot (_ # c) = cgot c"
| "cgot [] = []"

lemma fold_cons_stores:
  "list_all (\<lambda>st. \<not> prod_store st) c \<Longrightarrow>
     fold apply_store c s = retail (ctail c (rb_tail (ring s))) (got s @ cgot c) (cons s) s"
proof (induction c arbitrary: s)
  case (Cons st c)
  then show ?case by (cases st) (simp_all add: retail_def)
qed (simp add: retail_def)

lemma fold_prod_stores_frame:
  "list_all prod_store b \<Longrightarrow> rb_tail (ring (fold apply_store b s)) = rb_tail (ring s)
     \<and> got (fold apply_store b s) = got s"
proof (induction b arbitrary: s)
  case (Cons st b)
  then show ?case by (cases st) simp_all
qed simp

lemma fold_prod_stores_sent:
  "prefix (sent s) (sent (fold apply_store b s))"
proof (induction b arbitrary: s)
  case (Cons st b)
  have "prefix (sent s) (sent (apply_store st s))" by (cases st) simp_all
  also have "prefix \<dots> (sent (fold apply_store b (apply_store st s)))" by (rule Cons.IH)
  finally show ?case by simp
qed simp

lemma rehead_stores:
  "list_all (\<lambda>st. \<not> prod_store st) c \<Longrightarrow> rehead u (fold apply_store c s) = fold apply_store c (rehead u s)"
proof (induction c arbitrary: s)
  case (Cons st c)
  then have "rehead u (apply_store st s) = apply_store st (rehead u s)"
    by (cases st) (simp_all add: rehead_def)
  with Cons show ?case by simp
qed simp

lemma prod_stores_kind: "list_all prod_store (prod_stores r p)"
  by (cases p) simp_all

lemma cons_stores_kind: "list_all (\<lambda>st. \<not> prod_store st) (cons_stores r q)"
  by (cases q) simp_all

lemma prod_stores_short: "length (prod_stores r p) \<le> 1"
  by (cases p) simp_all

lemma cons_stores_short: "length (cons_stores r q) \<le> 1"
  by (cases q) simp_all

lemma prefix_snoc_cases:
  assumes "prefix b (xs @ ys)" "length ys \<le> 1" "b \<noteq> xs @ ys"
  shows "prefix b xs"
  using assms by (cases ys) auto

lemma list_all_prefix: "prefix b xs \<Longrightarrow> list_all P xs \<Longrightarrow> list_all P b"
  by (auto simp: prefix_def)


lemma tso_invD:
  assumes "tso_inv r0 t" "prefix b (pbuf t)" "prefix c (cbuf t)"
  shows "spsc_inv r0 (obs (if b = pbuf t then prod (mem t) else P_Idle)
           (if c = cbuf t then cons (mem t) else C_Idle) (snap b c (mem t)))"
    and "spsc_inv r0 (obs P_Idle (if c = cbuf t then cons (mem t) else C_Idle) (snap b c (mem t)))"
    and "spsc_inv r0 (obs (if b = pbuf t then prod (mem t) else P_Idle) C_Idle (snap b c (mem t)))"
proof -
  show "spsc_inv r0 (obs (if b = pbuf t then prod (mem t) else P_Idle)
           (if c = cbuf t then cons (mem t) else C_Idle) (snap b c (mem t)))"
    using assms unfolding tso_inv_def by blast
  then show "spsc_inv r0 (obs P_Idle (if c = cbuf t then cons (mem t) else C_Idle) (snap b c (mem t)))"
    and "spsc_inv r0 (obs (if b = pbuf t then prod (mem t) else P_Idle) C_Idle (snap b c (mem t)))"
    by (rule obs_idle)+
qed

lemma tso_invI:
  assumes "list_all prod_store (pbuf t)" "list_all (\<lambda>st. \<not> prod_store st) (cbuf t)"
    and "offered (mem t) = length (sent (pview t)) + lost (pview t) + pending (prod (mem t))"
    and "\<And>b c. prefix b (pbuf t) \<Longrightarrow> prefix c (cbuf t) \<Longrightarrow>
          spsc_inv r0 (obs (if b = pbuf t then prod (mem t) else P_Idle)
                           (if c = cbuf t then cons (mem t) else C_Idle) (snap b c (mem t)))"
  shows "tso_inv r0 t"
  using assms unfolding tso_inv_def by blast

lemma tso_prod_step:
  assumes inv: "tso_inv r0 t" and st: "pstep (pview t) s'" and c: "prefix c (cbuf t)"
    and q: "q = (if c = cbuf t then cons (mem t) else C_Idle)"
  shows "spsc_inv r0 (obs (prod s') q (snap (pbuf t @ prod_stores (ring (pview t)) (prod (mem t))) c (mem t)))"
    and "offered s' = length (sent s') + lost s' + pending (prod s')"
proof -
  let ?v = "pview t" and ?stores = "prod_stores (ring (pview t)) (prod (mem t))"
  let ?s = "?v\<lparr>cons := C_Idle\<rparr>" and ?s' = "s'\<lparr>cons := C_Idle\<rparr>"
  have kinds: "list_all (\<lambda>st. \<not> prod_store st) c"
    using inv c by (auto simp: tso_inv_def intro: list_all_prefix)
  have off: "offered ?v = length (sent ?v) + lost ?v + pending (prod ?v)"
    using inv by (simp add: tso_inv_def) (simp add: pview_def)
  have "obs (prod (mem t)) C_Idle (snap (pbuf t) [] (mem t)) = ?s"
    using off by (simp add: obs_def snap_def flip: pview_def) (simp add: pview_def)
  then have inv_s: "spsc_inv r0 ?s" using tso_invD(3) [OF inv, of "pbuf t" "[]"] by simp
  let ?T = "ctail c (rb_tail (ring ?v))" and ?g = "got ?v @ cgot c"
  have "obs (prod (mem t)) q (snap (pbuf t) c (mem t)) = retail ?T ?g q ?s"
    using off by (simp add: snap_def fold_cons_stores [OF kinds] flip: pview_def)
      (simp add: obs_def retail_def pview_def)
  then have u: "spsc_inv r0 (retail ?T ?g q ?s)" using tso_invD(1) [OF inv, of "pbuf t" c] c q by simp
  have s': "s' = (fold apply_store ?stores ?v)\<lparr>prod := prod s', offered := offered s'\<rparr>"
    using pstep_stores [OF st] by (simp add: pview_def)
  have frame: "rb_tail (ring s') = rb_tail (ring ?v)" "got s' = got ?v"
    using fold_prod_stores_frame [OF prod_stores_kind, of "ring ?v" "prod (mem t)" ?v]
    by (subst s', simp)+
  have step: "pstep ?s ?s'" using st by (rule pstep_frame_cons)
  have new: "spsc_inv r0 (retail ?T ?g q ?s')"
    using stale_pstep_inv [OF step inv_s u] by simp
  then show off': "offered s' = length (sent s') + lost s' + pending (prod s')"
    by (simp add: spsc_inv_def)
  have "snap (pbuf t @ ?stores) c (mem t) = fold apply_store c (fold apply_store ?stores ?v)"
    by (simp add: snap_def pview_def)
  then have "obs (prod s') q (snap (pbuf t @ ?stores) c (mem t))
      = obs (prod s') q (fold apply_store c ((fold apply_store ?stores ?v)\<lparr>prod := prod s', offered := offered s'\<rparr>))"
    by simp
  also have "\<dots> = obs (prod s') q (fold apply_store c s')" using s' by simp
  also have "\<dots> = retail ?T ?g q ?s'"
    using off' by (simp add: fold_cons_stores [OF kinds] frame obs_def retail_def)
  finally show "spsc_inv r0 (obs (prod s') q (snap (pbuf t @ ?stores) c (mem t)))" using new by simp
qed

lemma tso_cons_step:
  assumes inv: "tso_inv r0 t" and st: "cstep (cview t) s'" and b: "prefix b (pbuf t)"
    and p: "p = (if b = pbuf t then prod (mem t) else P_Idle)"
  shows "spsc_inv r0 (obs p (cons s') (snap b (cbuf t @ cons_stores (ring (cview t)) (cons (mem t))) (mem t)))"
proof -
  let ?v = "cview t" and ?stores = "cons_stores (ring (cview t)) (cons (mem t))"
  let ?s = "obs P_Idle (cons (mem t)) ?v" and ?u = "obs p (cons (mem t)) (snap b (cbuf t) (mem t))"
  have kinds: "list_all prod_store b" "list_all (\<lambda>st. \<not> prod_store st) (cbuf t)"
    using inv b by (auto simp: tso_inv_def intro: list_all_prefix)
  have inv_s: "spsc_inv r0 ?s" using tso_invD(2) [OF inv, of "[]" "cbuf t"] by (simp add: snap_def cview_def)
  have snap: "snap b (cbuf t) (mem t) = fold apply_store b ?v"
    using fold_store_commute [OF kinds] by (simp add: snap_def cview_def)
  have u: "spsc_inv r0 ?u" using tso_invD(1) [OF inv, of b "cbuf t"] b p by simp
  have cons: "cons ?v = cons (mem t)" by (simp add: cview_def)
  have "rehead ?u ?s = ?u"
    using fold_prod_stores_frame [OF kinds(1), of ?v] by (simp add: rehead_def snap obs_def)
  then have ru: "spsc_inv r0 (rehead ?u ?s)" using u by simp
  have step: "cstep ?s (s'\<lparr>prod := P_Idle, offered := offered ?s\<rparr>)"
    using cstep_frame_prod [OF st, where p = P_Idle and k = "offered ?s"] cons
    by (cases ?v rule: spsc.cases) (simp add: obs_def)
  have new: "spsc_inv r0 (rehead ?u (s'\<lparr>prod := P_Idle, offered := offered ?s\<rparr>))"
    by (rule stale_cstep_inv [OF step inv_s ru]) (simp add: snap fold_prod_stores_sent)
  have s': "s' = (fold apply_store ?stores ?v)\<lparr>cons := cons s'\<rparr>"
    using cstep_stores [OF st] cons by simp
  have "rehead ?u (s'\<lparr>prod := P_Idle, offered := offered ?s\<rparr>)
      = (rehead ?u (fold apply_store ?stores ?s))\<lparr>cons := cons s'\<rparr>"
    by (subst s') (simp add: rehead_def obs_def)
  also have "rehead ?u (fold apply_store ?stores ?s) = fold apply_store ?stores ?u"
    using rehead_stores [OF cons_stores_kind] \<open>rehead ?u ?s = ?u\<close> by simp
  finally have "spsc_inv r0 ((fold apply_store ?stores ?u)\<lparr>cons := cons s'\<rparr>)" using new by simp
  moreover have "(fold apply_store ?stores ?u)\<lparr>cons := cons s'\<rparr>
      = obs p (cons s') (snap b (cbuf t @ ?stores) (mem t))"
    by (simp add: snap_def fold_cons_stores [OF cons_stores_kind] obs_def retail_def)
  ultimately show ?thesis by simp
qed


lemma tso_inv_prod:
  assumes inv: "tso_inv r0 t" and st: "pstep (pview t) s'"
  shows "tso_inv r0 (t\<lparr>mem := (mem t)\<lparr>prod := prod s', offered := offered s'\<rparr>,
           pbuf := pbuf t @ prod_stores (ring (pview t)) (prod (mem t))\<rparr>)" (is "tso_inv r0 ?t'")
proof -
  let ?stores = "prod_stores (ring (pview t)) (prod (mem t))"
  note new = tso_prod_step [OF inv st]
  have "s' = (fold apply_store ?stores (pview t))\<lparr>prod := prod s', offered := offered s'\<rparr>"
    using pstep_stores [OF st] by (simp add: pview_def)
  then have "pview ?t' = s'" by (simp add: pview_def)
  then have off: "offered (mem ?t') = length (sent (pview ?t')) + lost (pview ?t') + pending (prod (mem ?t'))"
    using new(2) [of "[]"] by simp
  have "spsc_inv r0 (obs (if b = pbuf ?t' then prod (mem ?t') else P_Idle)
          (if c = cbuf ?t' then cons (mem ?t') else C_Idle) (snap b c (mem ?t')))"
    if b: "prefix b (pbuf ?t')" and c: "prefix c (cbuf ?t')" for b c
  proof (cases "b = pbuf ?t'")
    case True
    then show ?thesis using new(1) [OF _ refl, of c] c by (simp split del: if_split cong: if_cong)
  next
    case False
    then have "prefix b (pbuf t)" using b
      prefix_snoc_cases [of b "pbuf t", OF _ prod_stores_short] by simp
    then show ?thesis using tso_invD(2) [OF inv, of b c] c False by (simp split del: if_split cong: if_cong)
  qed
  then show ?thesis using inv off prod_stores_kind unfolding tso_inv_def by auto
qed

lemma tso_inv_cons:
  assumes inv: "tso_inv r0 t" and st: "cstep (cview t) s'"
  shows "tso_inv r0 (t\<lparr>mem := (mem t)\<lparr>cons := cons s'\<rparr>,
           cbuf := cbuf t @ cons_stores (ring (cview t)) (cons (mem t))\<rparr>)" (is "tso_inv r0 ?t'")
proof -
  note new = tso_cons_step [OF inv st]
  have "spsc_inv r0 (obs (if b = pbuf ?t' then prod (mem ?t') else P_Idle)
          (if c = cbuf ?t' then cons (mem ?t') else C_Idle) (snap b c (mem ?t')))"
    if b: "prefix b (pbuf ?t')" and c: "prefix c (cbuf ?t')" for b c
  proof (cases "c = cbuf ?t'")
    case True
    then show ?thesis using new [OF _ refl, of b] b by (simp split del: if_split cong: if_cong)
  next
    case False
    then have "prefix c (cbuf t)" using c
      prefix_snoc_cases [of c "cbuf t", OF _ cons_stores_short] by simp
    then show ?thesis using tso_invD(3) [OF inv, of b c] b False by (simp split del: if_split cong: if_cong)
  qed
  then show ?thesis using inv cons_stores_kind unfolding tso_inv_def by (auto simp: pview_def)
qed

lemma tso_inv_flush_prod:
  assumes inv: "tso_inv r0 t" and b: "pbuf t = st # b0"
  shows "tso_inv r0 (t\<lparr>mem := apply_store st (mem t), pbuf := b0\<rparr>)"
proof -
  have "snap b c (apply_store st m) = snap (st # b) c m" for b c m by (simp add: snap_def)
  then show ?thesis using inv b tso_invD(1) [OF inv, of "st # _"]
    by (intro tso_invI) (simp_all add: tso_inv_def pview_def split del: if_split cong: if_cong)
qed

lemma tso_inv_flush_cons:
  assumes inv: "tso_inv r0 t" and c: "cbuf t = st # c0"
  shows "tso_inv r0 (t\<lparr>mem := apply_store st (mem t), cbuf := c0\<rparr>)"
proof -
  have k: "\<not> prod_store st" "list_all prod_store (pbuf t)" using inv c by (auto simp: tso_inv_def)
  have com: "fold apply_store b (apply_store st m) = apply_store st (fold apply_store b m)"
    if "prefix b (pbuf t)" for b m
    using fold_store_commute [of b "[st]"] k list_all_prefix [OF that k(2)] by simp
  then have "snap b c (apply_store st m) = snap b (st # c) m" if "prefix b (pbuf t)" for b c m
    using that by (simp add: snap_def)
  moreover have "sent (apply_store st s) = sent s" "lost (apply_store st s) = lost s" for s
    using k(1) by (cases st; simp)+
  ultimately show ?thesis
    using inv c tso_invD(1) [OF inv, of _ "st # _"] com [of "pbuf t"]
    by (intro tso_invI) (simp_all add: tso_inv_def pview_def split del: if_split cong: if_cong)
qed

lemma tso_inv_init: "rb_wf r \<Longrightarrow> rb_contents r = [] \<Longrightarrow> tso_inv r (tso_init r)"
  using spsc_inv_init [of r]
  by (simp add: tso_inv_def tso_init_def pview_def snap_def obs_def spsc_init_def)

lemma treach_inv:
  assumes "treach r t" "rb_wf r" "rb_contents r = []"
  shows "tso_inv r t"
  using assms(1)
proof (induction rule: treach.induct)
  case start
  show ?case using assms(2,3) by (rule tso_inv_init)
next
  case (step t t')
  from step(2,3) show ?case
    by (cases rule: tstep.cases)
       (auto intro: tso_inv_prod tso_inv_cons tso_inv_flush_prod tso_inv_flush_cons)
qed


section \<open>Properties\<close>

lemma flushed_snap: "flushed t = snap (pbuf t) (cbuf t) (mem t)"
  by (simp add: flushed_def snap_def)

lemma flushed_views:
  assumes "tso_inv r t"
  shows "sent (flushed t) = sent (pview t)" "lost (flushed t) = lost (pview t)"
    "got (flushed t) = got (cview t)" "rb_dropped (ring (flushed t)) = rb_dropped (ring (pview t))"
proof -
  have k: "list_all prod_store (pbuf t)" "list_all (\<lambda>st. \<not> prod_store st) (cbuf t)"
    using assms by (simp_all add: tso_inv_def)
  show "sent (flushed t) = sent (pview t)" "lost (flushed t) = lost (pview t)"
    "rb_dropped (ring (flushed t)) = rb_dropped (ring (pview t))"
    by (simp_all add: flushed_def pview_def fold_cons_stores [OF k(2)])
  show "got (flushed t) = got (cview t)"
    using fold_prod_stores_frame [OF k(1)] fold_store_commute [OF k] by (simp add: flushed_def cview_def)
qed

lemma tso_prod_progress:
  assumes inv: "tso_inv r t" and p: "prod (mem t) \<noteq> P_Idle"
  shows "\<exists>s'. pstep (pview t) s'"
proof -
  let ?s = "obs (prod (mem t)) C_Idle (pview t)"
  have "spsc_inv r ?s" using tso_invD(3) [OF inv, of "pbuf t" "[]"] by (simp add: snap_def pview_def)
  then obtain s' where "pstep ?s s'" using pstep_progress p by fastforce
  then have "pstep (?s\<lparr>cons := cons (mem t)\<rparr>) (s'\<lparr>cons := cons (mem t)\<rparr>)" by (rule pstep_frame_cons)
  moreover have "?s\<lparr>cons := cons (mem t)\<rparr> = pview t"
  proof -
    have "offered (pview t) = length (sent (pview t)) + lost (pview t) + pending (prod (mem t))"
      "prod (pview t) = prod (mem t)" "cons (pview t) = cons (mem t)"
      using inv by (simp_all add: tso_inv_def pview_def)
    then show ?thesis by (cases "pview t" rule: spsc.cases) (simp add: obs_def)
  qed
  ultimately show ?thesis by metis
qed

lemma tso_cons_progress:
  assumes inv: "tso_inv r t" and q: "cons (mem t) \<noteq> C_Idle"
  shows "\<exists>s'. cstep (cview t) s'"
proof -
  let ?s = "obs P_Idle (cons (mem t)) (cview t)"
  have "spsc_inv r ?s" using tso_invD(2) [OF inv, of "[]" "cbuf t"] by (simp add: snap_def cview_def)
  then obtain s' where "cstep ?s s'" using cstep_progress q by fastforce
  then have "cstep (?s\<lparr>prod := prod (mem t), offered := offered (mem t)\<rparr>)
      (s'\<lparr>prod := prod (mem t), offered := offered (mem t)\<rparr>)" by (rule cstep_frame_prod)
  moreover have "?s\<lparr>prod := prod (mem t), offered := offered (mem t)\<rparr> = cview t"
  proof -
    have "offered (cview t) = offered (mem t)" "prod (cview t) = prod (mem t)" "cons (cview t) = cons (mem t)"
      by (simp_all add: cview_def)
    then show ?thesis by (cases "cview t" rule: spsc.cases) (simp add: obs_def)
  qed
  ultimately show ?thesis by metis
qed

text \<open>Every run of the interleaving model is a run of the machine that flushes at once.\<close>

lemma treach_sc_prod:
  assumes "treach r \<lparr>mem = s, pbuf = [], cbuf = []\<rparr>" "pstep s s'"
  shows "treach r \<lparr>mem = s', pbuf = [], cbuf = []\<rparr>"
proof -
  let ?st = "prod_stores (ring s) (prod s)"
  have s': "s' = fold apply_store ?st (s\<lparr>prod := prod s', offered := offered s'\<rparr>)"
    using pstep_stores [OF assms(2)] by simp
  have 1: "treach r \<lparr>mem = s\<lparr>prod := prod s', offered := offered s'\<rparr>, pbuf = ?st, cbuf = []\<rparr>" (is "treach r ?t")
    using treach.step [OF assms(1) tstep.t_prod, of s'] assms(2) by (simp add: pview_def)
  show ?thesis
  proof (cases ?st)
    case Nil
    then show ?thesis using 1 s' by simp
  next
    case (Cons st b)
    then have b: "?st = [st]" using prod_stores_short [of "ring s" "prod s"] by simp
    from treach.step [OF 1 tstep.flush_prod, of st "[]"] b s' show ?thesis by simp
  qed
qed

lemma treach_sc_cons:
  assumes "treach r \<lparr>mem = s, pbuf = [], cbuf = []\<rparr>" "cstep s s'"
  shows "treach r \<lparr>mem = s', pbuf = [], cbuf = []\<rparr>"
proof -
  let ?st = "cons_stores (ring s) (cons s)"
  have s': "s' = fold apply_store ?st (s\<lparr>cons := cons s'\<rparr>)"
    using cstep_stores [OF assms(2)] by simp
  have 1: "treach r \<lparr>mem = s\<lparr>cons := cons s'\<rparr>, pbuf = [], cbuf = ?st\<rparr>" (is "treach r ?t")
    using treach.step [OF assms(1) tstep.t_cons, of s'] assms(2) by (simp add: cview_def)
  show ?thesis
  proof (cases ?st)
    case Nil
    then show ?thesis using 1 s' by simp
  next
    case (Cons st b)
    then have b: "?st = [st]" using cons_stores_short [of "ring s" "cons s"] by simp
    from treach.step [OF 1 tstep.flush_cons, of st "[]"] b s' show ?thesis by simp
  qed
qed

lemma reach_treach:
  assumes "reach r s"
  shows "treach r \<lparr>mem = s, pbuf = [], cbuf = []\<rparr>"
  using assms
proof (induction rule: reach.induct)
  case start
  show ?case using treach.start [of r] by (simp add: tso_init_def)
qed (auto intro: treach_sc_prod treach_sc_cons)


text \<open>
  A concrete run with pending stores: the producer of \<open>demo_run\<close> has stored its second sample
  and published it, and neither store has reached memory.
\<close>

definition demo_tso :: tso where
  "demo_tso = \<lparr>mem = demo_run\<lparr>prod := P_Idle\<rparr>,
     pbuf = [St_Cell 1 (demo_sample 2), St_Head 2 [demo_sample 2]], cbuf = []\<rparr>"

lemma demo_treach: "treach fresh_ring demo_tso"
proof -
  let ?t0 = "\<lparr>mem = demo_run, pbuf = [], cbuf = []\<rparr>"
  let ?b = "(rb_buffer (ring demo_run))[1 := demo_sample 2]"
  let ?m1 = "demo_run\<lparr>prod := P_Push3 (demo_sample 2) 2\<rparr>"
  let ?t1 = "\<lparr>mem = ?m1, pbuf = [St_Cell 1 (demo_sample 2)], cbuf = []\<rparr>"
  have "pstep (pview ?t0) (demo_run\<lparr>ring := (ring demo_run)\<lparr>rb_buffer := ?b\<rparr>, prod := P_Push3 (demo_sample 2) 2\<rparr>)"
    using pstep.push_write [of demo_run "demo_sample 2" 1 2 ?b]
    by (simp add: pview_def demo_run_def fresh_ring_def mem_write_single)
  from treach.step [OF reach_treach [OF demo_reach] tstep.t_prod [OF this]]
  have 1: "treach fresh_ring ?t1" by (simp add: pview_def demo_run_def)
  have "pstep (pview ?t1) ((pview ?t1)\<lparr>ring := (ring (pview ?t1))\<lparr>rb_head := 2\<rparr>, prod := P_Idle,
      sent := sent (pview ?t1) @ [demo_sample 2]\<rparr>)"
    by (rule pstep.push_publish) (simp add: pview_def)
  from treach.step [OF 1 tstep.t_prod [OF this]]
  show ?thesis by (simp add: pview_def demo_tso_def demo_run_def)
qed

text \<open>
  C8. The ring under total store order: after any run of the two threads with store buffers that
  drain at any time, the samples the consumer has taken, followed by what the ring will hold when
  the buffers are flushed, are exactly the samples the producer published, in order; memory itself
  is a well-formed ring consistent with the flushed history at every moment; between two calls of the
  producer every offered sample is received, stored or counted as dropped; and a call in
  progress can always take its next step.
\<close>

theorem tso_fifo_order:
  assumes "treach r t" "rb_wf r" "rb_contents r = []"
  shows "got (cview t) @ rb_contents (ring (flushed t)) = sent (pview t)
    \<and> rb_wf (ring (mem t)) \<and> got (mem t) @ rb_contents (ring (mem t)) = sent (mem t)
    \<and> (prod (mem t) = P_Idle \<longrightarrow>
         offered (mem t) = length (got (cview t)) + rb_len (ring (flushed t)) + lost (pview t)
         \<and> rb_dropped (ring (pview t)) = rb_dropped r + word_of_nat (lost (pview t)))
    \<and> (prod (mem t) \<noteq> P_Idle \<longrightarrow> (\<exists>s'. pstep (pview t) s'))
    \<and> (cons (mem t) \<noteq> C_Idle \<longrightarrow> (\<exists>s'. cstep (cview t) s'))"
proof -
  note inv = treach_inv [OF assms]
  note views = flushed_views [OF inv]
  have all: "got (cview t) @ rb_contents (ring (flushed t)) = sent (pview t)"
    "rb_dropped (ring (pview t)) = rb_dropped r + word_of_nat (lost (pview t))"
    using tso_invD(1) [OF inv, of "pbuf t" "cbuf t"]
    by (simp_all add: spsc_inv_def views flip: flushed_snap)
  then have len: "length (sent (pview t)) = length (got (cview t)) + rb_len (ring (flushed t))"
    by (metis length_append length_rb_contents)
  have none: "rb_wf (ring (mem t))" "got (mem t) @ rb_contents (ring (mem t)) = sent (mem t)"
    using tso_invD(1) [OF inv, of "[]" "[]"] by (simp_all add: spsc_inv_def snap_def)
  have off: "prod (mem t) = P_Idle \<longrightarrow>
      offered (mem t) = length (got (cview t)) + rb_len (ring (flushed t)) + lost (pview t)"
    using inv len by (simp add: tso_inv_def)
  show ?thesis using all none off tso_prod_progress [OF inv] tso_cons_progress [OF inv] by blast
qed

theorem tso_fifo_order_witness:
  "got (cview demo_tso) @ rb_contents (ring (flushed demo_tso)) = [demo_sample 1, demo_sample 2]
   \<and> got (mem demo_tso) @ rb_contents (ring (mem demo_tso)) = [demo_sample 1]"
  using tso_fifo_order [OF demo_treach demo_wf(2) demo_contents(3)]
  by (simp add: demo_tso_def demo_run_def pview_def)

section \<open>Reordered loads\<close>

text \<open>
  In \<^verbatim>\<open>ring_buffer_pop\<close> nothing orders the load of \<^verbatim>\<open>head\<close> before the load
  of \<^verbatim>\<open>buffer[tail]\<close>: the only barrier stands after both. A machine (or compiler) that
  may perform independent loads out of order can read the data first, keep it, and check
  \<^verbatim>\<open>head\<close> later. The second component is such an early load: the index and the value
  read. Everything else is as in the interleaving model.
\<close>

type_synonym early = "(u32 \<times> adc_sample_t) option"

inductive rstep :: "spsc \<times> early \<Rightarrow> spsc \<times> early \<Rightarrow> bool" where
  r_prod: "pstep s s' \<Longrightarrow> rstep (s, e) (s', e)"
| r_cons: "cstep s s' \<Longrightarrow> rstep (s, None) (s', None)"
| r_early: "cons s = C_Idle \<Longrightarrow> mem_read (rb_buffer (ring s)) (unat (rb_tail (ring s))) 1 = Some [x] \<Longrightarrow>
     rstep (s, None) (s, Some (rb_tail (ring s), x))"
| r_empty: "rb_head (ring s) = t \<Longrightarrow> rstep (s, Some (t, x)) (s, None)"
| r_some: "rb_head (ring s) \<noteq> t \<Longrightarrow> rstep (s, Some (t, x)) (s\<lparr>cons := C_Pop3 t x\<rparr>, None)"

lemma rstep_psteps: "pstep\<^sup>*\<^sup>* s s' \<Longrightarrow> rstep\<^sup>*\<^sup>* (s, e) (s', e)"
  by (induction rule: rtranclp_induct) (auto intro: rtranclp.rtrancl_into_rtrancl r_prod)

text \<open>
  C21. Without a barrier between the two loads the ring does not deliver what was pushed: on
  every empty ring there is a run in which the producer publishes one sample and the consumer's
  \<^verbatim>\<open>ring_buffer_pop\<close> returns true with the old contents of the slot.
\<close>

theorem pop_reordered_returns_stale:
  assumes "rb_wf r" "rb_contents r = []"
  shows "\<exists>s. rstep\<^sup>*\<^sup>* (spsc_init r, None) (s, None) \<and> sent s = [x] \<and> prod s = P_Idle \<and> cons s = C_Idle
    \<and> got s = [rb_buffer r ! unat (rb_tail r)]"
proof -
  let ?s0 = "spsc_init r" and ?t = "rb_tail r" and ?z = "rb_buffer r ! unat (rb_tail r)"
  note n = rb_wf_nat [OF assms(1)]
  have "length (rb_contents r) < rb_bound r" using assms n by (simp add: rb_bound_def)
  then obtain r' where op: "ring_buffer_push (Some r) (Some x) = Some (True, Some r')" and wf': "rb_wf r'"
    and c': "rb_contents r' = [x]" using rbq.push_law [OF assms(1), of x] assms(2) by auto
  let ?s1 = "?s0\<lparr>ring := r', offered := 1, sent := [x]\<rparr>"
  have tail: "rb_tail r' = ?t" using op by (auto simp: ring_buffer_push_def Let_def bind_eq_Some_conv split: if_splits)
  have "length (rb_contents r') = 1" using c' by simp
  then have ne: "rb_head r' \<noteq> ?t" using rb_empty_iff [OF wf'] tail by simp
  have "rstep (?s0, None) (?s0, Some (?t, ?z))"
    using r_early [of ?s0 ?z] n by (simp add: spsc_init_def mem_read_single)
  also have "rstep\<^sup>*\<^sup>* (?s0, Some (?t, ?z)) (?s1, Some (?t, ?z))"
    using solo_push [of ?s0 x True r'] op assms(1) by (intro rstep_psteps) (simp add: spsc_init_def)
  also have "rstep (?s1, Some (?t, ?z)) (?s1\<lparr>cons := C_Pop3 ?t ?z\<rparr>, None)" using r_some [of ?s1] ne by simp
  also have "rstep (?s1\<lparr>cons := C_Pop3 ?t ?z\<rparr>, None) (?s1\<lparr>ring := r'\<lparr>rb_tail := (?t + 1) AND rb_mask r'\<rparr>,
      got := [?z]\<rparr>, None)"
    using r_cons [OF cstep.pop_publish [of "?s1\<lparr>cons := C_Pop3 ?t ?z\<rparr>" ?t ?z]] by (simp add: spsc_init_def)
  finally have "rstep\<^sup>*\<^sup>* (?s0, None) (?s1\<lparr>ring := r'\<lparr>rb_tail := (?t + 1) AND rb_mask r'\<rparr>, got := [?z]\<rparr>, None)" .
  then show ?thesis
    by (intro exI [of _ "?s1\<lparr>ring := r'\<lparr>rb_tail := (?t + 1) AND rb_mask r'\<rparr>, got := [?z]\<rparr>"])
       (simp add: spsc_init_def)
qed

theorem pop_reordered_returns_stale_witness:
  "\<exists>s. rstep\<^sup>*\<^sup>* (spsc_init fresh_ring, None) (s, None) \<and> sent s = [demo_sample 7] \<and> got s = [blank_sample]
     \<and> demo_sample 7 \<noteq> blank_sample"
  using pop_reordered_returns_stale [OF demo_wf(2) demo_contents(3), of "demo_sample 7"]
  by (auto simp: fresh_ring_def demo_sample_def blank_sample_def)

end
