(* ===== verification/Spsc_Pipeline.thy ===== *)
theory Spsc_Pipeline
  imports Ring_Properties "HOL-Library.Sublist"
begin

text \<open>
  Both rings of the pipeline under their three threads, one memory access at a time. The thread of
  the ADC simulator pushes single samples into the first ring (\<^verbatim>\<open>adc_sample_callback\<close>), the
  processing thread pops a batch of up to 256 samples from it into an array on its stack and pushes
  the array as one batch into the second ring (\<^verbatim>\<open>process_thread_worker\<close>), and the network
  thread pops batches from the second ring (\<^verbatim>\<open>network_thread_worker\<close>), all in
  \<^verbatim>\<open>src/thread/thread_workers.c\<close>. The rings are those of theory \<open>Spsc\<close>; the
  processing thread is the consumer of the one and the producer of the other.

  The theory shows that the two rings in a row deliver in order and that nothing is lost
  uncounted, whatever the interleaving of the accesses.
\<close>

section \<open>The machine\<close>

text \<open>
  \<open>held\<close> is the array on the stack of the processing worker between its two calls. \<open>fed\<close> and
  \<open>passed\<close> are histories: the samples the callback was called with and the samples the
  processing worker has handed to the second ring.
\<close>

record stages =
  cap :: spsc
  net :: spsc
  held :: "adc_sample_t list"
  fed :: "adc_sample_t list"
  passed :: "adc_sample_t list"

inductive adc_step :: "stages \<Rightarrow> stages \<Rightarrow> bool" where
  adc_begin: "prod (cap s) = P_Idle \<Longrightarrow> pstep (cap s) c \<Longrightarrow> prod c = P_Push1 x h \<Longrightarrow>
     adc_step s (s\<lparr>cap := c, fed := fed s @ [x]\<rparr>)"
| adc_access: "prod (cap s) \<noteq> P_Idle \<Longrightarrow> pstep (cap s) c \<Longrightarrow> adc_step s (s\<lparr>cap := c\<rparr>)"

inductive process_step :: "stages \<Rightarrow> stages \<Rightarrow> bool" where
  pop_begin: "prod (net s) = P_Idle \<Longrightarrow> held s = [] \<Longrightarrow> cons (cap s) = C_Idle \<Longrightarrow> cstep (cap s) c \<Longrightarrow>
     cons c = C_Batch1 256 h \<Longrightarrow> process_step s (s\<lparr>cap := c\<rparr>)"
| pop_access: "cons (cap s) \<noteq> C_Idle \<Longrightarrow> cstep (cap s) c \<Longrightarrow>
     process_step s (s\<lparr>cap := c, held := drop (length (got (cap s))) (got c)\<rparr>)"
| push_begin: "held s \<noteq> [] \<Longrightarrow> cons (cap s) = C_Idle \<Longrightarrow> prod (net s) = P_Idle \<Longrightarrow> pstep (net s) n \<Longrightarrow>
     prod n = P_Batch1 (held s) h \<Longrightarrow>
     process_step s (s\<lparr>net := n, held := [], passed := passed s @ held s\<rparr>)"
| push_access: "prod (net s) \<noteq> P_Idle \<Longrightarrow> pstep (net s) n \<Longrightarrow> process_step s (s\<lparr>net := n\<rparr>)"

inductive network_step :: "stages \<Rightarrow> stages \<Rightarrow> bool" where
  net_begin: "cons (net s) = C_Idle \<Longrightarrow> cstep (net s) n \<Longrightarrow> cons n = C_Batch1 256 h \<Longrightarrow>
     network_step s (s\<lparr>net := n\<rparr>)"
| net_access: "cons (net s) \<noteq> C_Idle \<Longrightarrow> cstep (net s) n \<Longrightarrow> network_step s (s\<lparr>net := n\<rparr>)"

definition stages_init :: "ring_buffer_t \<Rightarrow> ring_buffer_t \<Rightarrow> stages" where
  "stages_init r1 r2 = \<lparr>cap = spsc_init r1, net = spsc_init r2, held = [], fed = [], passed = []\<rparr>"

inductive stages_reach :: "ring_buffer_t \<Rightarrow> ring_buffer_t \<Rightarrow> stages \<Rightarrow> bool" for r1 r2 where
  start: "stages_reach r1 r2 (stages_init r1 r2)"
| adc: "stages_reach r1 r2 s \<Longrightarrow> adc_step s s' \<Longrightarrow> stages_reach r1 r2 s'"
| process: "stages_reach r1 r2 s \<Longrightarrow> process_step s s' \<Longrightarrow> stages_reach r1 r2 s'"
| network: "stages_reach r1 r2 s \<Longrightarrow> network_step s s' \<Longrightarrow> stages_reach r1 r2 s'"

section \<open>What a producer still has to publish\<close>

fun todo :: "prod_pc \<Rightarrow> adc_sample_t list" where
  "todo P_Idle = []"
| "todo (P_Push1 x h) = [x]"
| "todo (P_Push2 x h nh) = [x]"
| "todo (P_Push3 x nh) = [x]"
| "todo (P_Batch1 xs h) = xs"
| "todo (P_Batch2 xs av) = xs"
| "todo (P_Copy xs h n i) = take (unat n) xs"
| "todo (P_Drop xs n) = []"

lemma subseq_take: "subseq (take n xs) xs" "subseq xs (xs @ ys)"
  by (simp_all add: prefix_imp_subseq take_is_prefix)

lemma subseq_both: "subseq xs ys \<Longrightarrow> subseq (zs @ xs) (zs @ ys)" "subseq xs ys \<Longrightarrow> subseq (xs @ zs) (ys @ zs)"
  by (simp_all add: list_emb_append_mono)

lemma pstep_todo: "pstep s s' \<Longrightarrow> prod s \<noteq> P_Idle \<Longrightarrow> subseq (sent s' @ todo (prod s')) (sent s @ todo (prod s))"
  by (erule pstep.cases) (simp_all add: subseq_take subseq_both)

lemma pstep_offered: "pstep s s' \<Longrightarrow> prod s \<noteq> P_Idle \<Longrightarrow> offered s' = offered s"
  by (erule pstep.cases) simp_all

lemma pstep_got: "pstep s s' \<Longrightarrow> got s' = got s"
  by (erule pstep.cases) simp_all

lemma pstep_begin:
  "pstep s s' \<Longrightarrow> prod s = P_Idle \<Longrightarrow> sent s' = sent s \<and> offered s' = offered s + length (todo (prod s'))"
  by (erule pstep.cases) simp_all

lemma cstep_histories:
  "cstep s s' \<Longrightarrow> prod s' = prod s \<and> sent s' = sent s \<and> offered s' = offered s \<and> (\<exists>ys. got s' = got s @ ys)"
  by (erule cstep.cases) simp_all

lemma cstep_got: "cstep s s' \<Longrightarrow> cons s' \<noteq> C_Idle \<Longrightarrow> got s' = got s"
  by (erule cstep.cases) simp_all

section \<open>The invariant\<close>

text \<open>
  The array of the processing worker holds the end of what the first ring has delivered; it is
  empty while a call on either ring is in progress.
\<close>

definition stages_inv :: "ring_buffer_t \<Rightarrow> ring_buffer_t \<Rightarrow> stages \<Rightarrow> bool" where
  "stages_inv r1 r2 s \<longleftrightarrow> spsc_inv r1 (cap s) \<and> spsc_inv r2 (net s)
     \<and> subseq (sent (cap s) @ todo (prod (cap s))) (fed s) \<and> offered (cap s) = length (fed s)
     \<and> subseq (sent (net s) @ todo (prod (net s))) (passed s) \<and> offered (net s) = length (passed s)
     \<and> got (cap s) = passed s @ held s
     \<and> (prod (net s) \<noteq> P_Idle \<or> cons (cap s) \<noteq> C_Idle \<longrightarrow> held s = [])
     \<and> (prod (net s) = P_Idle \<or> cons (cap s) = C_Idle)"

lemma stages_init_inv:
  assumes "rb_wf r1" "rb_contents r1 = []" "rb_wf r2" "rb_contents r2 = []"
  shows "stages_inv r1 r2 (stages_init r1 r2)"
  using spsc_inv_init [OF assms(1,2)] spsc_inv_init [OF assms(3,4)]
  by (simp add: stages_inv_def stages_init_def) (simp add: spsc_init_def)

lemma adc_step_inv:
  assumes "adc_step s s'" "stages_inv r1 r2 s"
  shows "stages_inv r1 r2 s'"
  using assms(1)
proof cases
  case (adc_begin c x h)
  note b = pstep_begin [OF adc_begin(3,2)]
  have "spsc_inv r1 c" using pstep_inv [OF adc_begin(3)] assms(2) by (simp add: stages_inv_def)
  moreover have "cons c = cons (cap s)" by (rule pstep_cons [OF adc_begin(3)])
  moreover have "subseq (sent c @ todo (prod c)) (fed s @ [x])"
    using assms(2) adc_begin(2,4) b by (simp add: stages_inv_def list_emb_append_mono)
  ultimately show ?thesis using assms(2) adc_begin b pstep_got [OF adc_begin(3)] by (simp add: stages_inv_def)
next
  case (adc_access c)
  note t = pstep_todo [OF adc_access(3,2)]
  have "spsc_inv r1 c" using pstep_inv [OF adc_access(3)] assms(2) by (simp add: stages_inv_def)
  moreover have "cons c = cons (cap s)" by (rule pstep_cons [OF adc_access(3)])
  moreover have "subseq (sent c @ todo (prod c)) (fed s)"
    using t assms(2) by (auto simp: stages_inv_def intro: subseq_order.trans)
  ultimately show ?thesis using assms(2) adc_access(1) pstep_offered [OF adc_access(3,2)] pstep_got [OF adc_access(3)]
    by (simp add: stages_inv_def)
qed

lemma process_step_inv:
  assumes st: "process_step s s'" and inv: "stages_inv r1 r2 s"
  shows "stages_inv r1 r2 s'"
  using st
proof cases
  case (pop_begin c h)
  then have "spsc_inv r1 c" using cstep_inv inv by (simp add: stages_inv_def)
  then show ?thesis using inv pop_begin cstep_histories [OF pop_begin(5)] cstep_got [OF pop_begin(5)]
    by (auto simp: stages_inv_def)
next
  case (pop_access c)
  have i: "spsc_inv r1 c" using cstep_inv [OF pop_access(3)] inv by (simp add: stages_inv_def)
  have idle: "held s = []" "prod (net s) = P_Idle" using inv pop_access(2) by (auto simp: stages_inv_def)
  note h = cstep_histories [OF pop_access(3)]
  then obtain ys where ys: "got c = got (cap s) @ ys" by blast
  moreover have "ys = []" if "cons c \<noteq> C_Idle" using cstep_got [OF pop_access(3) that] ys by simp
  ultimately show ?thesis using inv i idle h pop_access(1) by (auto simp: stages_inv_def)
next
  case (push_begin n h)
  have i: "spsc_inv r2 n" using pstep_inv [OF push_begin(5)] inv by (simp add: stages_inv_def)
  note b = pstep_begin [OF push_begin(5,4)]
  have "subseq (sent (net s)) (passed s)" using inv push_begin(4) by (simp add: stages_inv_def)
  then have "subseq (sent (net s) @ held s) (passed s @ held s)" by (rule subseq_both)
  then show ?thesis using inv i b push_begin pstep_got [OF push_begin(5)] by (simp add: stages_inv_def)
next
  case (push_access n)
  have i: "spsc_inv r2 n" using pstep_inv [OF push_access(3)] inv by (simp add: stages_inv_def)
  have "subseq (sent n @ todo (prod n)) (passed s)"
    using pstep_todo [OF push_access(3,2)] inv by (auto simp: stages_inv_def intro: subseq_order.trans)
  then show ?thesis using inv i push_access(1,2) pstep_offered [OF push_access(3,2)] by (simp add: stages_inv_def)
qed

lemma network_step_inv:
  assumes st: "network_step s s'" and inv: "stages_inv r1 r2 s"
  shows "stages_inv r1 r2 s'"
proof -
  obtain n where n: "cstep (net s) n" "s' = s\<lparr>net := n\<rparr>" using st by cases auto
  have "spsc_inv r2 n" using cstep_inv [OF n(1)] inv by (simp add: stages_inv_def)
  then show ?thesis using inv n(2) cstep_histories [OF n(1)] by (simp add: stages_inv_def)
qed

lemma stages_reach_inv:
  assumes "stages_reach r1 r2 s" "rb_wf r1" "rb_contents r1 = []" "rb_wf r2" "rb_contents r2 = []"
  shows "stages_inv r1 r2 s"
  using assms(1)
  by (induction rule: stages_reach.induct)
    (auto intro: stages_init_inv [OF assms(2-5)] adc_step_inv process_step_inv network_step_inv)

section \<open>Two rings in a row\<close>

text \<open>Everything on its way from the callback to the network thread, oldest first.\<close>

definition in_transit :: "stages \<Rightarrow> adc_sample_t list" where
  "in_transit s = rb_contents (ring (net s)) @ todo (prod (net s)) @ held s
     @ rb_contents (ring (cap s)) @ todo (prod (cap s))"

lemma stages_order:
  assumes "stages_inv r1 r2 s"
  shows "subseq (got (net s) @ in_transit s) (fed s)"
proof -
  have i: "sent (net s) = got (net s) @ rb_contents (ring (net s))" "sent (cap s) = got (cap s) @ rb_contents (ring (cap s))"
    "got (cap s) = passed s @ held s" "subseq (sent (net s) @ todo (prod (net s))) (passed s)"
    "subseq (sent (cap s) @ todo (prod (cap s))) (fed s)"
    using assms by (auto simp: stages_inv_def spsc_inv_def)
  have "subseq ((sent (net s) @ todo (prod (net s))) @ held s @ rb_contents (ring (cap s)) @ todo (prod (cap s)))
      (passed s @ held s @ rb_contents (ring (cap s)) @ todo (prod (cap s)))"
    by (rule subseq_both(2) [OF i(4)])
  also have "passed s @ held s @ rb_contents (ring (cap s)) @ todo (prod (cap s)) = sent (cap s) @ todo (prod (cap s))"
    unfolding i(2,3) by simp
  finally show ?thesis using i(1,5) by (simp add: in_transit_def subseq_order.trans)
qed

lemma stages_count:
  assumes inv: "stages_inv r1 r2 s" and idle: "prod (cap s) = P_Idle" "prod (net s) = P_Idle"
  shows "length (fed s) = length (got (net s) @ in_transit s) + lost (cap s) + lost (net s)"
proof -
  have i: "sent (net s) = got (net s) @ rb_contents (ring (net s))" "sent (cap s) = got (cap s) @ rb_contents (ring (cap s))"
    "got (cap s) = passed s @ held s"
    "length (fed s) = length (sent (cap s)) + lost (cap s)" "length (passed s) = length (sent (net s)) + lost (net s)"
    using inv idle by (auto simp: stages_inv_def spsc_inv_def)
  then show ?thesis using idle by (simp add: in_transit_def)
qed

section \<open>Properties\<close>

text \<open>
  C5. The pipeline delivers in order at the granularity of single memory accesses: in every
  interleaving of the accesses of the ADC thread, the processing thread and the network thread to
  the two rings, the samples the network thread has taken, followed by everything on its way, are
  the samples the callback was called with, in their order, with some left out. Whenever neither
  ring has a push in progress, the number left out is what the two rings have counted as dropped.
  No access is ever out of bounds or to a slot that another thread is accessing, and a thread that
  has begun a call on a ring can always take its next step.
\<close>

theorem pipeline_access_order:
  assumes "stages_reach r1 r2 s" "rb_wf r1" "rb_contents r1 = []" "rb_wf r2" "rb_contents r2 = []"
  shows "subseq (got (net s) @ in_transit s) (fed s)
    \<and> (prod (cap s) = P_Idle \<and> prod (net s) = P_Idle \<longrightarrow> (\<exists>k1 k2.
         length (fed s) = length (got (net s) @ in_transit s) + k1 + k2
         \<and> rb_dropped (ring (cap s)) = rb_dropped r1 + word_of_nat k1
         \<and> rb_dropped (ring (net s)) = rb_dropped r2 + word_of_nat k2))
    \<and> (\<forall>t\<in>{cap s, net s}.
         (\<forall>i. prod_slot (ring t) (prod t) = Some i \<longrightarrow> i < length (rb_buffer (ring t)))
         \<and> (\<forall>i. cons_slot (ring t) (cons t) = Some i \<longrightarrow> i < length (rb_buffer (ring t)))
         \<and> (\<forall>i j. prod_slot (ring t) (prod t) = Some i \<longrightarrow> cons_slot (ring t) (cons t) = Some j \<longrightarrow> i \<noteq> j))
    \<and> (prod (cap s) \<noteq> P_Idle \<longrightarrow> (\<exists>s'. adc_step s s'))
    \<and> (prod (net s) \<noteq> P_Idle \<or> cons (cap s) \<noteq> C_Idle \<longrightarrow> (\<exists>s'. process_step s s'))
    \<and> (cons (net s) \<noteq> C_Idle \<longrightarrow> (\<exists>s'. network_step s s'))"
proof -
  have inv: "stages_inv r1 r2 s" by (rule stages_reach_inv [OF assms])
  then have c: "spsc_inv r1 (cap s)" and n: "spsc_inv r2 (net s)" by (simp_all add: stages_inv_def)
  have "rb_dropped (ring (cap s)) = rb_dropped r1 + word_of_nat (lost (cap s))"
    "rb_dropped (ring (net s)) = rb_dropped r2 + word_of_nat (lost (net s))"
    using c n by (simp_all add: spsc_inv_def)
  then have count: "prod (cap s) = P_Idle \<and> prod (net s) = P_Idle \<longrightarrow> (\<exists>k1 k2.
         length (fed s) = length (got (net s) @ in_transit s) + k1 + k2
         \<and> rb_dropped (ring (cap s)) = rb_dropped r1 + word_of_nat k1
         \<and> rb_dropped (ring (net s)) = rb_dropped r2 + word_of_nat k2)"
    using stages_count [OF inv] by blast
  have adc: "prod (cap s) \<noteq> P_Idle \<longrightarrow> (\<exists>s'. adc_step s s')"
    using pstep_progress [OF c] adc_access by blast
  have proc: "prod (net s) \<noteq> P_Idle \<or> cons (cap s) \<noteq> C_Idle \<longrightarrow> (\<exists>s'. process_step s s')"
    using pstep_progress [OF n] cstep_progress [OF c] push_access pop_access by blast
  have nw: "cons (net s) \<noteq> C_Idle \<longrightarrow> (\<exists>s'. network_step s s')"
    using cstep_progress [OF n] net_access by blast
  show ?thesis
    using stages_order [OF inv] count adc proc nw slots_in_bounds [OF c] slots_in_bounds [OF n]
      slots_disjoint [OF c] slots_disjoint [OF n] by blast
qed

text \<open>All three threads in the middle of a call.\<close>

definition busy_stages :: stages where
  "busy_stages = \<lparr>cap = (spsc_init fresh_ring)\<lparr>prod := P_Push1 (demo_sample 1) 0, offered := 1, cons := C_Batch1 256 0\<rparr>,
     net = (spsc_init fresh_ring)\<lparr>cons := C_Batch1 256 0\<rparr>, held = [], fed = [demo_sample 1], passed = []\<rparr>"

lemma busy_reach: "stages_reach fresh_ring fresh_ring busy_stages"
proof -
  let ?c0 = "spsc_init fresh_ring"
  have idle: "prod ?c0 = P_Idle" "cons ?c0 = C_Idle" "rb_head (ring ?c0) = 0" "offered ?c0 = 0"
    by (simp_all add: spsc_init_def fresh_ring_def)
  let ?c1 = "?c0\<lparr>prod := P_Push1 (demo_sample 1) 0, offered := 1\<rparr>"
  let ?s1 = "(stages_init fresh_ring fresh_ring)\<lparr>cap := ?c1, fed := [demo_sample 1]\<rparr>"
  have "pstep ?c0 ?c1" using pstep.push_load [of ?c0 "demo_sample 1"] idle by simp
  then have "adc_step (stages_init fresh_ring fresh_ring) ?s1"
    using adc_begin [of "stages_init fresh_ring fresh_ring" ?c1 "demo_sample 1" 0] idle by (simp add: stages_init_def)
  then have 1: "stages_reach fresh_ring fresh_ring ?s1" by (rule adc [OF start])
  let ?c2 = "?c1\<lparr>cons := C_Batch1 256 0\<rparr>"
  have "cstep ?c1 ?c2" using cstep.cbatch_load_head [of ?c1 256] idle by simp
  then have "process_step ?s1 (?s1\<lparr>cap := ?c2\<rparr>)"
    using pop_begin [of ?s1 ?c2 0] idle by (simp add: stages_init_def)
  then have 2: "stages_reach fresh_ring fresh_ring (?s1\<lparr>cap := ?c2\<rparr>)" by (rule process [OF 1])
  let ?n = "?c0\<lparr>cons := C_Batch1 256 0\<rparr>"
  have "cstep ?c0 ?n" using cstep.cbatch_load_head [of ?c0 256] idle by simp
  then have "network_step (?s1\<lparr>cap := ?c2\<rparr>) (?s1\<lparr>cap := ?c2, net := ?n\<rparr>)"
    using net_begin [of "?s1\<lparr>cap := ?c2\<rparr>" ?n 0] idle by (simp add: stages_init_def)
  from network [OF 2 this] show ?thesis by (simp add: stages_init_def busy_stages_def)
qed

theorem pipeline_access_order_witness:
  "subseq (got (net busy_stages) @ in_transit busy_stages) [demo_sample 1]
   \<and> (\<exists>s'. adc_step busy_stages s') \<and> (\<exists>s'. process_step busy_stages s') \<and> (\<exists>s'. network_step busy_stages s')"
  using pipeline_access_order [OF busy_reach demo_wf(2) demo_contents(3) demo_wf(2) demo_contents(3)]
  by (auto simp: busy_stages_def)

end
