(* ===== verification/Logger.thy ===== *)
theory Logger
  imports Prelude
begin

text \<open>
  The logger of \<^verbatim>\<open>src/utils/logger.c\<close>: level filter, message formatting in a
  4096-byte stack buffer, console and file output.

  The output is recorded in the state: the lines written to the console and to each file. The
  formatted text of the caller's arguments, the clock reading and the success of
  \<^verbatim>\<open>fopen\<close> are parameters. The lock makes each call of \<^verbatim>\<open>log_message\<close>
  atomic, so a call is one step of the state. A result \<^term>\<open>None\<close> is undefined behaviour.
\<close>

section \<open>Levels\<close>

datatype log_level_t =
    LOG_LEVEL_DEBUG
  | LOG_LEVEL_INFO
  | LOG_LEVEL_WARN
  | LOG_LEVEL_ERROR
  | LOG_LEVEL_FATAL
  | LOG_LEVEL_COUNT

fun level_value :: "log_level_t \<Rightarrow> nat" where
  "level_value LOG_LEVEL_DEBUG = 0"
| "level_value LOG_LEVEL_INFO = 1"
| "level_value LOG_LEVEL_WARN = 2"
| "level_value LOG_LEVEL_ERROR = 3"
| "level_value LOG_LEVEL_FATAL = 4"
| "level_value LOG_LEVEL_COUNT = 5"

lemma level_value_inject: "level_value a = level_value b \<Longrightarrow> a = b"
  by (cases a; cases b; simp)

instantiation log_level_t :: linorder
begin

definition less_eq_log_level_t :: "log_level_t \<Rightarrow> log_level_t \<Rightarrow> bool" where
  "less_eq_log_level_t a b \<longleftrightarrow> level_value a \<le> level_value b"

definition less_log_level_t :: "log_level_t \<Rightarrow> log_level_t \<Rightarrow> bool" where
  "less_log_level_t a b \<longleftrightarrow> level_value a < level_value b"

instance
  by standard (auto simp: less_eq_log_level_t_def less_log_level_t_def dest: level_value_inject)

end

definition g_level_names :: "string list" where
  "g_level_names = [''DEBUG'', ''INFO'', ''WARN'', ''ERROR'', ''FATAL'']"

definition level_name :: "log_level_t \<Rightarrow> string option" where
  "level_name l = (if level_value l < length g_level_names then Some (g_level_names ! level_value l) else None)"

section \<open>Formatting\<close>

text \<open>The conversions \<^verbatim>\<open>%u\<close>, \<^verbatim>\<open>%0wu\<close> and \<^verbatim>\<open>%d\<close> of \<^verbatim>\<open>printf\<close>.\<close>

definition digit :: "nat \<Rightarrow> char" where
  "digit d = char_of (48 + d)"

fun dec :: "nat \<Rightarrow> string" where
  "dec n = (if n < 10 then [digit n] else dec (n div 10) @ [digit (n mod 10)])"

declare dec.simps [simp del]

definition pad0 :: "nat \<Rightarrow> nat \<Rightarrow> string" where
  "pad0 w n = replicate (w - length (dec n)) (CHR ''0'') @ dec n"

definition dec_int :: "int \<Rightarrow> string" where
  "dec_int i = (if i < 0 then CHR ''-'' # dec (nat (- i)) else dec (nat i))"

text \<open>The position of the last occurrence of a character, \<^verbatim>\<open>strrchr\<close>.\<close>

fun strrchr :: "string \<Rightarrow> char \<Rightarrow> nat option" where
  "strrchr [] c = None"
| "strrchr (x # xs) c =
     (case strrchr xs c of Some i \<Rightarrow> Some (Suc i) | None \<Rightarrow> if x = c then Some 0 else None)"

definition base_name :: "string \<Rightarrow> string" where
  "base_name file =
     (let last_slash = strrchr file (CHR ''/'');
          last_backslash = strrchr file (CHR 0x5C);
          last_slash = (case last_backslash of
              None \<Rightarrow> last_slash
            | Some b \<Rightarrow> (case last_slash of None \<Rightarrow> last_backslash
                | Some i \<Rightarrow> if b > i then last_backslash else last_slash))
      in case last_slash of None \<Rightarrow> file | Some i \<Rightarrow> drop (i + 1) file)"

definition log_prefix :: "u64 \<Rightarrow> string \<Rightarrow> string \<Rightarrow> int \<Rightarrow> string" where
  "log_prefix ts name filename line =
     ''['' @ pad0 2 (unat ((ts div 3600000) mod 24)) @ '':'' @ pad0 2 (unat ((ts div 60000) mod 60)) @ '':''
       @ pad0 2 (unat ((ts div 1000) mod 60)) @ ''.'' @ pad0 3 (unat (ts mod 1000)) @ ''] [''
       @ name @ ''] ['' @ filename @ '':'' @ dec_int line @ ''] ''"

text \<open>
  The two calls of \<^verbatim>\<open>snprintf\<close> into a buffer of 4096 bytes. The first one returns the
  length it would have needed; past the end of the buffer the pointer for the second call would be
  out of bounds.
\<close>

definition log_line :: "string \<Rightarrow> string \<Rightarrow> string option" where
  "log_line pre msg =
     (let offset = length pre in
      if offset > 4096 then None
      else let text = take 4095 (pre @ msg)
           in Some (if length text < 4095 then text @ [CHR 0x0A] else text))"

section \<open>Operations\<close>

record logger =
  g_log_file :: "string option"
  g_log_level :: log_level_t
  console :: "string list"
  files :: "string \<Rightarrow> string list"

definition log_message ::
  "logger \<Rightarrow> u64 \<Rightarrow> log_level_t \<Rightarrow> string \<Rightarrow> int \<Rightarrow> string \<Rightarrow> logger option" where
  "log_message lg ts level file line msg =
     (if level < g_log_level lg then Some lg
      else do {
        name \<leftarrow> level_name level;
        text \<leftarrow> log_line (log_prefix ts name (base_name file) line) msg;
        let lg = lg\<lparr>console := console lg @ [text]\<rparr>;
        Some (case g_log_file lg of None \<Rightarrow> lg
              | Some f \<Rightarrow> lg\<lparr>files := (files lg)(f := files lg f @ [text])\<rparr>)
      })"

text \<open>
  \<open>logger_init\<close> ends with an informational message of its own; \<open>src\<close> is the value of
  \<^verbatim>\<open>__FILE__\<close> there.
\<close>

definition logger_init ::
  "(string \<Rightarrow> bool) \<Rightarrow> string \<Rightarrow> u64 \<Rightarrow> logger \<Rightarrow> string option \<Rightarrow> log_level_t \<Rightarrow> (int \<times> logger) option" where
  "logger_init fopen_ok src ts lg filename level =
     (let lg = lg\<lparr>g_log_file := None\<rparr>
      in case filename of
           Some f \<Rightarrow>
             if \<not> fopen_ok f then Some (-1, lg)
             else do {
               let lg = lg\<lparr>g_log_file := Some f, g_log_level := level\<rparr>;
               name \<leftarrow> level_name level;
               lg \<leftarrow> log_message lg ts LOG_LEVEL_INFO src 51 (''Logger system initialized, level: '' @ name);
               Some (0, lg)
             }
         | None \<Rightarrow> do {
             let lg = lg\<lparr>g_log_level := level\<rparr>;
             name \<leftarrow> level_name level;
             lg \<leftarrow> log_message lg ts LOG_LEVEL_INFO src 51 (''Logger system initialized, level: '' @ name);
             Some (0, lg)
           })"

definition logger_close :: "logger \<Rightarrow> logger" where
  "logger_close lg = lg\<lparr>g_log_file := None\<rparr>"

definition logger_set_level :: "logger \<Rightarrow> log_level_t \<Rightarrow> logger" where
  "logger_set_level lg level = lg\<lparr>g_log_level := level\<rparr>"

definition logger_get_level :: "logger \<Rightarrow> log_level_t" where
  "logger_get_level lg = g_log_level lg"

section \<open>Lemmas\<close>

lemma dec_small: "n < 10 \<Longrightarrow> length (dec n) = 1" "n < 100 \<Longrightarrow> length (dec n) \<le> 2"
  "n < 1000 \<Longrightarrow> length (dec n) \<le> 3"
proof -
  show one: "n < 10 \<Longrightarrow> length (dec n) = 1" for n by (simp add: dec.simps [of n])
  show two: "n < 100 \<Longrightarrow> length (dec n) \<le> 2" for n
    using one [of "n div 10"] by (subst dec.simps) auto
  show "n < 1000 \<Longrightarrow> length (dec n) \<le> 3" using two [of "n div 10"] by (subst dec.simps) auto
qed

lemma length_pad0: "length (dec n) \<le> w \<Longrightarrow> length (pad0 w n) = w"
  by (simp add: pad0_def)

text \<open>Any unsigned 64-bit clock reading gives a stamp of the same width.\<close>

lemma length_log_prefix:
  "length (log_prefix ts name f line) = 22 + length name + length f + length (dec_int line)"
proof -
  have "unat ((ts div 3600000) mod 24) < 100" "unat ((ts div 60000) mod 60) < 100"
    "unat ((ts div 1000) mod 60) < 100" "unat (ts mod 1000) < 1000"
    by (simp_all add: unat_mod unat_div less_trans [of _ 24 100] less_trans [of _ 60 100])
  then show ?thesis by (simp add: log_prefix_def length_pad0 dec_small)
qed

definition is_sep :: "char \<Rightarrow> bool" where
  "is_sep c \<longleftrightarrow> c = CHR ''/'' \<or> c = CHR 0x5C"

lemma strrchr_None: "strrchr s c = None \<longleftrightarrow> c \<notin> set s"
  by (induction s) (auto split: option.splits)

lemma strrchr_Some:
  "strrchr s c = Some i \<Longrightarrow> i < length s \<and> s ! i = c \<and> c \<notin> set (drop (Suc i) s)"
proof (induction s arbitrary: i)
  case Nil
  then show ?case by simp
next
  case (Cons x xs)
  then show ?case by (cases "strrchr xs c") (auto simp: strrchr_None split: if_splits)
qed

lemma base_name_cases:
  "\<exists>dir. f = dir @ base_name f \<and> (dir = [] \<or> is_sep (last dir)) \<and> (\<forall>c\<in>set (base_name f). \<not> is_sep c)"
proof -
  have cut: "f = take (Suc i) f @ drop (i + 1) f" "i < length f \<Longrightarrow> last (take (Suc i) f) = f ! i" for i
    by (simp_all add: take_Suc_conv_app_nth)
  have sub: "c \<notin> set (drop (Suc i) f) \<Longrightarrow> i \<le> j \<Longrightarrow> c \<notin> set (drop (Suc j) f)" for c i j
    by (meson Suc_le_mono set_drop_subset_set_drop subsetD)
  show ?thesis
  proof (cases "strrchr f (CHR ''/'')"; cases "strrchr f (CHR 0x5C)")
    assume "strrchr f (CHR ''/'') = None" "strrchr f (CHR 0x5C) = None"
    moreover from this have "base_name f = f" by (simp add: base_name_def)
    ultimately show ?thesis by (auto simp: strrchr_None is_sep_def)
  next
    fix b assume b: "strrchr f (CHR ''/'') = None" "strrchr f (CHR 0x5C) = Some b"
    note sb = strrchr_Some [OF b(2)]
    have "base_name f = drop (b + 1) f" using b by (simp add: base_name_def)
    moreover have "CHR ''/'' \<notin> set (drop (b + 1) f)" using b(1) by (meson strrchr_None in_set_dropD)
    ultimately show ?thesis using sb cut [of b] by (intro exI [of _ "take (Suc b) f"]) (auto simp: is_sep_def)
  next
    fix i assume i: "strrchr f (CHR ''/'') = Some i" "strrchr f (CHR 0x5C) = None"
    note si = strrchr_Some [OF i(1)]
    have "base_name f = drop (i + 1) f" using i by (simp add: base_name_def)
    moreover have "CHR 0x5C \<notin> set (drop (i + 1) f)" using i(2) by (meson strrchr_None in_set_dropD)
    ultimately show ?thesis using si cut [of i] by (intro exI [of _ "take (Suc i) f"]) (auto simp: is_sep_def)
  next
    fix i b assume ib: "strrchr f (CHR ''/'') = Some i" "strrchr f (CHR 0x5C) = Some b"
    note si = strrchr_Some [OF ib(1)] and sb = strrchr_Some [OF ib(2)]
    let ?k = "max i b"
    have "base_name f = drop (?k + 1) f" using ib by (simp add: base_name_def max_def)
    moreover have "CHR ''/'' \<notin> set (drop (Suc ?k) f)" "CHR 0x5C \<notin> set (drop (Suc ?k) f)"
      using sub [of "CHR ''/''" i ?k] sub [of "CHR 0x5C" b ?k] si sb by simp_all
    moreover have "?k < length f" "is_sep (f ! ?k)" using si sb by (auto simp: max_def is_sep_def)
    ultimately show ?thesis using cut [of ?k] by (intro exI [of _ "take (Suc ?k) f"]) (auto simp: is_sep_def)
  qed
qed

lemma log_line_fits:
  assumes "length pre \<le> 4095"
  shows "\<exists>out. log_line pre msg = Some out \<and> length out \<le> 4095 \<and> take (length pre) out = pre"
  using assms by (auto simp: log_line_def Let_def)

lemma level_name_short: "level \<noteq> LOG_LEVEL_COUNT \<Longrightarrow> \<exists>name. level_name level = Some name \<and> length name \<le> 5"
  by (cases level) (auto simp: level_name_def g_level_names_def)

lemma log_message_defined:
  assumes "level \<noteq> LOG_LEVEL_COUNT" "length (base_name file) + length (dec_int line) \<le> 4068"
  shows "log_message lg ts level file line msg \<noteq> None"
proof -
  obtain name where name: "level_name level = Some name" "length name \<le> 5" using level_name_short [OF assms(1)] by blast
  then have "length (log_prefix ts name (base_name file) line) \<le> 4095" using assms(2) by (simp add: length_log_prefix)
  from log_line_fits [OF this, of msg] show ?thesis using name(1) by (auto simp: log_message_def Let_def)
qed

lemma logger_init_defined:
  assumes "level \<noteq> LOG_LEVEL_COUNT" "length (base_name src) \<le> 4066"
  shows "logger_init fopen_ok src ts lg filename level \<noteq> None"
proof -
  have "length (dec_int 51) = 2" by (simp add: dec_int_def dec.simps)
  then have log: "log_message l ts LOG_LEVEL_INFO src 51 msg \<noteq> None" for l msg
    using assms(2) by (intro log_message_defined) simp_all
  have "log_message l ts LOG_LEVEL_INFO src 51 msg \<bind> (\<lambda>lg. Some (0 :: int, lg)) \<noteq> None" for l msg
    using log [of l msg] by auto
  moreover obtain name where "level_name level = Some name" using level_name_short [OF assms(1)] by blast
  ultimately show ?thesis
    by (cases filename) (simp_all add: logger_init_def Let_def del: not_None_eq)
qed

section \<open>Properties\<close>



text \<open>
  The file name shown in a message is the last component of the path: the path ends in it,
  what precedes it is empty or ends in a slash or backslash, and it contains neither.
\<close>

theorem base_name_last_component:
  "\<exists>dir. f = dir @ base_name f \<and> (dir = [] \<or> last dir = CHR ''/'' \<or> last dir = CHR 0x5C)
     \<and> CHR ''/'' \<notin> set (base_name f) \<and> CHR 0x5C \<notin> set (base_name f)"
  using base_name_cases [of f] by (auto simp: is_sep_def)

text \<open>
  A message whose prefix is longer than the 4096-byte buffer has undefined behaviour: the
  unchecked result of the first \<^verbatim>\<open>snprintf\<close> is used as an offset past the end of the
  buffer.
\<close>

theorem log_message_overflow:
  assumes "\<not> level < g_log_level lg" "4096 < length (base_name file)"
  shows "log_message lg ts level file line msg = None"
proof (cases "level_name level")
  case None
  then show ?thesis using assms by (simp add: log_message_def)
next
  case (Some name)
  have "4096 < length (log_prefix ts name (base_name file) line)"
    using assms(2) by (simp add: length_log_prefix)
  then show ?thesis using assms(1) Some by (simp add: log_message_def log_line_def Let_def)
qed

theorem log_message_overflow_witness:
  "log_message \<lparr>g_log_file = None, g_log_level = LOG_LEVEL_DEBUG, console = [], files = (\<lambda>_. [])\<rparr>
     0 LOG_LEVEL_DEBUG (replicate 5000 (CHR ''x'')) 1 [] = None"
proof -
  have "strrchr (replicate n (CHR ''x'')) c = None" if "c \<noteq> CHR ''x''" for n c
    using that by (simp add: strrchr_None)
  then have "base_name (replicate 5000 (CHR ''x'')) = replicate 5000 (CHR ''x'')"
    by (simp add: base_name_def)
  then show ?thesis by (intro log_message_overflow) (simp_all add: less_log_level_t_def)
qed

end
