(* ===== verification/Config.thy ===== *)
theory Config
  imports Adc_Types Logger Ring_Buffer
begin

text \<open>
  System configuration: the structures of \<^verbatim>\<open>include/config.h\<close> and the defaults and
  validation of \<^verbatim>\<open>src/utils/config.c\<close>. Doubles are real numbers; a configuration
  pointer is \<^term>\<open>None\<close> when it is null.
\<close>

record adc_config_t =
  sample_rate :: u32
  resolution :: u32
  channel_count :: u32
  signal_freq :: real
  noise_level :: real
  enable_trigger :: bool

record buffer_config_t =
  ring_buffer_size :: u32
  buffer_count :: u32
  batch_size :: u32

record network_config_t =
  net_server_ip :: string
  net_server_port :: u16
  net_send_timeout_ms :: u32
  net_recv_timeout_ms :: u32
  net_buffer_size :: u32
  net_keep_alive :: bool
  net_no_delay :: bool

record thread_config_t =
  capture_priority :: int
  process_priority :: int
  network_priority :: int
  stack_size :: u32
  set_affinity :: bool
  cpu_core :: int

record log_config_t =
  log_file :: string
  log_level :: int
  log_to_file :: bool
  log_to_console :: bool
  max_file_size :: u32
  max_backup_files :: u32

record system_config_t =
  cfg_adc :: adc_config_t
  cfg_buffer :: buffer_config_t
  cfg_network :: network_config_t
  cfg_thread :: thread_config_t
  cfg_log :: log_config_t
  run_time_seconds :: int

definition config_get_adc_default :: "adc_config_t option \<Rightarrow> adc_config_t option" where
  "config_get_adc_default config = map_option (\<lambda>c. c\<lparr>sample_rate := ADC_SAMPLE_RATE,
     resolution := ADC_RESOLUTION, channel_count := ADC_CHANNEL_COUNT, signal_freq := 1000,
     noise_level := 1 / 100, enable_trigger := False\<rparr>) config"

definition config_get_buffer_default :: "buffer_config_t option \<Rightarrow> buffer_config_t option" where
  "config_get_buffer_default config = map_option (\<lambda>c. c\<lparr>ring_buffer_size := RING_BUFFER_SIZE,
     buffer_count := BUFFER_COUNT, batch_size := 256\<rparr>) config"

definition config_get_network_default :: "network_config_t option \<Rightarrow> network_config_t option" where
  "config_get_network_default config = map_option (\<lambda>c. c\<lparr>net_server_ip := take 15 DEFAULT_SERVER_IP,
     net_server_port := DEFAULT_SERVER_PORT, net_send_timeout_ms := 5000, net_recv_timeout_ms := 5000,
     net_buffer_size := TCP_SEND_BUFFER_SIZE, net_keep_alive := True, net_no_delay := True\<rparr>) config"

definition config_get_thread_default :: "thread_config_t option \<Rightarrow> thread_config_t option" where
  "config_get_thread_default config = map_option (\<lambda>c. c\<lparr>capture_priority := 99, process_priority := 80,
     network_priority := 70, stack_size := 0, set_affinity := False, cpu_core := 0\<rparr>) config"

definition config_get_log_default :: "log_config_t option \<Rightarrow> log_config_t option" where
  "config_get_log_default config = map_option (\<lambda>c. c\<lparr>log_file := [],
     log_level := int (level_value LOG_LEVEL_INFO), log_to_file := False, log_to_console := True,
     max_file_size := 10 * 1024 * 1024, max_backup_files := 3\<rparr>) config"

definition config_get_default :: "system_config_t option \<Rightarrow> system_config_t option" where
  "config_get_default config =
     (case config of None \<Rightarrow> None
      | Some c \<Rightarrow> do {
          a \<leftarrow> config_get_adc_default (Some (cfg_adc c));
          b \<leftarrow> config_get_buffer_default (Some (cfg_buffer c));
          n \<leftarrow> config_get_network_default (Some (cfg_network c));
          t \<leftarrow> config_get_thread_default (Some (cfg_thread c));
          l \<leftarrow> config_get_log_default (Some (cfg_log c));
          Some (c\<lparr>cfg_adc := a, cfg_buffer := b, cfg_network := n, cfg_thread := t, cfg_log := l,
                  run_time_seconds := -1\<rparr>)
        })"

definition config_validate :: "system_config_t option \<Rightarrow> bool" where
  "config_validate config =
     (case config of None \<Rightarrow> False
      | Some c \<Rightarrow>
          if sample_rate (cfg_adc c) = 0 \<or> sample_rate (cfg_adc c) > 1000000 then False
          else if resolution (cfg_adc c) = 0 \<or> resolution (cfg_adc c) > 32 then False
          else if ring_buffer_size (cfg_buffer c) < 256 \<or> ring_buffer_size (cfg_buffer c) > 1048576 then False
          else if net_server_port (cfg_network c) = 0 then False
          else True)"

section \<open>Properties\<close>

lemma unat_div_u64: "unat ((1000000 :: u64) div ucast (r :: u32)) = 1000000 div unat r"
proof -
  have "unat (ucast r :: u64) = unat r"
    using unsigned_less [of r, where ?'a = nat] by (simp add: unsigned_ucast_eq take_bit_nat_eq_self)
  then show ?thesis by (simp add: unat_div)
qed

text \<open>
  A configuration that passes validation is safe for the rest of the system: the capture
  thread's interval division is by a non-zero rate and its result is between 1 and 1000000
  microseconds, the resolution is one of the 32 the sample generator supports, and the ring
  capacity computation returns a power of two of at most \<open>2 ^ 20\<close> slots.
\<close>

theorem config_validate_sound:
  assumes "config_validate (Some c)"
  shows "sample_rate (cfg_adc c) \<noteq> 0
    \<and> 1 \<le> unat ((1000000 :: u64) div ucast (sample_rate (cfg_adc c)))
    \<and> unat ((1000000 :: u64) div ucast (sample_rate (cfg_adc c))) \<le> 1000000
    \<and> 1 \<le> unat (resolution (cfg_adc c)) \<and> unat (resolution (cfg_adc c)) \<le> 32
    \<and> (\<exists>k. ring_capacity (ring_buffer_size (cfg_buffer c)) = Some (2 ^ k) \<and> 8 \<le> k \<and> k \<le> 20)
    \<and> net_server_port (cfg_network c) \<noteq> 0"
proof -
  let ?r = "unat (sample_rate (cfg_adc c))" and ?s = "unat (ring_buffer_size (cfg_buffer c))"
  have v: "sample_rate (cfg_adc c) \<noteq> 0" "?r \<le> 1000000" "resolution (cfg_adc c) \<noteq> 0"
    "unat (resolution (cfg_adc c)) \<le> 32" "256 \<le> ?s" "?s \<le> 1048576" "net_server_port (cfg_network c) \<noteq> 0"
    using assms by (auto simp: config_validate_def word_less_nat_alt not_less split: if_splits)
  have r0: "0 < ?r" "0 < unat (resolution (cfg_adc c))" using v(1,3) by (simp_all add: unat_gt_0)
  then have "1 \<le> 1000000 div ?r" using v(2) div_le_mono [OF v(2), of ?r] by simp
  moreover have "1000000 div ?r \<le> 1000000" by simp
  moreover obtain k where k: "ring_capacity (ring_buffer_size (cfg_buffer c)) = Some (2 ^ k)"
    "max 2 ?s \<le> 2 ^ k" "2 ^ k < 2 * max 2 ?s"
    using ring_capacity_returns [of "ring_buffer_size (cfg_buffer c)"] v(6) by auto
  have "(2::nat) ^ 8 \<le> 2 ^ k" using k(2) v(5) by simp
  then have "8 \<le> k" by (rule power_le_imp_le_exp [rotated]) simp
  have "(2::nat) ^ k < 2 ^ 21" using k(3) v(5,6) by simp
  then have "k < 21" by (rule power_less_imp_less_exp [rotated]) simp
  then have "k \<le> 20" by simp
  ultimately show ?thesis using v r0 k(1) \<open>8 \<le> k\<close> by (auto simp: unat_div_u64)
qed

text \<open>
  The built-in defaults pass validation, whatever the structure contained before, and a null
  pointer fails it.
\<close>

theorem config_default_valid:
  "config_validate (config_get_default (Some c)) \<and> \<not> config_validate (config_get_default None)"
  by (simp add: config_validate_def config_get_default_def config_get_adc_default_def
      config_get_buffer_default_def config_get_network_default_def config_get_thread_default_def
      config_get_log_default_def ADC_SAMPLE_RATE_def ADC_RESOLUTION_def RING_BUFFER_SIZE_def
      DEFAULT_SERVER_PORT_def)

definition blank_system_config :: system_config_t where
  "blank_system_config =
     \<lparr>cfg_adc = \<lparr>sample_rate = 48000, resolution = 24, channel_count = 1, signal_freq = 50, noise_level = 0,
        enable_trigger = False\<rparr>,
      cfg_buffer = \<lparr>ring_buffer_size = 1000, buffer_count = 3, batch_size = 64\<rparr>,
      cfg_network = \<lparr>net_server_ip = ''10.0.0.1'', net_server_port = 9000, net_send_timeout_ms = 1,
        net_recv_timeout_ms = 1, net_buffer_size = 1, net_keep_alive = False, net_no_delay = False\<rparr>,
      cfg_thread = \<lparr>capture_priority = 0, process_priority = 0, network_priority = 0, stack_size = 0,
        set_affinity = False, cpu_core = 0\<rparr>,
      cfg_log = \<lparr>log_file = [], log_level = 0, log_to_file = False, log_to_console = False,
        max_file_size = 0, max_backup_files = 0\<rparr>,
      run_time_seconds = 0\<rparr>"

theorem config_validate_sound_witness:
  "\<exists>k. ring_capacity 1000 = Some (2 ^ k) \<and> 8 \<le> k \<and> k \<le> 20"
proof -
  have "config_validate (Some blank_system_config)"
    by (simp add: config_validate_def blank_system_config_def)
  from config_validate_sound [OF this] show ?thesis by (simp add: blank_system_config_def)
qed

end
