(* ===== verification/Buffer_Manager.thy ===== *)
theory Buffer_Manager
  imports Ring_Buffer
begin

text \<open>
  Allocation and release of ring buffers and of the buffer manager
  (\<^verbatim>\<open>ring_buffer_create\<close>, \<^verbatim>\<open>ring_buffer_destroy\<close> and the three
  \<^verbatim>\<open>buffer_manager_*\<close> functions of \<^verbatim>\<open>src/buffer/ring_buffer.c\<close>) on an
  explicit heap.

  The heap records the blocks that are allocated and what the control structures contain. Address
  0 is the null pointer. Whether the \<open>i\<close>-th allocation succeeds is decided by the
  parameter \<open>alloc_ok\<close>, and \<open>junk\<close> is what an uninitialised data array contains.
  Freeing or reading a block that is not allocated is undefined behaviour, \<^term>\<open>None\<close>.
\<close>

section \<open>The heap\<close>

record buffer_manager_t =
  capture_to_process :: nat
  process_to_network :: nat
  network_pool :: nat

record heap =
  h_calls :: nat \<comment> \<open>allocation calls so far\<close>
  h_live :: "nat set" \<comment> \<open>allocated blocks\<close>
  h_rings :: "nat \<rightharpoonup> ring_buffer_t"
  h_managers :: "nat \<rightharpoonup> buffer_manager_t"

definition heap_alloc :: "(nat \<Rightarrow> bool) \<Rightarrow> heap \<Rightarrow> nat \<times> heap" where
  "heap_alloc alloc_ok h =
     (let a = Suc (h_calls h); h = h\<lparr>h_calls := a\<rparr>
      in if alloc_ok a then (a, h\<lparr>h_live := insert a (h_live h)\<rparr>) else (0, h))"

definition heap_free :: "heap \<Rightarrow> nat \<Rightarrow> heap option" where
  "heap_free h a =
     (if a = 0 then Some h
      else if a \<in> h_live h
      then Some (h\<lparr>h_live := h_live h - {a}, h_rings := (h_rings h)(a := None),
                   h_managers := (h_managers h)(a := None)\<rparr>)
      else None)"

text \<open>
  In a well-formed heap every structure sits in an allocated block of its own, and every ring owns
  an allocated data block that no other structure uses.
\<close>

definition heap_wf :: "heap \<Rightarrow> bool" where
  "heap_wf h \<longleftrightarrow> (\<forall>a\<in>h_live h. 0 < a \<and> a \<le> h_calls h)
     \<and> (\<forall>a r. h_rings h a = Some r \<longrightarrow> a \<in> h_live h \<and> h_managers h a = None \<and> rb_block r \<in> h_live h
          \<and> h_rings h (rb_block r) = None \<and> h_managers h (rb_block r) = None)
     \<and> (\<forall>a m. h_managers h a = Some m \<longrightarrow> a \<in> h_live h)
     \<and> (\<forall>a b r r'. h_rings h a = Some r \<and> h_rings h b = Some r' \<and> rb_block r = rb_block r' \<longrightarrow> a = b)"

section \<open>Ring buffers\<close>

text \<open>\<open>calloc\<close> zeroes the control structure, so its data pointer starts as null.\<close>

definition zero_ring :: ring_buffer_t where
  "zero_ring = \<lparr>rb_head = 0, rb_tail = 0, rb_capacity = 0, rb_mask = 0, rb_buffer = [], rb_block = 0,
     rb_dropped = 0\<rparr>"

definition ring_buffer_create ::
  "(nat \<Rightarrow> bool) \<Rightarrow> (nat \<Rightarrow> adc_sample_t) \<Rightarrow> heap \<Rightarrow> u32 \<Rightarrow> (nat \<times> heap) option" where
  "ring_buffer_create alloc_ok junk h capacity = do {
     capacity \<leftarrow> ring_capacity capacity;
     let (rb, h) = heap_alloc alloc_ok h;
     if rb = 0 then Some (0, h)
     else do {
       let h = h\<lparr>h_rings := (h_rings h)(rb \<mapsto> zero_ring)\<rparr>;
       let (buf, h) = heap_alloc alloc_ok h;
       if buf = 0
       then do { h \<leftarrow> heap_free h rb; Some (0, h) }
       else Some (rb, h\<lparr>h_rings := (h_rings h)(rb \<mapsto>
              \<lparr>rb_head = 0, rb_tail = 0, rb_capacity = capacity, rb_mask = capacity - 1,
               rb_buffer = map junk [0..<unat capacity], rb_block = buf, rb_dropped = 0\<rparr>)\<rparr>)
     }
   }"

definition ring_buffer_destroy :: "heap \<Rightarrow> nat \<Rightarrow> heap option" where
  "ring_buffer_destroy h rb =
     (if rb = 0 then Some h
      else do {
        r \<leftarrow> h_rings h rb;
        h \<leftarrow> (if rb_block r \<noteq> 0
             then do {
               h \<leftarrow> heap_free h (rb_block r);
               Some (h\<lparr>h_rings := (h_rings h)(rb \<mapsto> r\<lparr>rb_buffer := [], rb_block := 0\<rparr>)\<rparr>)
             }
             else Some h);
        heap_free h rb
      })"

section \<open>The buffer manager\<close>

definition buffer_manager_create :: "(nat \<Rightarrow> bool) \<Rightarrow> heap \<Rightarrow> nat \<times> heap" where
  "buffer_manager_create alloc_ok h =
     (let (bm, h) = heap_alloc alloc_ok h
      in if bm = 0 then (0, h)
         else (bm, h\<lparr>h_managers := (h_managers h)(bm \<mapsto>
                 \<lparr>capture_to_process = 0, process_to_network = 0, network_pool = 0\<rparr>)\<rparr>))"

definition buffer_manager_destroy :: "heap \<Rightarrow> nat \<Rightarrow> heap option" where
  "buffer_manager_destroy h bm =
     (if bm = 0 then Some h
      else do {
        m \<leftarrow> h_managers h bm;
        h \<leftarrow> (if capture_to_process m \<noteq> 0 then ring_buffer_destroy h (capture_to_process m) else Some h);
        h \<leftarrow> (if process_to_network m \<noteq> 0 then ring_buffer_destroy h (process_to_network m) else Some h);
        h \<leftarrow> (if network_pool m \<noteq> 0 then ring_buffer_destroy h (network_pool m) else Some h);
        heap_free h bm
      })"

definition store_manager :: "heap \<Rightarrow> nat \<Rightarrow> buffer_manager_t \<Rightarrow> heap" where
  "store_manager h bm m = h\<lparr>h_managers := (h_managers h)(bm \<mapsto> m)\<rparr>"

definition buffer_manager_init ::
  "(nat \<Rightarrow> bool) \<Rightarrow> (nat \<Rightarrow> adc_sample_t) \<Rightarrow> heap \<Rightarrow> nat \<Rightarrow> (adc_error_t \<times> heap) option" where
  "buffer_manager_init alloc_ok junk h bm =
     (if bm = 0 then Some (ADC_ERROR_INVALID_PARAM, h)
      else do {
        m \<leftarrow> h_managers h bm;
        (c, h) \<leftarrow> ring_buffer_create alloc_ok junk h RING_BUFFER_SIZE;
        let m = m\<lparr>capture_to_process := c\<rparr>;
        if c = 0 then Some (ADC_ERROR_BUFFER, store_manager h bm m)
        else do {
          (p, h) \<leftarrow> ring_buffer_create alloc_ok junk h RING_BUFFER_SIZE;
          let m = m\<lparr>process_to_network := p\<rparr>;
          if p = 0
          then do {
            h \<leftarrow> ring_buffer_destroy h c;
            Some (ADC_ERROR_BUFFER, store_manager h bm (m\<lparr>capture_to_process := 0\<rparr>))
          }
          else do {
            (n, h) \<leftarrow> ring_buffer_create alloc_ok junk h RING_BUFFER_SIZE;
            let m = m\<lparr>network_pool := n\<rparr>;
            if n = 0
            then do {
              h \<leftarrow> ring_buffer_destroy h c;
              h \<leftarrow> ring_buffer_destroy h p;
              Some (ADC_ERROR_BUFFER, store_manager h bm (m\<lparr>capture_to_process := 0, process_to_network := 0\<rparr>))
            }
            else Some (ADC_OK, store_manager h bm m)
          }
        }
      })"

section \<open>Laws of the two ring constructors\<close>

text \<open>
  \<open>fresh_in\<close> states what a successful creation adds: a control block and a data block, both
  new, and a well-formed empty ring of the normalised capacity.
\<close>

definition fresh_in :: "heap \<Rightarrow> heap \<Rightarrow> nat \<Rightarrow> u32 \<Rightarrow> bool" where
  "fresh_in h h' a cap \<longleftrightarrow> (\<exists>r. h_rings h' = (h_rings h)(a \<mapsto> r) \<and> a \<notin> h_live h \<and> 0 < a
     \<and> 0 < rb_block r \<and> rb_block r \<notin> h_live h \<and> rb_block r \<noteq> a \<and> h_calls h < rb_block r
     \<and> h_live h' = insert a (insert (rb_block r) (h_live h))
     \<and> rb_wf r \<and> rb_contents r = [] \<and> rb_capacity r = cap \<and> rb_dropped r = 0)"

lemma fresh_ring_wf:
  assumes "1 \<le> k" "k \<le> 31"
    and r: "r = \<lparr>rb_head = 0, rb_tail = 0, rb_capacity = 2 ^ k, rb_mask = 2 ^ k - 1,
               rb_buffer = map junk [0..<unat (2 ^ k :: u32)], rb_block = b, rb_dropped = d\<rparr>"
  shows "rb_wf r \<and> rb_contents r = []"
proof -
  have "(0 :: u32) < 2 ^ k" using assms by (simp add: word_less_nat_alt unat_pow2)
  then have "rb_wf r" using assms by (auto simp: rb_wf_def)
  moreover have "rb_len r = 0" by (simp add: r rb_len_def rb_size_def)
  ultimately show ?thesis by (simp flip: length_0_conv)
qed

lemma heap_wfD:
  assumes "heap_wf h"
  shows "a \<in> h_live h \<Longrightarrow> 0 < a" "a \<in> h_live h \<Longrightarrow> a \<le> h_calls h"
    "h_rings h a = Some r \<Longrightarrow> a \<in> h_live h" "h_rings h a = Some r \<Longrightarrow> h_managers h a = None"
    "h_rings h a = Some r \<Longrightarrow> rb_block r \<in> h_live h"
    "h_rings h a = Some r \<Longrightarrow> h_rings h (rb_block r) = None"
    "h_rings h a = Some r \<Longrightarrow> h_managers h (rb_block r) = None"
    "h_managers h a = Some m \<Longrightarrow> a \<in> h_live h"
    "h_rings h a = Some r \<Longrightarrow> h_rings h b = Some r' \<Longrightarrow> rb_block r = rb_block r' \<Longrightarrow> a = b"
  using assms unfolding heap_wf_def by blast+

lemma heap_wfI:
  assumes "\<And>a. a \<in> h_live h \<Longrightarrow> 0 < a \<and> a \<le> h_calls h"
    and "\<And>a r. h_rings h a = Some r \<Longrightarrow> a \<in> h_live h \<and> h_managers h a = None \<and> rb_block r \<in> h_live h
          \<and> h_rings h (rb_block r) = None \<and> h_managers h (rb_block r) = None"
    and "\<And>a m. h_managers h a = Some m \<Longrightarrow> a \<in> h_live h"
    and "\<And>a b r r'. h_rings h a = Some r \<Longrightarrow> h_rings h b = Some r' \<Longrightarrow> rb_block r = rb_block r' \<Longrightarrow> a = b"
  shows "heap_wf h"
  unfolding heap_wf_def using assms by blast

lemma heap_wf_new:
  assumes wf: "heap_wf h" and a: "h_calls h < a"
  shows "a \<notin> h_live h" "h_rings h a = None" "h_managers h a = None"
    "h_rings h b = Some r \<Longrightarrow> rb_block r \<noteq> a"
proof -
  show n: "a \<notin> h_live h" using heap_wfD(2) [OF wf, of a] a by auto
  show "h_rings h a = None" using heap_wfD(3) [OF wf, of a] n by (cases "h_rings h a") auto
  show "h_managers h a = None" using heap_wfD(8) [OF wf, of a] n by (cases "h_managers h a") auto
  show "h_rings h b = Some r \<Longrightarrow> rb_block r \<noteq> a" using heap_wfD(5) [OF wf, of b r] n by auto
qed

lemma heap_wf_calls: "heap_wf h \<Longrightarrow> h_calls h \<le> n \<Longrightarrow> heap_wf (h\<lparr>h_calls := n\<rparr>)"
  by (auto simp: heap_wf_def)

text \<open>Allocating and releasing a block that holds neither a ring nor a manager.\<close>

lemma heap_alloc_wf:
  assumes "heap_wf h" "heap_alloc alloc_ok h = (a, h')"
  shows "heap_wf h'" "h_rings h' = h_rings h" "h_managers h' = h_managers h"
    "a = 0 \<and> h_live h' = h_live h
     \<or> 0 < a \<and> a \<notin> h_live h \<and> h_live h' = insert a (h_live h) \<and> h_rings h a = None \<and> h_managers h a = None
        \<and> (\<forall>b r. h_rings h b = Some r \<longrightarrow> rb_block r \<noteq> a)"
  using assms heap_wf_new [OF assms(1), of "Suc (h_calls h)"] heap_wfD [OF assms(1)]
  by (auto simp: heap_alloc_def Let_def heap_wf_def le_SucI split: if_splits)

lemma heap_free_plain:
  assumes "heap_wf h" "a \<in> h_live h" "h_rings h a = None" "h_managers h a = None"
    and "\<forall>b r. h_rings h b = Some r \<longrightarrow> rb_block r \<noteq> a"
  shows "\<exists>h'. heap_free h a = Some h' \<and> heap_wf h' \<and> h_live h' = h_live h - {a} \<and> h_rings h' = h_rings h
    \<and> h_managers h' = h_managers h"
proof -
  have "0 < a" using heap_wfD(1) [OF assms(1,2)] .
  moreover have "(h_rings h)(a := None) = h_rings h" "(h_managers h)(a := None) = h_managers h"
    using assms(3,4) by auto
  moreover have "heap_wf (h\<lparr>h_live := h_live h - {a}\<rparr>)"
    using assms heap_wfD [OF assms(1)] by (intro heap_wfI) auto
  ultimately show ?thesis using assms(2) by (auto simp: heap_free_def)
qed

lemma heap_wf_add_ring:
  assumes wf: "heap_wf h" and new: "h_calls h < a" "h_calls h < b" "a \<noteq> b" "a \<le> n" "b \<le> n"
    and r: "rb_block r = b"
  shows "heap_wf (h\<lparr>h_calls := n, h_live := insert b (insert a (h_live h)), h_rings := (h_rings h)(a \<mapsto> r)\<rparr>)"
proof -
  note na = heap_wf_new [OF wf new(1)] and nb = heap_wf_new [OF wf new(2)] and d = heap_wfD [OF wf]
  show ?thesis
  proof (rule heap_wfI, goal_cases)
    case (1 c)
    then show ?case using d(1,2) [of c] new by auto
  next
    case (2 c s)
    then show ?case using na nb r new(3) d(3-7) [of c s] by (auto split: if_splits)
  next
    case (3 c m)
    then show ?case using d(8) by simp
  next
    case (4 c e s t)
    then show ?case using nb(4) [of c s] nb(4) [of e t] r d(9) [of c s e t] by (auto split: if_splits)
  qed
qed

lemma heap_wf_remove_ring:
  assumes wf: "heap_wf h" and r: "h_rings h a = Some r"
  shows "heap_wf (h\<lparr>h_live := h_live h - {a, rb_block r}, h_rings := (h_rings h)(a := None)\<rparr>)"
proof -
  note d = heap_wfD [OF wf] and da = heap_wfD(3-7) [OF wf, where a = a and r = r]
  show ?thesis
  proof (rule heap_wfI, goal_cases)
    case (1 c)
    then show ?case using d(1,2) [of c] by simp
  next
    case (2 c s)
    then show ?case using d(3-7) [of c s] d(9) [of c s a r] da r by (auto split: if_splits)
  next
    case (3 c m)
    then show ?case using d(8) [of c m] da r by auto
  next
    case (4 c e s t)
    then show ?case using d(9) [of c s e t] by (simp split: if_splits)
  qed
qed

lemma ring_buffer_create_law:
  assumes wf: "heap_wf h" and c: "1 \<le> k" "k \<le> 31" "ring_capacity c = Some (2 ^ k)"
  obtains a h' where "ring_buffer_create alloc_ok junk h c = Some (a, h')" "heap_wf h'"
    "h_managers h' = h_managers h" "h_calls h \<le> h_calls h'"
    "a = 0 \<Longrightarrow> h_live h' = h_live h \<and> h_rings h' = h_rings h"
    "a \<noteq> 0 \<Longrightarrow> fresh_in h h' a (2 ^ k)"
proof -
  let ?a = "Suc (h_calls h)" and ?b = "Suc (Suc (h_calls h))"
  have new: "?a \<notin> h_live h" "?b \<notin> h_live h" "h_rings h ?a = None" "h_managers h ?a = None"
    using heap_wf_new [OF wf] by simp_all
  note ew = fresh_ring_wf [OF c(1,2) refl, of junk ?b 0]
  have upd: "(h_rings h)(?a := None) = h_rings h" "(h_managers h)(?a := None) = h_managers h"
    using new by auto
  consider "\<not> alloc_ok ?a" | "alloc_ok ?a" "\<not> alloc_ok ?b" | "alloc_ok ?a" "alloc_ok ?b" by blast
  then show ?thesis
  proof cases
    case 1
    then show ?thesis using wf c
      by (intro that [of 0 "h\<lparr>h_calls := ?a\<rparr>"])
         (simp_all add: ring_buffer_create_def heap_alloc_def heap_wf_calls Let_def)
  next
    case 2
    then have "ring_buffer_create alloc_ok junk h c = Some (0, h\<lparr>h_calls := ?b\<rparr>)"
      using c new upd by (cases h)
        (simp add: ring_buffer_create_def heap_alloc_def heap_free_def Let_def)
    with wf show ?thesis by (intro that [of 0 "h\<lparr>h_calls := ?b\<rparr>"]) (simp_all add: heap_wf_calls)
  next
    case 3
    let ?r = "\<lparr>rb_head = 0, rb_tail = 0, rb_capacity = 2 ^ k, rb_mask = 2 ^ k - 1,
               rb_buffer = map junk [0..<unat (2 ^ k :: u32)], rb_block = ?b, rb_dropped = 0\<rparr>"
    let ?h = "h\<lparr>h_calls := ?b, h_live := insert ?b (insert ?a (h_live h)),
                h_rings := (h_rings h)(?a \<mapsto> ?r)\<rparr>"
    have "ring_buffer_create alloc_ok junk h c = Some (?a, ?h)"
      using 3 c by (cases h) (simp add: ring_buffer_create_def heap_alloc_def Let_def)
    moreover have "fresh_in h ?h ?a (2 ^ k)"
      using new ew unfolding fresh_in_def by (intro exI [of _ ?r]) (simp add: insert_commute)
    moreover have "heap_wf ?h" using wf by (rule heap_wf_add_ring) simp_all
    ultimately show ?thesis by (intro that [of ?a ?h]) simp_all
  qed
qed

lemma ring_buffer_destroy_law:
  assumes wf: "heap_wf h" and r: "h_rings h a = Some r"
  obtains h' where "ring_buffer_destroy h a = Some h'" "heap_wf h'"
    "h_live h' = h_live h - {a, rb_block r}" "h_rings h' = (h_rings h)(a := None)"
    "h_managers h' = h_managers h"
proof -
  let ?b = "rb_block r"
  have a: "0 < a" "a \<in> h_live h" "h_managers h a = None" "0 < ?b" "?b \<in> h_live h" "?b \<noteq> a"
    "h_rings h ?b = None" "h_managers h ?b = None"
    using heap_wfD(3-7) [OF wf r] heap_wfD(1) [OF wf, of a] heap_wfD(1) [OF wf, of "rb_block r"] r by auto
  let ?h = "h\<lparr>h_live := h_live h - {a, ?b}, h_rings := (h_rings h)(a := None)\<rparr>"
  have upd: "(h_rings h)(?b := None) = h_rings h" "(h_managers h)(?b := None) = h_managers h"
    "(h_managers h)(a := None) = h_managers h" "h_live h - {?b} - {a} = h_live h - {a, ?b}"
    using a by auto
  have "ring_buffer_destroy h a = Some ?h"
    using a r upd by (simp add: ring_buffer_destroy_def heap_free_def Let_def)
  moreover have "heap_wf ?h"
    using wf r by (rule heap_wf_remove_ring)
  ultimately show ?thesis by (intro that [of ?h]) simp_all
qed

section \<open>Ownership\<close>

text \<open>The blocks that the ring at an address owns; none for the null pointer.\<close>

definition ring_blocks :: "heap \<Rightarrow> nat \<Rightarrow> nat set" where
  "ring_blocks h a = (case h_rings h a of None \<Rightarrow> {} | Some r \<Rightarrow> {a, rb_block r})"

definition empty_ring_at :: "heap \<Rightarrow> u32 \<Rightarrow> nat \<Rightarrow> bool" where
  "empty_ring_at h cap a \<longleftrightarrow> (case h_rings h a of None \<Rightarrow> False
     | Some r \<Rightarrow> rb_wf r \<and> rb_contents r = [] \<and> rb_capacity r = cap \<and> rb_dropped r = 0)"

lemma null_ring: "heap_wf h \<Longrightarrow> h_rings h 0 = None"
  using heap_wfD(1,3) [of h 0] by (cases "h_rings h 0") auto

lemma create_owned:
  assumes wf: "heap_wf h" and c: "1 \<le> k" "k \<le> 31" "ring_capacity c = Some (2 ^ k)"
  obtains a h' where "ring_buffer_create alloc_ok junk h c = Some (a, h')" "heap_wf h'"
    "h_managers h' = h_managers h" "\<And>b. b \<noteq> a \<Longrightarrow> h_rings h' b = h_rings h b" "h_rings h a = None"
    "h_live h' = h_live h \<union> ring_blocks h' a" "ring_blocks h' a \<inter> h_live h = {}"
    "a = 0 \<or> empty_ring_at h' (2 ^ k) a"
proof -
  obtain a h' where a: "ring_buffer_create alloc_ok junk h c = Some (a, h')" "heap_wf h'"
    "h_managers h' = h_managers h" "a = 0 \<Longrightarrow> h_live h' = h_live h \<and> h_rings h' = h_rings h"
    "a \<noteq> 0 \<Longrightarrow> fresh_in h h' a (2 ^ k)"
    by (rule ring_buffer_create_law [OF wf c, of alloc_ok junk]) blast
  show ?thesis
  proof (cases "a = 0")
    case True
    with a null_ring [OF wf] show ?thesis by (intro that [of a h']) (auto simp: ring_blocks_def)
  next
    case False
    then have "h_rings h a = None"
      using a(5) heap_wfD(3) [OF wf, of a] by (cases "h_rings h a") (auto simp: fresh_in_def)
    obtain r where "h_rings h' = (h_rings h)(a \<mapsto> r)" "a \<notin> h_live h" "rb_block r \<notin> h_live h"
      "h_live h' = insert a (insert (rb_block r) (h_live h))" "rb_wf r" "rb_contents r = []"
      "rb_capacity r = 2 ^ k" "rb_dropped r = 0"
      using a(5) [OF False] unfolding fresh_in_def by blast
    with a(1-3) \<open>h_rings h a = None\<close> show ?thesis
      by (intro that [of a h']) (simp_all add: ring_blocks_def empty_ring_at_def)
  qed
qed

lemma destroy_owned:
  assumes wf: "heap_wf h" and a: "a = 0 \<or> h_rings h a \<noteq> None"
  obtains h' where "ring_buffer_destroy h a = Some h'" "heap_wf h'"
    "h_live h' = h_live h - ring_blocks h a" "h_rings h' = (h_rings h)(a := None)"
    "h_managers h' = h_managers h"
proof (cases "h_rings h a")
  case None
  then have "a = 0" using a by simp
  moreover have "(h_rings h)(0 := None) = h_rings h" using null_ring [OF wf] by auto
  ultimately show ?thesis using wf null_ring [OF wf]
    by (intro that [of h]) (simp_all add: ring_buffer_destroy_def ring_blocks_def)
next
  case (Some r)
  obtain h' where "ring_buffer_destroy h a = Some h'" "heap_wf h'"
    "h_live h' = h_live h - {a, rb_block r}" "h_rings h' = (h_rings h)(a := None)"
    "h_managers h' = h_managers h"
    using ring_buffer_destroy_law [OF wf Some] .
  then show ?thesis using Some by (intro that [of h']) (simp_all add: ring_blocks_def)
qed

lemma store_manager_simps [simp]:
  "h_live (store_manager h bm m) = h_live h" "h_rings (store_manager h bm m) = h_rings h"
  "h_managers (store_manager h bm m) = (h_managers h)(bm \<mapsto> m)"
  by (simp_all add: store_manager_def)

lemma store_manager_wf:
  assumes "heap_wf h" "h_managers h bm = Some m"
  shows "heap_wf (store_manager h bm m')"
  using assms heap_wfD [OF assms(1)] by (intro heap_wfI) (auto simp: store_manager_def split: if_splits)

lemma ring_buffer_size_capacity: "ring_capacity RING_BUFFER_SIZE = Some (2 ^ 14)"
proof -
  have "(16384 :: u32) AND 16383 = 0" by (simp flip: unat_eq_zero)
  then show ?thesis by (simp add: ring_capacity_def RING_BUFFER_SIZE_def)
qed

text \<open>
  The outcome of \<open>buffer_manager_init\<close>: either all three rings exist, or nothing is left
  allocated and the manager's pointers are null.
\<close>

definition init_done :: "heap \<Rightarrow> heap \<Rightarrow> buffer_manager_t \<Rightarrow> bool" where
  "init_done h h' m \<longleftrightarrow> (let P = [capture_to_process m, process_to_network m, network_pool m] in
     distinct P \<and> (\<forall>a\<in>set P. a \<noteq> 0 \<and> empty_ring_at h' (2 ^ 14) a)
     \<and> h_live h' = h_live h \<union> (\<Union>a\<in>set P. ring_blocks h' a)
     \<and> (\<forall>a\<in>set P. ring_blocks h' a \<inter> h_live h = {}))"

definition init_rolled_back :: "heap \<Rightarrow> heap \<Rightarrow> buffer_manager_t \<Rightarrow> bool" where
  "init_rolled_back h h' m \<longleftrightarrow> h_live h' = h_live h \<and> h_rings h' = h_rings h
     \<and> m = \<lparr>capture_to_process = 0, process_to_network = 0, network_pool = 0\<rparr>"

lemma ring_blocks_cong: "h_rings h a = h_rings h' a \<Longrightarrow> ring_blocks h a = ring_blocks h' a"
  by (simp add: ring_blocks_def)

lemma empty_ring_at_cong: "h_rings h a = h_rings h' a \<Longrightarrow> empty_ring_at h c a = empty_ring_at h' c a"
  by (simp add: empty_ring_at_def)

lemma empty_ring_at_some: "empty_ring_at h c a \<Longrightarrow> h_rings h a \<noteq> None"
  by (auto simp: empty_ring_at_def split: option.splits)

definition created :: "heap \<Rightarrow> heap \<Rightarrow> nat \<Rightarrow> bool" where
  "created h h' a \<longleftrightarrow> heap_wf h' \<and> h_managers h' = h_managers h
     \<and> (\<forall>b. b \<noteq> a \<longrightarrow> h_rings h' b = h_rings h b) \<and> h_rings h a = None
     \<and> h_live h' = h_live h \<union> ring_blocks h' a \<and> ring_blocks h' a \<inter> h_live h = {}
     \<and> (a = 0 \<or> empty_ring_at h' (2 ^ 14) a)"

lemma create_ring:
  assumes "heap_wf h"
  obtains a h' where "ring_buffer_create alloc_ok junk h RING_BUFFER_SIZE = Some (a, h')" "created h h' a"
  by (rule create_owned [OF assms _ _ ring_buffer_size_capacity, of alloc_ok junk])
     (auto simp: created_def)

lemma created_null:
  assumes "created h h' 0"
  shows "h_rings h' = h_rings h" "h_live h' = h_live h"
proof -
  have "h_rings h' b = h_rings h b" for b
    using assms null_ring [of h'] by (cases "b = 0") (auto simp: created_def)
  then show "h_rings h' = h_rings h" by blast
  show "h_live h' = h_live h" using assms null_ring [of h'] by (auto simp: created_def ring_blocks_def)
qed

lemma createdD:
  assumes "created h h' a"
  shows "h_rings h b \<noteq> None \<Longrightarrow> h_rings h' b = h_rings h b" "a \<noteq> 0 \<Longrightarrow> h_rings h' a \<noteq> None"
    "h_rings h b \<noteq> None \<Longrightarrow> b \<noteq> a"
proof -
  show ne: "h_rings h b \<noteq> None \<Longrightarrow> b \<noteq> a" using assms by (auto simp: created_def)
  show "h_rings h b \<noteq> None \<Longrightarrow> h_rings h' b = h_rings h b" using assms ne by (simp add: created_def)
  show "a \<noteq> 0 \<Longrightarrow> h_rings h' a \<noteq> None"
    using assms empty_ring_at_some [of h' "2 ^ 14" a] by (simp add: created_def)
qed

lemma created_undo:
  assumes c: "created h h1 a" "a \<noteq> 0" and h2: "heap_wf h2" "h_rings h2 = h_rings h1" "h_live h2 = h_live h1"
  obtains h3 where "ring_buffer_destroy h2 a = Some h3" "heap_wf h3" "h_rings h3 = h_rings h"
    "h_live h3 = h_live h" "h_managers h3 = h_managers h2"
proof -
  have e: "empty_ring_at h1 (2 ^ 14) a" using c by (simp add: created_def)
  obtain h3 where h3: "ring_buffer_destroy h2 a = Some h3" "heap_wf h3"
    "h_live h3 = h_live h2 - ring_blocks h2 a" "h_rings h3 = (h_rings h2)(a := None)"
    "h_managers h3 = h_managers h2"
    using destroy_owned [OF h2(1)] empty_ring_at_some [OF e] h2(2) by metis
  have "h_rings h3 = h_rings h" using c h3(4) h2(2) by (auto simp: created_def)
  moreover have "h_live h3 = h_live h"
    using c h3(3) h2 ring_blocks_cong [of h2 a h1] by (auto simp: created_def)
  ultimately show ?thesis using h3 by (intro that)
qed

lemma created_undo_two:
  assumes c: "created h h1 a" "a \<noteq> 0" "created h1 h2 b" "b \<noteq> 0"
    and h3: "heap_wf h3" "h_rings h3 = h_rings h2" "h_live h3 = h_live h2"
  obtains h4 h5 where "ring_buffer_destroy h3 a = Some h4" "ring_buffer_destroy h4 b = Some h5" "heap_wf h5"
    "h_rings h5 = h_rings h" "h_live h5 = h_live h" "h_managers h5 = h_managers h3"
proof -
  have e: "h_rings h1 a \<noteq> None" "h_rings h2 b \<noteq> None"
    using createdD(2) [OF c(1,2)] createdD(2) [OF c(3,4)] by simp_all
  have ne: "a \<noteq> b" using createdD(3) [OF c(3) e(1)] .
  have ra: "h_rings h3 a = h_rings h1 a" "h_rings h3 b = h_rings h2 b"
    using createdD(1) [OF c(3) e(1)] h3(2) by simp_all
  obtain h4 where h4: "ring_buffer_destroy h3 a = Some h4" "heap_wf h4"
    "h_live h4 = h_live h3 - ring_blocks h3 a" "h_rings h4 = (h_rings h3)(a := None)"
    "h_managers h4 = h_managers h3"
    using destroy_owned [OF h3(1), of a] e ra by metis
  obtain h5 where h5: "ring_buffer_destroy h4 b = Some h5" "heap_wf h5"
    "h_live h5 = h_live h4 - ring_blocks h4 b" "h_rings h5 = (h_rings h4)(b := None)"
    "h_managers h5 = h_managers h4"
    using destroy_owned [OF h4(2), of b] e ra h4(4) ne by (metis fun_upd_other)
  have "h_rings h5 = h_rings h"
    using c h3(2) h4(4) h5(4) by (intro ext) (auto simp: created_def)
  moreover have "ring_blocks h3 a = ring_blocks h1 a" "ring_blocks h4 b = ring_blocks h2 b"
    using ra ne h4(4) by (simp_all add: ring_blocks_def)
  then have "h_live h5 = h_live h" using c h3(3) h4(3) h5(3) by (auto simp: created_def)
  ultimately show ?thesis using h4 h5 by (intro that [of h4 h5]) simp_all
qed

lemma created_three:
  assumes "created h h1 a" "a \<noteq> 0" "created h1 h2 b" "b \<noteq> 0" "created h2 h3 c" "c \<noteq> 0"
    and "h_rings h' = h_rings h3" "h_live h' = h_live h3"
  shows "init_done h h' \<lparr>capture_to_process = a, process_to_network = b, network_pool = c\<rparr>"
proof -
  have e: "h_rings h1 a \<noteq> None" "h_rings h2 b \<noteq> None" "h_rings h3 c \<noteq> None"
    using createdD(2) [OF assms(1,2)] createdD(2) [OF assms(3,4)] createdD(2) [OF assms(5,6)] by simp_all
  have a2: "h_rings h2 a = h_rings h1 a" using createdD(1) [OF assms(3) e(1)] .
  have r: "h_rings h' a = h_rings h1 a" "h_rings h' b = h_rings h2 b" "h_rings h' c = h_rings h3 c"
    using createdD(1) [OF assms(5)] e a2 assms(7) by simp_all
  have ne: "a \<noteq> b" "b \<noteq> c" "a \<noteq> c"
    using createdD(3) [OF assms(3) e(1)] createdD(3) [OF assms(5)] e a2 by auto
  note rc = r [THEN ring_blocks_cong] and ec = r [THEN empty_ring_at_cong]
  show ?thesis unfolding init_done_def Let_def
    using assms ne by (auto simp: rc ec created_def)
qed

lemma manager_not_null: "heap_wf h \<Longrightarrow> h_managers h bm = Some m \<Longrightarrow> bm \<noteq> 0"
  using heap_wfD(1,8) [of h bm] by blast

definition init_outcome :: "heap \<Rightarrow> nat \<Rightarrow> (adc_error_t \<times> heap) option \<Rightarrow> bool" where
  "init_outcome h bm out \<longleftrightarrow> (\<exists>e h' m'. out = Some (e, h') \<and> heap_wf h'
     \<and> h_managers h' = (h_managers h)(bm \<mapsto> m')
     \<and> (e = ADC_OK \<and> init_done h h' m' \<or> e = ADC_ERROR_BUFFER \<and> init_rolled_back h h' m'))"

definition null_manager :: buffer_manager_t where
  "null_manager = \<lparr>capture_to_process = 0, process_to_network = 0, network_pool = 0\<rparr>"

lemma init_outcome_rolled_back:
  assumes "heap_wf h'" "h_rings h' = h_rings h" "h_live h' = h_live h" "h_managers h' = h_managers h"
    and "h_managers h bm = Some m"
  shows "init_outcome h bm (Some (ADC_ERROR_BUFFER, store_manager h' bm null_manager))"
  using assms store_manager_wf [OF assms(1), of bm]
  by (auto simp: init_outcome_def init_rolled_back_def null_manager_def)

lemma init_third_ring:
  assumes bm: "h_managers h bm = Some null_manager" "bm \<noteq> 0"
    and c: "ring_buffer_create alloc_ok junk h RING_BUFFER_SIZE = Some (c, h1)" "created h h1 c" "c \<noteq> 0"
    and p: "ring_buffer_create alloc_ok junk h1 RING_BUFFER_SIZE = Some (p, h2)" "created h1 h2 p" "p \<noteq> 0"
  shows "init_outcome h bm (buffer_manager_init alloc_ok junk h bm)"
proof -
  note def = buffer_manager_init_def [of alloc_ok junk h bm] Let_def null_manager_def
  have w2: "heap_wf h2" "h_managers h2 = h_managers h" using c p by (simp_all add: created_def)
  obtain n h3 where n: "ring_buffer_create alloc_ok junk h2 RING_BUFFER_SIZE = Some (n, h3)" "created h2 h3 n"
    using create_ring [OF w2(1)] .
  then have w3: "heap_wf h3" "h_managers h3 = h_managers h" using w2 by (simp_all add: created_def)
  show ?thesis
  proof (cases "n = 0")
    case True
    obtain h4 h5 where h5: "ring_buffer_destroy h3 c = Some h4" "ring_buffer_destroy h4 p = Some h5"
      "heap_wf h5" "h_rings h5 = h_rings h" "h_live h5 = h_live h" "h_managers h5 = h_managers h3"
      using created_undo_two [OF c(2,3) p(2,3) w3(1)] created_null [of h2 h3] n(2) True by metis
    then have "buffer_manager_init alloc_ok junk h bm = Some (ADC_ERROR_BUFFER, store_manager h5 bm null_manager)"
      using bm c p n True by (simp add: def)
    then show ?thesis using init_outcome_rolled_back [OF h5(3-5) _ bm(1)] h5(6) w3 by simp
  next
    case False
    let ?m = "\<lparr>capture_to_process = c, process_to_network = p, network_pool = n\<rparr>"
    have "init_done h (store_manager h3 bm ?m) ?m"
      by (rule created_three [OF c(2,3) p(2,3) n(2) False]) simp_all
    moreover have "buffer_manager_init alloc_ok junk h bm = Some (ADC_OK, store_manager h3 bm ?m)"
      using bm c p n False by (simp add: def)
    ultimately show ?thesis using store_manager_wf [OF w3(1), of bm] w3(2) bm
      by (auto simp: init_outcome_def)
  qed
qed

lemma buffer_manager_init_law:
  assumes wf: "heap_wf h" and bm: "h_managers h bm = Some null_manager"
  shows "init_outcome h bm (buffer_manager_init alloc_ok junk h bm)"
proof -
  note def = buffer_manager_init_def [of alloc_ok junk h bm] Let_def null_manager_def
  note bm0 = manager_not_null [OF wf bm]
  obtain c h1 where c: "ring_buffer_create alloc_ok junk h RING_BUFFER_SIZE = Some (c, h1)" "created h h1 c"
    using create_ring [OF wf] .
  then have w1: "heap_wf h1" "h_managers h1 = h_managers h" by (simp_all add: created_def)
  obtain p h2 where p: "ring_buffer_create alloc_ok junk h1 RING_BUFFER_SIZE = Some (p, h2)" "created h1 h2 p"
    using create_ring [OF w1(1)] .
  then have w2: "heap_wf h2" "h_managers h2 = h_managers h" using w1 by (simp_all add: created_def)
  consider "c = 0" | "c \<noteq> 0" "p = 0" | "c \<noteq> 0" "p \<noteq> 0" by blast
  then show ?thesis
  proof cases
    case 1
    then have "buffer_manager_init alloc_ok junk h bm = Some (ADC_ERROR_BUFFER, store_manager h1 bm null_manager)"
      using c bm bm0 by (simp add: def)
    then show ?thesis using init_outcome_rolled_back [OF w1(1) _ _ w1(2) bm] created_null [of h h1] c(2) 1 by simp
  next
    case 2
    obtain h3 where h3: "ring_buffer_destroy h2 c = Some h3" "heap_wf h3" "h_rings h3 = h_rings h"
      "h_live h3 = h_live h" "h_managers h3 = h_managers h2"
      using created_undo [OF c(2) 2(1) w2(1)] created_null [of h1 h2] p(2) 2(2) by metis
    then have "buffer_manager_init alloc_ok junk h bm = Some (ADC_ERROR_BUFFER, store_manager h3 bm null_manager)"
      using bm bm0 c p 2 by (simp add: def)
    then show ?thesis using init_outcome_rolled_back [OF h3(2-4) _ bm] h3(5) w2 by simp
  next
    case 3
    with init_third_ring [OF bm bm0 c _ p] show ?thesis by simp
  qed
qed

text \<open>The pointers of a manager that may be destroyed: null, or distinct existing rings.\<close>

definition manager_ok :: "heap \<Rightarrow> buffer_manager_t \<Rightarrow> bool" where
  "manager_ok h m \<longleftrightarrow> (let P = [capture_to_process m, process_to_network m, network_pool m] in
     (\<forall>a\<in>set P. a = 0 \<or> h_rings h a \<noteq> None) \<and> distinct (filter (\<lambda>a. a \<noteq> 0) P))"

lemma guard_null: "(if a \<noteq> 0 then ring_buffer_destroy h a else Some h) = ring_buffer_destroy h a"
  by (simp add: ring_buffer_destroy_def)

lemma ring_blocks_remove:
  assumes "heap_wf h" "h_rings h' = (h_rings h)(a := None)" "b = 0 \<or> b \<noteq> a"
  shows "ring_blocks h' b = ring_blocks h b" "b = 0 \<or> h_rings h b \<noteq> None \<Longrightarrow> b = 0 \<or> h_rings h' b \<noteq> None"
  using assms null_ring [of h] by (auto simp: ring_blocks_def)

lemma buffer_manager_destroy_law:
  assumes wf: "heap_wf h" and bm: "h_managers h bm = Some m" and ok: "manager_ok h m"
    and P: "P = {capture_to_process m, process_to_network m, network_pool m}"
  shows "\<exists>h'. buffer_manager_destroy h bm = Some h' \<and> h_live h' = h_live h - (\<Union>a\<in>P. ring_blocks h a) - {bm}
    \<and> (\<forall>a\<in>P. h_rings h' a = None)"
proof -
  let ?c = "capture_to_process m" and ?p = "process_to_network m" and ?n = "network_pool m"
  have ptr: "?c = 0 \<or> h_rings h ?c \<noteq> None" "?p = 0 \<or> h_rings h ?p \<noteq> None" "?n = 0 \<or> h_rings h ?n \<noteq> None"
    and ne: "?p = 0 \<or> ?p \<noteq> ?c" "?n = 0 \<or> ?n \<noteq> ?c" "?n = 0 \<or> ?n \<noteq> ?p"
    using ok by (auto simp: manager_ok_def split: if_splits)
  obtain h1 where h1: "ring_buffer_destroy h ?c = Some h1" "heap_wf h1"
    "h_live h1 = h_live h - ring_blocks h ?c" "h_rings h1 = (h_rings h)(?c := None)" "h_managers h1 = h_managers h"
    using destroy_owned [OF wf ptr(1)] .
  note p1 = ring_blocks_remove [OF wf h1(4) ne(1)] and n1 = ring_blocks_remove [OF wf h1(4) ne(2)]
  obtain h2 where h2: "ring_buffer_destroy h1 ?p = Some h2" "heap_wf h2"
    "h_live h2 = h_live h1 - ring_blocks h1 ?p" "h_rings h2 = (h_rings h1)(?p := None)" "h_managers h2 = h_managers h1"
    using destroy_owned [OF h1(2) p1(2) [OF ptr(2)]] .
  note n2 = ring_blocks_remove [OF h1(2) h2(4) ne(3)]
  obtain h3 where h3: "ring_buffer_destroy h2 ?n = Some h3" "heap_wf h3"
    "h_live h3 = h_live h2 - ring_blocks h2 ?n" "h_managers h3 = h_managers h2" "h_rings h3 = (h_rings h2)(?n := None)"
    using destroy_owned [OF h2(2) n2(2) [OF n1(2) [OF ptr(3)]]] .
  have b: "bm \<noteq> 0" "bm \<in> h_live h3"
    using manager_not_null [OF wf bm] heap_wfD(8) [OF h3(2)] h3(4) h2(5) h1(5) bm by simp_all
  have "buffer_manager_destroy h bm = heap_free h3 bm"
    unfolding buffer_manager_destroy_def guard_null using bm b(1) h1(1) h2(1) h3(1) by simp
  then show ?thesis
    using b h1(3,4) h2(3,4) h3(3,5) p1(1) n1(1) n2(1) P by (auto simp: heap_free_def)
qed

lemma init_done_ok: "init_done h h' m \<Longrightarrow> manager_ok h' m"
  using empty_ring_at_some by (auto simp: init_done_def manager_ok_def Let_def)

lemma null_manager_ok: "manager_ok h null_manager"
  by (simp add: manager_ok_def null_manager_def)

lemma buffer_manager_create_law:
  assumes wf: "heap_wf h" and c: "buffer_manager_create alloc_ok h = (bm, h')"
  shows "bm = 0 \<and> h_live h' = h_live h \<or>
    bm \<notin> h_live h \<and> h_live h' = insert bm (h_live h) \<and> heap_wf h' \<and> h_managers h' bm = Some null_manager"
proof (cases "alloc_ok (Suc (h_calls h))")
  case True
  let ?a = "Suc (h_calls h)"
  have h': "bm = ?a" "h' = h\<lparr>h_calls := ?a, h_live := insert ?a (h_live h),
      h_managers := (h_managers h)(?a \<mapsto> null_manager)\<rparr>"
    using c True by (auto simp: buffer_manager_create_def heap_alloc_def null_manager_def Let_def)
  note new = heap_wf_new [OF wf, of ?a] and d = heap_wfD [OF wf]
  have "heap_wf h'" unfolding h'
  proof (rule heap_wfI, goal_cases)
    case (1 c)
    then show ?case using d(1,2) [of c] by auto
  next
    case (2 c r)
    then show ?case using d(3-7) [of c r] new(2) new(4) [of c r] by auto
  next
    case (3 c n)
    then show ?case using d(8) [of c n] by (auto split: if_splits)
  next
    case (4 c e r t)
    then show ?case using d(9) [of c r e t] by simp
  qed
  with h' new show ?thesis by simp
qed (use c in \<open>auto simp: buffer_manager_create_def heap_alloc_def Let_def\<close>)

section \<open>Properties\<close>

definition empty_heap :: heap where
  "empty_heap = \<lparr>h_calls = 0, h_live = {}, h_rings = Map.empty, h_managers = Map.empty\<rparr>"

lemma empty_heap_wf: "heap_wf empty_heap"
  by (simp add: heap_wf_def empty_heap_def)

text \<open>
  C25. The life cycle of the buffer manager is memory safe and leak free, whatever allocations
  fail: creating, initialising and destroying it never frees a block twice and never reads a freed
  one, and in the end exactly the blocks that were allocated before are allocated.
\<close>

theorem buffer_manager_lifecycle:
  assumes "heap_wf h" "buffer_manager_create alloc_ok h = (bm, h1)"
  shows "bm = 0 \<and> h_live h1 = h_live h
    \<or> (\<exists>e h2 h3. buffer_manager_init alloc_ok junk h1 bm = Some (e, h2)
         \<and> buffer_manager_destroy h2 bm = Some h3 \<and> h_live h3 = h_live h)"
proof (cases "bm = 0")
  case True
  then show ?thesis using assms buffer_manager_create_law [OF assms] heap_wfD(1) [of h1 bm] by auto
next
  case False
  then have h1: "bm \<notin> h_live h" "h_live h1 = insert bm (h_live h)" "heap_wf h1" "h_managers h1 bm = Some null_manager"
    using buffer_manager_create_law [OF assms] by auto
  obtain e h2 m where init: "buffer_manager_init alloc_ok junk h1 bm = Some (e, h2)" "heap_wf h2"
    "h_managers h2 bm = Some m" "init_done h1 h2 m \<or> init_rolled_back h1 h2 m"
    using buffer_manager_init_law [OF h1(3,4), of alloc_ok junk] by (auto simp: init_outcome_def)
  let ?P = "{capture_to_process m, process_to_network m, network_pool m}"
  have ok: "manager_ok h2 m"
    using init(4) init_done_ok null_manager_ok by (auto simp: init_rolled_back_def null_manager_def)
  have "h_live h2 - (\<Union>a\<in>?P. ring_blocks h2 a) = h_live h1"
    using init(4) null_ring [OF init(2)]
    by (auto simp: init_done_def init_rolled_back_def Let_def ring_blocks_def)
  with buffer_manager_destroy_law [OF init(2,3) ok refl] init(1) h1(1,2) show ?thesis by auto
qed

theorem buffer_manager_lifecycle_witness:
  "\<exists>e h2 h3. buffer_manager_init (\<lambda>i. i < 6) (\<lambda>_. blank_sample)
       (snd (buffer_manager_create (\<lambda>i. i < 6) empty_heap)) 1 = Some (e, h2)
     \<and> buffer_manager_destroy h2 1 = Some h3 \<and> h_live h3 = {}"
  using buffer_manager_lifecycle [OF empty_heap_wf, of "\<lambda>i. i < 6" 1
      "snd (buffer_manager_create (\<lambda>i. i < 6) empty_heap)" "\<lambda>_. blank_sample"]
  by (simp add: buffer_manager_create_def heap_alloc_def empty_heap_def Let_def)

text \<open>
  \<^verbatim>\<open>buffer_manager_init\<close> is all or nothing: it returns \<open>ADC_OK\<close> with three
  distinct, newly allocated, well-formed empty rings of 16384 slots, or \<open>ADC_ERROR_BUFFER\<close>
  with every partial allocation released and all three pointers null.
\<close>

theorem buffer_manager_init_all_or_nothing:
  assumes "heap_wf h" "h_managers h bm = Some null_manager"
  shows "\<exists>e h' m. buffer_manager_init alloc_ok junk h bm = Some (e, h') \<and> heap_wf h'
    \<and> h_managers h' = (h_managers h)(bm \<mapsto> m)
    \<and> (e = ADC_OK \<and> init_done h h' m \<or> e = ADC_ERROR_BUFFER \<and> init_rolled_back h h' m)"
  using buffer_manager_init_law [OF assms, of alloc_ok junk] unfolding init_outcome_def .

theorem buffer_manager_init_all_or_nothing_witness:
  "\<exists>e h' m. buffer_manager_init (\<lambda>i. i < 6) (\<lambda>_. blank_sample)
       (snd (buffer_manager_create (\<lambda>i. i < 6) empty_heap)) 1 = Some (e, h') \<and> h_managers h' = [1 \<mapsto> m]"
proof -
  let ?h = "snd (buffer_manager_create (\<lambda>i. i < 6) empty_heap)"
  have c: "buffer_manager_create (\<lambda>i. i < 6) empty_heap = (1, ?h)" "h_managers ?h = [1 \<mapsto> null_manager]"
    by (simp_all add: buffer_manager_create_def heap_alloc_def empty_heap_def null_manager_def Let_def)
  then have "heap_wf ?h" using buffer_manager_create_law [OF empty_heap_wf c(1)] by simp
  from buffer_manager_init_all_or_nothing [OF this, of 1 "\<lambda>i. i < 6" "\<lambda>_. blank_sample"] c(2)
  show ?thesis by auto
qed

text \<open>
  \<^verbatim>\<open>ring_buffer_create\<close> followed by \<^verbatim>\<open>ring_buffer_destroy\<close> gives
  every block back, also when one of the two allocations fails; a successful creation yields a
  well-formed empty ring that holds one sample less than its power-of-two capacity.
\<close>

theorem ring_create_destroy:
  assumes "heap_wf h" "unat c \<le> 2 ^ 31"
  shows "\<exists>a h1 h2. ring_buffer_create alloc_ok junk h c = Some (a, h1)
    \<and> ring_buffer_destroy h1 a = Some h2 \<and> h_live h2 = h_live h
    \<and> (a \<noteq> 0 \<longrightarrow> (\<exists>r k. h_rings h1 a = Some r \<and> rb_wf r \<and> rb_contents r = [] \<and> rb_dropped r = 0
          \<and> ring_capacity c = Some (2 ^ k) \<and> rb_bound r = 2 ^ k - 1))"
proof -
  obtain k where k: "1 \<le> k" "k \<le> 31" "ring_capacity c = Some (2 ^ k)"
    using ring_capacity_returns [OF assms(2)] by blast
  obtain a h1 where a: "ring_buffer_create alloc_ok junk h c = Some (a, h1)" "heap_wf h1"
    "h_rings h a = None" "h_live h1 = h_live h \<union> ring_blocks h1 a" "ring_blocks h1 a \<inter> h_live h = {}"
    "a = 0 \<or> empty_ring_at h1 (2 ^ k) a"
    by (rule create_owned [OF assms(1) k, of alloc_ok junk]) blast
  have "a = 0 \<or> h_rings h1 a \<noteq> None" using a(6) empty_ring_at_some by blast
  then obtain h2 where h2: "ring_buffer_destroy h1 a = Some h2" "h_live h2 = h_live h1 - ring_blocks h1 a"
    using destroy_owned [OF a(2)] by metis
  have "unat (2 ^ k :: u32) = 2 ^ k" using k(2) by (intro unat_pow2) simp
  then have "a \<noteq> 0 \<Longrightarrow> \<exists>r. h_rings h1 a = Some r \<and> rb_wf r \<and> rb_contents r = [] \<and> rb_dropped r = 0
      \<and> rb_bound r = 2 ^ k - 1"
    using a(6) by (auto simp: empty_ring_at_def rb_bound_def rb_size_def split: option.splits)
  with a h2 k(3) show ?thesis by blast
qed

theorem ring_create_destroy_witness:
  "\<exists>a h1 h2. ring_buffer_create (\<lambda>_. True) (\<lambda>_. blank_sample) empty_heap 100 = Some (a, h1)
    \<and> ring_buffer_destroy h1 a = Some h2 \<and> h_live h2 = {}"
  using ring_create_destroy [OF empty_heap_wf, of 100 "\<lambda>_. True" "\<lambda>_. blank_sample"]
  by (auto simp: empty_heap_def)

end
