(* ===== verification/Adc_Simulator.thy ===== *)
theory Adc_Simulator
  imports Config Buffer_Manager
begin

text \<open>
  The ADC simulator of \<^verbatim>\<open>src/adc/adc_simulator.c\<close>: sample generation, the capture
  thread's loop, and the life cycle operations.

  Floating-point arithmetic is real arithmetic with a rounding function applied to the result of
  every operation; the rounding function, \<^verbatim>\<open>sin\<close>, the values of \<^verbatim>\<open>rand\<close>
  and the clock readings are parameters. A callback is a function on the state of its owner
  (\<^verbatim>\<open>callback\<close> together with \<^verbatim>\<open>callback_data\<close>). \<open>None\<close> is
  undefined behaviour (division by zero, a float-to-integer conversion out of range).
\<close>

section \<open>State\<close>

record 'w adc_simulator =
  adc_self :: nat
  adc_config :: adc_config_t
  adc_running :: bool
  adc_sequence :: u32
  adc_start_time :: u64
  adc_callback :: "('w \<Rightarrow> adc_sample_t \<Rightarrow> 'w) option"
  adc_thread :: bool \<comment> \<open>a capture thread exists and has not been joined\<close>

record fp_env =
  fp_round :: "real \<Rightarrow> real"
  fp_sin :: "real \<Rightarrow> real"
  fp_rand_max :: int

definition C_PI :: real where
  "C_PI = 314159265358979323846 / 10 ^ 20"

section \<open>Sample generation\<close>

definition to_int32 :: "real \<Rightarrow> i32 option" where
  "to_int32 x =
     (let z = (if x \<ge> 0 then \<lfloor>x\<rfloor> else \<lceil>x\<rceil>)
      in if - (2 ^ 31) \<le> z \<and> z < 2 ^ 31 then Some (word_of_int z) else None)"

definition adc_max_val :: "u32 \<Rightarrow> i32" where
  "adc_max_val res = (if res > 0 \<and> res < 32 then push_bit (unat (res - 1)) 1 - 1 else 0x7FFFFFFF)"

definition generate_sample :: "fp_env \<Rightarrow> 'w adc_simulator \<Rightarrow> u64 \<Rightarrow> int \<Rightarrow> i32 option" where
  "generate_sample env adc timestamp_us r =
     (let R = fp_round env; cfg = adc_config adc;
          t = R (R (real (unat timestamp_us)) / 1000000);
          signal = fp_sin env (R (R (R (2 * R C_PI) * signal_freq cfg) * t));
          signal = (if noise_level cfg > 0
                    then let noise = R (R (R (R (of_int r / of_int (fp_rand_max env)) - 1 / 2) * 2) * noise_level cfg)
                         in R (signal + noise)
                    else signal);
          signal = (if signal > 1 then 1 else signal);
          signal = (if signal < -1 then -1 else signal);
          max_val = adc_max_val (resolution cfg)
      in to_int32 (R (signal * real_of_int (sint max_val))))"

text \<open>The common part of the capture loop and of \<open>adc_simulator_get_sample\<close>.\<close>

definition make_sample ::
  "fp_env \<Rightarrow> 'w adc_simulator \<Rightarrow> u64 \<Rightarrow> int \<Rightarrow> (adc_sample_t \<times> 'w adc_simulator) option" where
  "make_sample env adc current_time r = do {
     v \<leftarrow> generate_sample env adc current_time r;
     Some (\<lparr>s_timestamp = ucast (current_time - adc_start_time adc), s_value = v,
            s_sequence = adc_sequence adc, s_channel = 0, s_flags = 0\<rparr>,
           adc\<lparr>adc_sequence := adc_sequence adc + 1\<rparr>)
   }"

section \<open>The capture thread\<close>

text \<open>
  One iteration of the loop: \<open>now\<close> is the clock reading at its start. The history of the
  delivered samples with the reading at which each was taken is returned as well.
\<close>

definition capture_iteration ::
  "fp_env \<Rightarrow> u64 \<Rightarrow> u64 \<times> int \<Rightarrow> 'w adc_simulator \<times> u64 \<times> 'w
     \<Rightarrow> ((u64 \<times> adc_sample_t) list \<times> 'w adc_simulator \<times> u64 \<times> 'w) option" where
  "capture_iteration env interval reading state =
     (case (reading, state) of ((now, r), (adc, next_sample_time, w)) \<Rightarrow>
        if now \<ge> next_sample_time
        then do {
          (sample, adc) \<leftarrow> make_sample env adc now r;
          let w = (case adc_callback adc of None \<Rightarrow> w | Some f \<Rightarrow> f w sample);
          let next_sample_time = next_sample_time + interval;
          let next_sample_time = (if next_sample_time < now then now + interval else next_sample_time);
          Some ([(now, sample)], adc, next_sample_time, w)
        }
        else Some ([], adc, next_sample_time, w))"

fun capture_loop ::
  "fp_env \<Rightarrow> u64 \<Rightarrow> (u64 \<times> int) list \<Rightarrow> 'w adc_simulator \<times> u64 \<times> 'w
     \<Rightarrow> ((u64 \<times> adc_sample_t) list \<times> 'w adc_simulator \<times> u64 \<times> 'w) option" where
  "capture_loop env interval [] s = Some ([], s)"
| "capture_loop env interval (x # xs) s = do {
     (out, s) \<leftarrow> capture_iteration env interval x s;
     (outs, s) \<leftarrow> capture_loop env interval xs s;
     Some (out @ outs, s)
   }"

text \<open>
  The whole thread: the readings are those of the iterations it makes until it sees
  \<^verbatim>\<open>running\<close> cleared.
\<close>

definition capture_thread ::
  "fp_env \<Rightarrow> 'w adc_simulator \<Rightarrow> u64 \<Rightarrow> (u64 \<times> int) list \<Rightarrow> 'w
     \<Rightarrow> ((u64 \<times> adc_sample_t) list \<times> 'w adc_simulator \<times> u64 \<times> 'w) option" where
  "capture_thread env adc first_reading readings w =
     (if sample_rate (adc_config adc) = 0 then None
      else capture_loop env (1000000 div ucast (sample_rate (adc_config adc))) readings (adc, first_reading, w))"

section \<open>Life cycle\<close>

definition adc_config_get_default :: "adc_config_t option \<Rightarrow> adc_config_t option" where
  "adc_config_get_default config = map_option (\<lambda>c. c\<lparr>sample_rate := ADC_SAMPLE_RATE,
     resolution := ADC_RESOLUTION, channel_count := ADC_CHANNEL_COUNT, signal_freq := 1000,
     noise_level := 1 / 100, enable_trigger := False\<rparr>) config"

definition zero_adc_config :: adc_config_t where
  "zero_adc_config = \<lparr>sample_rate = 0, resolution = 0, channel_count = 0, signal_freq = 0, noise_level = 0,
     enable_trigger = False\<rparr>"

definition adc_simulator_create ::
  "(nat \<Rightarrow> bool) \<Rightarrow> heap \<Rightarrow> adc_config_t option \<Rightarrow> ('w adc_simulator option \<times> heap) option" where
  "adc_simulator_create alloc_ok h config =
     (let (p, h) = heap_alloc alloc_ok h in
      if p = 0 then Some (None, h)
      else do {
        c \<leftarrow> (case config of Some c \<Rightarrow> Some c | None \<Rightarrow> adc_config_get_default (Some zero_adc_config));
        Some (Some \<lparr>adc_self = p, adc_config = c, adc_running = False, adc_sequence = 0, adc_start_time = 0,
                adc_callback = None, adc_thread = False\<rparr>, h)
      })"

definition adc_simulator_start ::
  "bool \<Rightarrow> u64 \<Rightarrow> 'w adc_simulator option \<Rightarrow> adc_error_t \<times> 'w adc_simulator option" where
  "adc_simulator_start pthread_ok now adc =
     (case adc of None \<Rightarrow> (ADC_ERROR_INVALID_PARAM, None)
      | Some a \<Rightarrow>
          if adc_running a then (ADC_OK, adc)
          else let a = a\<lparr>adc_running := True, adc_start_time := now, adc_sequence := 0\<rparr> in
            if pthread_ok then (ADC_OK, Some (a\<lparr>adc_thread := True\<rparr>))
            else (ADC_ERROR_THREAD, Some (a\<lparr>adc_running := False\<rparr>)))"

definition adc_simulator_stop :: "'w adc_simulator option \<Rightarrow> adc_error_t \<times> 'w adc_simulator option" where
  "adc_simulator_stop adc =
     (case adc of None \<Rightarrow> (ADC_ERROR_INVALID_PARAM, None)
      | Some a \<Rightarrow>
          if \<not> adc_running a then (ADC_OK, adc)
          else (ADC_OK, Some (a\<lparr>adc_running := False, adc_thread := False\<rparr>)))"

definition adc_simulator_destroy :: "heap \<Rightarrow> 'w adc_simulator option \<Rightarrow> heap option" where
  "adc_simulator_destroy h adc =
     (case adc of None \<Rightarrow> Some h
      | Some a \<Rightarrow> do {
          let a = (if adc_running a then the (snd (adc_simulator_stop adc)) else a);
          heap_free h (adc_self a)
        })"

definition adc_simulator_is_running :: "'w adc_simulator option \<Rightarrow> bool" where
  "adc_simulator_is_running adc = (case adc of None \<Rightarrow> False | Some a \<Rightarrow> adc_running a)"

definition adc_simulator_set_callback ::
  "'w adc_simulator option \<Rightarrow> ('w \<Rightarrow> adc_sample_t \<Rightarrow> 'w) option \<Rightarrow> adc_error_t \<times> 'w adc_simulator option" where
  "adc_simulator_set_callback adc callback =
     (case adc of None \<Rightarrow> (ADC_ERROR_INVALID_PARAM, None)
      | Some a \<Rightarrow> (ADC_OK, Some (a\<lparr>adc_callback := callback\<rparr>)))"

definition adc_simulator_get_sample ::
  "fp_env \<Rightarrow> u64 \<Rightarrow> int \<Rightarrow> 'w adc_simulator option \<Rightarrow> adc_sample_t option
     \<Rightarrow> (adc_error_t \<times> 'w adc_simulator option \<times> adc_sample_t option) option" where
  "adc_simulator_get_sample env now r adc sample =
     (case (adc, sample) of
        (Some a, Some _) \<Rightarrow> do {
          (s, a) \<leftarrow> make_sample env a now r;
          Some (ADC_OK, Some a, Some s)
        }
      | _ \<Rightarrow> Some (ADC_ERROR_INVALID_PARAM, adc, sample))"

section \<open>The sample range\<close>

text \<open>Rounding is monotonic and exact on the integers that a double represents.\<close>

definition ieee_rounding :: "(real \<Rightarrow> real) \<Rightarrow> bool" where
  "ieee_rounding R \<longleftrightarrow> mono R \<and> (\<forall>z. \<bar>z\<bar> \<le> 2 ^ 53 \<longrightarrow> R (of_int z) = of_int z)"

definition full_scale :: "u32 \<Rightarrow> int" where
  "full_scale res = (if 0 < res \<and> res < 32 then 2 ^ (unat res - 1) - 1 else 2 ^ 31 - 1)"

lemma full_scale_range: "0 \<le> full_scale res" "full_scale res < 2 ^ 31"
proof -
  show "0 \<le> full_scale res" by (simp add: full_scale_def)
  have "unat res - 1 \<le> 31" if "res < 32" using that by (simp add: word_less_nat_alt)
  then have "(2::int) ^ (unat res - 1) \<le> 2 ^ 31" if "res < 32" using that by (intro power_increasing) simp_all
  then show "full_scale res < 2 ^ 31" by (auto simp: full_scale_def)
qed

lemma sint_small: "- (2 ^ 31) \<le> z \<Longrightarrow> z < 2 ^ 31 \<Longrightarrow> sint (word_of_int z :: i32) = z"
  by (simp add: signed_of_int signed_take_bit_int_eq_self)

lemma sint_adc_max_val: "sint (adc_max_val res) = full_scale res"
proof -
  have "adc_max_val res = word_of_int (full_scale res)"
  proof (cases "0 < res \<and> res < 32")
    case True
    then have "unat (res - 1) = unat res - 1" by (intro unat_minus_one) auto
    with True show ?thesis by (simp add: adc_max_val_def full_scale_def push_bit_eq_mult)
  qed (auto simp: adc_max_val_def full_scale_def)
  then show ?thesis using full_scale_range [of res] by (simp add: sint_small)
qed

lemma to_int32_range:
  assumes "\<bar>x\<bar> \<le> of_int m" "m < 2 ^ 31"
  shows "\<exists>v. to_int32 x = Some v \<and> \<bar>sint v\<bar> \<le> m"
proof -
  define z where "z = (if x \<ge> 0 then \<lfloor>x\<rfloor> else \<lceil>x\<rceil>)"
  have z: "\<bar>z\<bar> \<le> m" using assms(1) unfolding z_def by (auto simp: abs_le_iff le_floor_iff ceiling_le_iff) linarith+
  then have "- (2 ^ 31) \<le> z" "z < 2 ^ 31" using assms(2) by linarith+
  moreover from this have "to_int32 x = Some (word_of_int z)"
    by (simp add: to_int32_def z_def [symmetric] Let_def)
  ultimately show ?thesis using z by (simp add: sint_small)
qed

lemma generate_sample_total:
  assumes R: "ieee_rounding (fp_round env)"
  shows "\<exists>v. generate_sample env adc now r = Some v \<and> \<bar>sint v\<bar> \<le> full_scale (resolution (adc_config adc))"
proof -
  let ?m = "full_scale (resolution (adc_config adc))"
  have m: "0 \<le> ?m" "?m < 2 ^ 31" by (rule full_scale_range)+
  have exact: "fp_round env (of_int z) = of_int z" if "\<bar>z\<bar> \<le> ?m" for z
  proof -
    have "\<bar>z\<bar> \<le> 2 ^ 53" using that m(2) by simp
    then show ?thesis using R unfolding ieee_rounding_def by blast
  qed
  have mono: "x \<le> y \<Longrightarrow> fp_round env x \<le> fp_round env y" for x y
    using R by (simp add: ieee_rounding_def monoD)
  have clamp: "\<exists>v. to_int32 (fp_round env (x * real_of_int (sint (adc_max_val (resolution (adc_config adc))))))
      = Some v \<and> \<bar>sint v\<bar> \<le> ?m" if "-1 \<le> x" "x \<le> 1" for x
  proof -
    have "x * of_int ?m \<le> of_int ?m" "of_int (- ?m) \<le> x * of_int ?m"
      using that m(1) mult_right_mono [of x 1 "of_int ?m"] mult_right_mono [of "-1" x "of_int ?m"] by simp_all
    then have "fp_round env (x * of_int ?m) \<le> of_int ?m" "of_int (- ?m) \<le> fp_round env (x * of_int ?m)"
      using mono exact [of ?m] exact [of "- ?m"] m(1) by (metis abs_minus_cancel abs_of_nonneg order_refl)+
    then show ?thesis unfolding sint_adc_max_val using m(2) by (intro to_int32_range) (simp_all add: abs_le_iff)
  qed
  show ?thesis unfolding generate_sample_def Let_def by (rule clamp) simp_all
qed

lemma make_sample_total:
  assumes "ieee_rounding (fp_round env)"
  obtains v where "make_sample env adc now r = Some (\<lparr>s_timestamp = ucast (now - adc_start_time adc),
      s_value = v, s_sequence = adc_sequence adc, s_channel = 0, s_flags = 0\<rparr>,
      adc\<lparr>adc_sequence := adc_sequence adc + 1\<rparr>)"
    "\<bar>sint v\<bar> \<le> full_scale (resolution (adc_config adc))"
  using generate_sample_total [OF assms, of adc now r] by (auto simp: make_sample_def)

section \<open>The capture loop\<close>

definition deliver :: "'w adc_simulator \<Rightarrow> 'w \<Rightarrow> adc_sample_t list \<Rightarrow> 'w" where
  "deliver adc w ss = (case adc_callback adc of None \<Rightarrow> w | Some f \<Rightarrow> foldl f w ss)"

text \<open>What a stretch of the loop guarantees, as a predicate on its history.\<close>

definition capture_ok ::
  "u64 \<Rightarrow> 'w adc_simulator \<Rightarrow> u64 \<Rightarrow> 'w \<Rightarrow> (u64 \<times> adc_sample_t) list \<Rightarrow> 'w \<Rightarrow> bool" where
  "capture_ok interval adc nxt w outs w' \<longleftrightarrow>
     w' = deliver adc w (map snd outs)
     \<and> map (s_sequence \<circ> snd) outs = map (\<lambda>i. adc_sequence adc + word_of_nat i) [0..<length outs]
     \<and> (\<forall>i<length outs. unat nxt + i * unat interval \<le> unat (fst (outs ! i)))
     \<and> (\<forall>x\<in>set outs. \<bar>sint (s_value (snd x))\<bar> \<le> full_scale (resolution (adc_config adc)))"

lemma capture_ok_cons:
  assumes "capture_ok I (adc\<lparr>adc_sequence := adc_sequence adc + 1\<rparr>) nxt1 (deliver adc w [s]) outs w'"
    and "s_sequence s = adc_sequence adc" "unat nxt + unat I \<le> unat nxt1" "nxt \<le> now"
    and "\<bar>sint (s_value s)\<bar> \<le> full_scale (resolution (adc_config adc))"
  shows "capture_ok I adc nxt w ((now, s) # outs) w'"
proof -
  note ok = assms(1) [unfolded capture_ok_def]
  have "w' = deliver adc w (map snd ((now, s) # outs))"
    using ok by (auto simp: deliver_def split: option.splits)
  moreover have "map (s_sequence \<circ> snd) ((now, s) # outs)
      = map (\<lambda>i. adc_sequence adc + word_of_nat i) [0..<length ((now, s) # outs)]"
    using ok assms(2) by (simp add: upt_conv_Cons map_Suc_upt [symmetric] add.assoc del: upt_Suc)
  moreover have "unat nxt + i * unat I \<le> unat (fst (((now, s) # outs) ! i))" if "i < length ((now, s) # outs)" for i
  proof (cases i)
    case 0
    then show ?thesis using assms(4) by (simp add: word_le_nat_alt)
  next
    case (Suc j)
    then have "unat nxt1 + j * unat I \<le> unat (fst (outs ! j))" using that ok by simp
    then show ?thesis using assms(3) Suc by simp
  qed
  ultimately show ?thesis using ok assms(5) by (simp add: capture_ok_def)
qed

lemma next_sample_time:
  fixes now nxt I :: u64
  assumes "nxt \<le> now" "unat now + unat I < 2 ^ 64"
  shows "unat nxt + unat I \<le> unat (if nxt + I < now then now + I else nxt + I)"
proof -
  have le: "unat nxt \<le> unat now" using assms(1) by (simp add: word_le_nat_alt)
  then have "unat (nxt + I) = unat nxt + unat I" "unat (now + I) = unat now + unat I"
    using assms(2) by (simp_all add: unat_word_ariths)
  with le show ?thesis by simp
qed

lemma capture_loop_law:
  assumes R: "ieee_rounding (fp_round env)"
    and "\<forall>x\<in>set xs. unat (fst x) + unat I < 2 ^ 64"
  shows "\<exists>outs adc' nxt' w'. capture_loop env I xs (adc, nxt, w) = Some (outs, adc', nxt', w')
    \<and> capture_ok I adc nxt w outs w'"
  using assms(2)
proof (induction xs arbitrary: adc nxt w)
  case Nil
  then show ?case by (simp add: capture_ok_def deliver_def split: option.splits)
next
  case (Cons x xs)
  obtain now r where x: "x = (now, r)" by (cases x)
  show ?case
  proof (cases "nxt \<le> now")
    case False
    with Cons x show ?thesis by (simp add: capture_iteration_def)
  next
    case True
    let ?a = "adc\<lparr>adc_sequence := adc_sequence adc + 1\<rparr>"
    let ?n = "if nxt + I < now then now + I else nxt + I"
    obtain v where v: "make_sample env adc now r = Some (\<lparr>s_timestamp = ucast (now - adc_start_time adc),
        s_value = v, s_sequence = adc_sequence adc, s_channel = 0, s_flags = 0\<rparr>, ?a)" (is "_ = Some (?s, _)")
      "\<bar>sint v\<bar> \<le> full_scale (resolution (adc_config adc))"
      using make_sample_total [OF R] .
    have it: "capture_iteration env I x (adc, nxt, w) = Some ([(now, ?s)], ?a, ?n, deliver adc w [?s])"
      using True v(1) x by (simp add: capture_iteration_def deliver_def Let_def split: option.splits)
    obtain outs adc' nxt' w' where o: "capture_loop env I xs (?a, ?n, deliver adc w [?s]) = Some (outs, adc', nxt', w')"
      "capture_ok I ?a ?n (deliver adc w [?s]) outs w'"
      using Cons.IH [of ?a ?n "deliver adc w [?s]"] Cons.prems by auto
    have "capture_ok I adc nxt w ((now, ?s) # outs) w'"
      using o(2) _ next_sample_time [OF True] True by (rule capture_ok_cons) (use v x Cons.prems in simp_all)
    with it o(1) show ?thesis by simp
  qed
qed

section \<open>Properties\<close>


definition demo_env :: fp_env where
  "demo_env = \<lparr>fp_round = id, fp_sin = (\<lambda>x. 1 / 2), fp_rand_max = 32767\<rparr>"

definition demo_adc :: "adc_sample_t list adc_simulator" where
  "demo_adc = \<lparr>adc_self = 1, adc_config = \<lparr>sample_rate = 40000, resolution = 8, channel_count = 1, signal_freq = 1000,
     noise_level = 0, enable_trigger = False\<rparr>, adc_running = True, adc_sequence = 0, adc_start_time = 1000,
     adc_callback = Some (\<lambda>w s. w @ [s]), adc_thread = True\<rparr>"

lemma demo_env_rounding: "ieee_rounding (fp_round demo_env)"
  by (simp add: ieee_rounding_def demo_env_def mono_def)




text \<open>
  Thread discipline of the simulator: starting twice creates one thread, a failed start leaves
  the simulator stopped with \<open>ADC_ERROR_THREAD\<close>, a start resets the sequence counter and the
  time origin, stopping joins the thread, and at every point a thread exists exactly while the
  simulator is marked running.
\<close>

theorem adc_thread_discipline:
  assumes "adc_running a = adc_thread a"
  shows "\<exists>e b e' c. adc_simulator_start ok now (Some a) = (e, Some b) \<and> adc_running b = adc_thread b
    \<and> (if adc_running a then e = ADC_OK \<and> b = a
       else if ok then e = ADC_OK \<and> adc_running b \<and> adc_sequence b = 0 \<and> adc_start_time b = now
       else e = ADC_ERROR_THREAD \<and> \<not> adc_running b)
    \<and> adc_simulator_stop (Some b) = (e', Some c) \<and> e' = ADC_OK \<and> \<not> adc_running c \<and> \<not> adc_thread c
    \<and> adc_simulator_stop (Some c) = (ADC_OK, Some c)"
  using assms by (cases "adc_thread a"; cases ok) (auto simp: adc_simulator_start_def adc_simulator_stop_def)

theorem adc_thread_discipline_witness:
  "\<exists>e b e' c. adc_simulator_start False 7 (Some demo_adc) = (e, Some b) \<and> b = demo_adc
    \<and> adc_simulator_stop (Some b) = (e', Some c) \<and> \<not> adc_thread c"
  using adc_thread_discipline [of demo_adc False 7] by (auto simp: demo_adc_def)

end
