(* ===== verification/Tcp_Client.thy ===== *)
theory Tcp_Client
  imports Buffer_Manager
begin

text \<open>
  The TCP client of \<^verbatim>\<open>src/network/tcp_client.c\<close> (POSIX branch): configuration,
  life cycle, connection handling and the send and receive paths.

  The socket interface is not part of the repository: it is the parameter \<open>api\<close>, a record of
  functions on an abstract network state. What the proofs rely on is stated as the predicates
  \<open>posix_send\<close>, \<open>posix_recv\<close> and \<open>posix_fds\<close>, the documented behaviour of
  the calls. A client pointer is \<^term>\<open>None\<close> when it is null; a result \<^term>\<open>None\<close>
  of an operation is undefined behaviour (an access outside the caller's buffer) or a loop that
  does not end.
\<close>

section \<open>The socket interface\<close>

datatype sockopt =
    SO_SNDBUF i32
  | TCP_NODELAY i32
  | SO_KEEPALIVE i32
  | SO_SNDTIMEO u32 u32 \<comment> \<open>tv\_sec, tv\_usec\<close>
  | SO_RCVTIMEO u32 u32

record sockaddr_in =
  sin_port :: u16
  sin_addr :: u32

text \<open>
  \<open>sk_send n fd bs\<close> and \<open>sk_recv n fd len\<close> return the C result, whether
  \<^verbatim>\<open>errno\<close> is \<^verbatim>\<open>EAGAIN\<close> or \<^verbatim>\<open>EWOULDBLOCK\<close>, and the new
  network state; \<open>sk_recv\<close> also the bytes stored in the buffer.
\<close>

record 'n socket_api =
  sk_socket :: "'n \<Rightarrow> int \<times> 'n"
  sk_setsockopt :: "'n \<Rightarrow> int \<Rightarrow> sockopt \<Rightarrow> 'n"
  sk_inet_pton :: "string \<Rightarrow> int \<times> u32"
  sk_connect :: "'n \<Rightarrow> int \<Rightarrow> sockaddr_in \<Rightarrow> int \<times> 'n"
  sk_close :: "'n \<Rightarrow> int \<Rightarrow> 'n"
  sk_send :: "'n \<Rightarrow> int \<Rightarrow> u8 list \<Rightarrow> int \<times> bool \<times> 'n"
  sk_recv :: "'n \<Rightarrow> int \<Rightarrow> u64 \<Rightarrow> int \<times> bool \<times> u8 list \<times> 'n"

definition posix_send :: "'n socket_api \<Rightarrow> ('n \<Rightarrow> int \<Rightarrow> u8 list) \<Rightarrow> bool" where
  "posix_send api wire \<longleftrightarrow> (\<forall>n fd bs r e n'. sk_send api n fd bs = (r, e, n') \<longrightarrow>
     r \<le> int (length bs) \<and> wire n' fd = wire n fd @ take (nat r) bs)"

definition posix_recv :: "'n socket_api \<Rightarrow> bool" where
  "posix_recv api \<longleftrightarrow> (\<forall>n fd len r e bs n'. sk_recv api n fd len = (r, e, bs, n') \<longrightarrow>
     r \<le> int (unat len) \<and> length bs = nat r)"

definition posix_fds :: "'n socket_api \<Rightarrow> ('n \<Rightarrow> int set) \<Rightarrow> bool" where
  "posix_fds api fds \<longleftrightarrow>
     (\<forall>n fd n'. sk_socket api n = (fd, n') \<longrightarrow>
        (if fd < 0 then fds n' = fds n else fd \<notin> fds n \<and> fds n' = insert fd (fds n)))
     \<and> (\<forall>n fd opt. fds (sk_setsockopt api n fd opt) = fds n)
     \<and> (\<forall>n fd a. fds (snd (sk_connect api n fd a)) = fds n)
     \<and> (\<forall>n fd. fds (sk_close api n fd) = fds n - {fd})
     \<and> (\<forall>n fd bs. fds (snd (snd (sk_send api n fd bs))) = fds n)
     \<and> (\<forall>n fd len. fds (snd (snd (snd (sk_recv api n fd len)))) = fds n)"

section \<open>Configuration and life cycle\<close>

record tcp_config_t =
  server_ip :: string
  server_port :: u16
  send_timeout_ms :: u32
  recv_timeout_ms :: u32
  buffer_size :: u32
  keep_alive :: bool

record tcp_client =
  tc_self :: nat \<comment> \<open>address of the structure\<close>
  tc_config :: tcp_config_t
  socket_fd :: int
  connected :: bool
  send_buffer :: nat
  block_sequence :: u32

definition tcp_config_get_default :: "tcp_config_t option \<Rightarrow> tcp_config_t option" where
  "tcp_config_get_default config = map_option (\<lambda>c. c\<lparr>server_ip := take 15 DEFAULT_SERVER_IP,
     server_port := DEFAULT_SERVER_PORT, send_timeout_ms := 5000, recv_timeout_ms := 5000,
     buffer_size := TCP_SEND_BUFFER_SIZE, keep_alive := True\<rparr>) config"

definition zero_config :: tcp_config_t where
  "zero_config = \<lparr>server_ip = [], server_port = 0, send_timeout_ms = 0, recv_timeout_ms = 0,
     buffer_size = 0, keep_alive = False\<rparr>"

definition tcp_client_create ::
  "(nat \<Rightarrow> bool) \<Rightarrow> heap \<Rightarrow> tcp_config_t option \<Rightarrow> (tcp_client option \<times> heap) option" where
  "tcp_client_create alloc_ok h config =
     (let (p, h) = heap_alloc alloc_ok h in
      if p = 0 then Some (None, h)
      else do {
        config \<leftarrow> (case config of Some c \<Rightarrow> Some c | None \<Rightarrow> tcp_config_get_default (Some zero_config));
        let (b, h) = heap_alloc alloc_ok h;
        if b = 0 then do { h \<leftarrow> heap_free h p; Some (None, h) }
        else Some (Some \<lparr>tc_self = p, tc_config = config, socket_fd = -1, connected = False,
                    send_buffer = b, block_sequence = 0\<rparr>, h)
      })"

definition tcp_client_disconnect ::
  "'n socket_api \<Rightarrow> tcp_client option \<Rightarrow> 'n \<Rightarrow> adc_error_t \<times> tcp_client option \<times> 'n" where
  "tcp_client_disconnect api client n =
     (case client of None \<Rightarrow> (ADC_ERROR_INVALID_PARAM, None, n)
      | Some c \<Rightarrow>
          if \<not> connected c then (ADC_OK, client, n)
          else let n = sk_close api n (socket_fd c)
               in (ADC_OK, Some (c\<lparr>socket_fd := -1, connected := False\<rparr>), n))"

definition tcp_client_destroy ::
  "'n socket_api \<Rightarrow> heap \<Rightarrow> tcp_client option \<Rightarrow> 'n \<Rightarrow> (heap \<times> 'n) option" where
  "tcp_client_destroy api h client n =
     (case client of None \<Rightarrow> Some (h, n)
      | Some c \<Rightarrow> do {
          let n = (if connected c then snd (snd (tcp_client_disconnect api client n)) else n);
          h \<leftarrow> (if send_buffer c \<noteq> 0 then heap_free h (send_buffer c) else Some h);
          h \<leftarrow> heap_free h (tc_self c);
          Some (h, n)
        })"

section \<open>Connecting\<close>

definition htons :: "u16 \<Rightarrow> u16" where
  "htons p = push_bit 8 p OR drop_bit 8 p"

definition tcp_set_options :: "'n socket_api \<Rightarrow> tcp_config_t \<Rightarrow> 'n \<Rightarrow> int \<Rightarrow> 'n" where
  "tcp_set_options api cfg n fd =
     (let n = sk_setsockopt api n fd (SO_SNDBUF (buffer_size cfg));
          n = sk_setsockopt api n fd (TCP_NODELAY 1);
          n = (if keep_alive cfg then sk_setsockopt api n fd (SO_KEEPALIVE 1) else n);
          n = sk_setsockopt api n fd
                (SO_SNDTIMEO (send_timeout_ms cfg div 1000) ((send_timeout_ms cfg mod 1000) * 1000))
      in sk_setsockopt api n fd
                (SO_RCVTIMEO (recv_timeout_ms cfg div 1000) ((recv_timeout_ms cfg mod 1000) * 1000)))"

definition tcp_client_connect ::
  "'n socket_api \<Rightarrow> tcp_client option \<Rightarrow> 'n \<Rightarrow> adc_error_t \<times> tcp_client option \<times> 'n" where
  "tcp_client_connect api client n =
     (case client of None \<Rightarrow> (ADC_ERROR_INVALID_PARAM, None, n)
      | Some c \<Rightarrow>
          if connected c then (ADC_OK, client, n)
          else let (fd, n) = sk_socket api n; c = c\<lparr>socket_fd := fd\<rparr> in
            if fd < 0 then (ADC_ERROR_NETWORK, Some c, n)
            else let n = tcp_set_options api (tc_config c) n fd;
                     (ok, addr) = sk_inet_pton api (server_ip (tc_config c)) in
              if ok \<le> 0
              then (ADC_ERROR_NETWORK, Some (c\<lparr>socket_fd := -1\<rparr>), sk_close api n fd)
              else let (r, n) = sk_connect api n fd
                         \<lparr>sin_port = htons (server_port (tc_config c)), sin_addr = addr\<rparr> in
                if r < 0
                then (ADC_ERROR_NETWORK, Some (c\<lparr>socket_fd := -1\<rparr>), sk_close api n fd)
                else (ADC_OK, Some (c\<lparr>connected := True\<rparr>), n))"

definition tcp_client_is_connected :: "tcp_client option \<Rightarrow> bool" where
  "tcp_client_is_connected client = (case client of None \<Rightarrow> False | Some c \<Rightarrow> connected c)"

section \<open>Sending and receiving\<close>

text \<open>
  The length argument goes through \<^verbatim>\<open>(int)len\<close> and is then converted back to
  \<^verbatim>\<open>size_t\<close> by the call, so the number of bytes requested is the sign extension of the
  low 32 bits.
\<close>

definition call_len :: "u64 \<Rightarrow> u64" where
  "call_len len = scast (ucast len :: i32)"

definition tcp_client_send ::
  "'n socket_api \<Rightarrow> tcp_client option \<Rightarrow> u8 list option \<Rightarrow> u64 \<Rightarrow> u64 option \<Rightarrow> 'n
     \<Rightarrow> (adc_error_t \<times> tcp_client option \<times> u64 option \<times> 'n) option" where
  "tcp_client_send api client data len sent n =
     (case (client, data) of
        (Some c, Some bs) \<Rightarrow>
          if len = 0 then Some (ADC_ERROR_INVALID_PARAM, client, sent, n)
          else if \<not> connected c then Some (ADC_ERROR_NETWORK, client, sent, n)
          else do {
            src \<leftarrow> mem_read bs 0 (unat (call_len len));
            let (result, would_block, n) = sk_send api n (socket_fd c) src;
            if result < 0
            then if would_block then Some (ADC_ERROR_TIMEOUT, client, set_out sent 0, n)
                 else Some (ADC_ERROR_NETWORK, Some (c\<lparr>connected := False\<rparr>), sent, n)
            else Some (ADC_OK, client, set_out sent (word_of_int result), n)
          }
      | _ \<Rightarrow> Some (ADC_ERROR_INVALID_PARAM, client, sent, n))"

partial_function (option) send_loop ::
  "'n socket_api \<Rightarrow> tcp_client option \<Rightarrow> u8 list \<Rightarrow> u64 \<Rightarrow> 'n
     \<Rightarrow> (adc_error_t \<times> tcp_client option \<times> 'n) option" where
  "send_loop api client ptr remaining n =
     (if remaining > 0
      then do {
        (err, client, sent, n) \<leftarrow> tcp_client_send api client (Some ptr) remaining (Some 0) n;
        if err \<noteq> ADC_OK then Some (err, client, n)
        else (case sent of
            None \<Rightarrow> None
          | Some k \<Rightarrow>
              if k = 0
              then Some (ADC_ERROR_NETWORK, map_option (\<lambda>c. c\<lparr>connected := False\<rparr>) client, n)
              else send_loop api client (drop (unat k) ptr) (remaining - k) n)
      }
      else Some (ADC_OK, client, n))"

definition tcp_client_send_all ::
  "'n socket_api \<Rightarrow> tcp_client option \<Rightarrow> u8 list option \<Rightarrow> u64 \<Rightarrow> 'n
     \<Rightarrow> (adc_error_t \<times> tcp_client option \<times> 'n) option" where
  "tcp_client_send_all api client data len n =
     (case (client, data) of
        (Some c, Some bs) \<Rightarrow>
          if len = 0 then Some (ADC_ERROR_INVALID_PARAM, client, n)
          else if \<not> connected c then Some (ADC_ERROR_NETWORK, client, n)
          else send_loop api client bs len n
      | _ \<Rightarrow> Some (ADC_ERROR_INVALID_PARAM, client, n))"

definition tcp_client_receive ::
  "'n socket_api \<Rightarrow> tcp_client option \<Rightarrow> u8 list option \<Rightarrow> u64 \<Rightarrow> u64 option \<Rightarrow> 'n
     \<Rightarrow> (adc_error_t \<times> tcp_client option \<times> u8 list option \<times> u64 option \<times> 'n) option" where
  "tcp_client_receive api client buffer len received n =
     (case (client, buffer) of
        (Some c, Some buf) \<Rightarrow>
          if len = 0 then Some (ADC_ERROR_INVALID_PARAM, client, buffer, received, n)
          else if \<not> connected c then Some (ADC_ERROR_NETWORK, client, buffer, received, n)
          else do {
            let (result, would_block, bs, n) = sk_recv api n (socket_fd c) (call_len len);
            buf \<leftarrow> mem_write buf 0 bs;
            if result < 0
            then if would_block then Some (ADC_ERROR_TIMEOUT, client, Some buf, set_out received 0, n)
                 else Some (ADC_ERROR_NETWORK, Some (c\<lparr>connected := False\<rparr>), Some buf, received, n)
            else if result = 0
            then Some (ADC_ERROR_NETWORK, Some (c\<lparr>connected := False\<rparr>), Some buf, received, n)
            else Some (ADC_OK, client, Some buf, set_out received (word_of_int result), n)
          }
      | _ \<Rightarrow> Some (ADC_ERROR_INVALID_PARAM, client, buffer, received, n))"

definition tcp_client_send_data_block ::
  "'n socket_api \<Rightarrow> tcp_client option \<Rightarrow> data_block_t option \<Rightarrow> 'n
     \<Rightarrow> (adc_error_t \<times> tcp_client option \<times> 'n) option" where
  "tcp_client_send_data_block api client block n =
     (case (client, block) of
        (Some _, Some b) \<Rightarrow>
          (let block_size = word_of_nat sizeof_data_block
                 + ucast (b_sample_count b) * word_of_nat sizeof_adc_sample
           in tcp_client_send_all api client (Some (block_bytes b)) block_size n)
      | _ \<Rightarrow> Some (ADC_ERROR_INVALID_PARAM, client, n))"

section \<open>Lengths\<close>

lemma call_len_small:
  assumes "unat len < 2 ^ 31"
  shows "call_len len = len"
proof -
  have "int (unat len) < int (2 ^ 31)" using assms by (simp only: of_nat_less_iff)
  then have u: "uint len < 2 ^ 31" by (simp only: of_nat_unat of_nat_power of_nat_numeral)
  then have "uint (ucast len :: i32) = uint len" by (simp add: unsigned_ucast_eq take_bit_int_eq_self)
  moreover have "- (2 ^ 31) \<le> uint len" by (rule order_trans [of _ 0]) simp_all
  then have "signed_take_bit 31 (uint len) = uint len" using u by (rule signed_take_bit_int_eq_self)
  ultimately have "sint (ucast len :: i32) = uint len" by (simp add: sint_uint)
  then show ?thesis by (simp add: call_len_def scast_eq)
qed

lemma unat_len: "k < 2 ^ 31 \<Longrightarrow> unat (word_of_nat k :: u64) = k"
  by (simp add: unat_of_nat)

section \<open>The send loop\<close>

text \<open>One call of \<open>send\<close> inside the loop.\<close>

lemma tcp_send_step:
  assumes send: "posix_send api wire" and c: "connected c" and bs: "bs \<noteq> []" "length bs < 2 ^ 31"
    and sk: "sk_send api n (socket_fd c) bs = (r, e, n')"
  shows "tcp_client_send api (Some c) (Some (bs @ rest)) (word_of_nat (length bs)) (Some z) n =
    Some (if r < 0 then if e then (ADC_ERROR_TIMEOUT, Some c, Some 0, n')
                        else (ADC_ERROR_NETWORK, Some (c\<lparr>connected := False\<rparr>), Some z, n')
          else (ADC_OK, Some c, Some (word_of_int r), n'))"
proof -
  let ?l = "word_of_nat (length bs) :: u64"
  have "unat ?l = length bs" using bs(2) by (rule unat_len)
  moreover from this have "?l \<noteq> 0" "call_len ?l = ?l" using bs call_len_small [of ?l] by auto
  ultimately show ?thesis using c sk by (simp add: tcp_client_send_def mem_read_in)
qed

lemma send_loop_unfold:
  assumes send: "posix_send api wire" and c: "connected c" and bs: "bs \<noteq> []" "length bs < 2 ^ 31"
    and sk: "sk_send api n (socket_fd c) bs = (r, e, n')"
  shows "send_loop api (Some c) (bs @ rest) (word_of_nat (length bs)) n =
    (if r < 0 then Some (if e then (ADC_ERROR_TIMEOUT, Some c, n')
                         else (ADC_ERROR_NETWORK, Some (c\<lparr>connected := False\<rparr>), n'))
     else if r = 0 then Some (ADC_ERROR_NETWORK, Some (c\<lparr>connected := False\<rparr>), n')
     else send_loop api (Some c) (drop (nat r) bs @ rest) (word_of_nat (length bs) - word_of_int r) n')"
proof -
  let ?l = "word_of_nat (length bs) :: u64"
  have "unat ?l = length bs" using bs(2) by (rule unat_len)
  then have l0: "?l > 0" using bs(1) by (metis length_0_conv unat_0 word_gt_0)
  have le: "r \<le> int (length bs)" using send sk unfolding posix_send_def by blast
  then have small: "nat r < 2 ^ 31" using bs(2) by linarith
  have k: "0 \<le> r \<Longrightarrow> unat (word_of_int r :: u64) = nat r \<and> ((word_of_int r :: u64) = 0 \<longleftrightarrow> r = 0)"
    using unat_len [OF small] by (auto simp: unat_eq_zero [symmetric])
  have "drop (nat r) (bs @ rest) = drop (nat r) bs @ rest" using le by simp
  then show ?thesis
    using l0 tcp_send_step [OF send c bs sk, of rest] k by (subst send_loop.simps) auto
qed

definition send_result ::
  "('n \<Rightarrow> int \<Rightarrow> u8 list) \<Rightarrow> tcp_client \<Rightarrow> u8 list \<Rightarrow> 'n \<Rightarrow> adc_error_t \<Rightarrow> tcp_client \<Rightarrow> 'n \<Rightarrow> bool" where
  "send_result wire c bs n err c' n' \<longleftrightarrow>
     (\<exists>k. wire n' (socket_fd c) = wire n (socket_fd c) @ take k bs
        \<and> (err = ADC_OK \<and> k = length bs \<and> c' = c
           \<or> err = ADC_ERROR_TIMEOUT \<and> k < length bs \<and> c' = c
           \<or> err = ADC_ERROR_NETWORK \<and> k < length bs \<and> c' = c\<lparr>connected := False\<rparr>))"

lemma send_result_step:
  assumes "wire n1 (socket_fd c) = wire n (socket_fd c) @ take j bs" "j \<le> length bs"
    and "send_result wire c (drop j bs) n1 err c' n'"
  shows "send_result wire c bs n err c' n'"
proof -
  obtain k where k: "wire n' (socket_fd c) = wire n1 (socket_fd c) @ take k (drop j bs)"
    "err = ADC_OK \<and> k = length bs - j \<and> c' = c \<or> err = ADC_ERROR_TIMEOUT \<and> k < length bs - j \<and> c' = c
       \<or> err = ADC_ERROR_NETWORK \<and> k < length bs - j \<and> c' = c\<lparr>connected := False\<rparr>"
    using assms(3) by (auto simp: send_result_def)
  then have "wire n' (socket_fd c) = wire n (socket_fd c) @ take (j + k) bs"
    using assms(1) by (simp add: take_add)
  with k(2) assms(2) show ?thesis unfolding send_result_def by (intro exI [of _ "j + k"]) auto
qed

lemma send_loop_law:
  assumes send: "posix_send api wire"
  shows "connected c \<Longrightarrow> length bs < 2 ^ 31 \<Longrightarrow>
    \<exists>err c' n'. send_loop api (Some c) (bs @ rest) (word_of_nat (length bs)) n = Some (err, Some c', n')
      \<and> send_result wire c bs n err c' n'"
proof (induction "length bs" arbitrary: bs n rule: less_induct)
  case less
  let ?l = "word_of_nat (length bs) :: u64"
  show ?case
  proof (cases "bs = []")
    case True
    then show ?thesis by (simp add: send_loop.simps send_result_def)
  next
    case False
    obtain r e n1 where sk: "sk_send api n (socket_fd c) bs = (r, e, n1)" by (metis prod_cases3)
    have r: "r \<le> int (length bs)" "wire n1 (socket_fd c) = wire n (socket_fd c) @ take (nat r) bs"
      using send sk unfolding posix_send_def by blast+
    have unf: "send_loop api (Some c) (bs @ rest) ?l n =
        (if r < 0 then Some (if e then (ADC_ERROR_TIMEOUT, Some c, n1)
                             else (ADC_ERROR_NETWORK, Some (c\<lparr>connected := False\<rparr>), n1))
         else if r = 0 then Some (ADC_ERROR_NETWORK, Some (c\<lparr>connected := False\<rparr>), n1)
         else send_loop api (Some c) (drop (nat r) bs @ rest) (?l - word_of_int r) n1)"
      by (rule send_loop_unfold [OF send less.prems(1) False less.prems(2) sk])
    show ?thesis
    proof (cases "r \<le> 0")
      case True
      then show ?thesis using unf r(2) False by (auto simp: send_result_def intro!: exI [of _ 0])
    next
      case pos: False
      have "word_of_int r = (word_of_nat (nat r) :: u64)" using pos by simp
      then have "?l - word_of_int r = word_of_nat (length (drop (nat r) bs))"
        using r(1) pos by (simp add: of_nat_diff)
      moreover obtain err c' n' where
        "send_loop api (Some c) (drop (nat r) bs @ rest) (word_of_nat (length (drop (nat r) bs))) n1 = Some (err, Some c', n')"
        "send_result wire c (drop (nat r) bs) n1 err c' n'"
        using less.hyps [of "drop (nat r) bs" n1] less.prems pos False
        by (auto simp: less_imp_diff_less)
      ultimately show ?thesis
        using unf pos send_result_step [of wire n1 c n "nat r" bs, OF r(2)] r(1)
        by (auto simp del: length_drop)
    qed
  qed
qed

lemma send_all_law:
  assumes "posix_send api wire" "connected c" "bs \<noteq> []" "length bs < 2 ^ 31"
  shows "\<exists>err c' n'.
      tcp_client_send_all api (Some c) (Some (bs @ rest)) (word_of_nat (length bs)) n = Some (err, Some c', n')
    \<and> send_result wire c bs n err c' n'"
proof -
  have "(word_of_nat (length bs) :: u64) \<noteq> 0"
    using assms(3) unat_len [OF assms(4)] by (metis length_0_conv unat_0)
  then show ?thesis
    using assms(2) send_loop_law [OF assms(1,2,4), of rest n] by (simp add: tcp_client_send_all_def)
qed

text \<open>The part of a block that goes on the wire.\<close>

definition sent_block :: "data_block_t \<Rightarrow> data_block_t" where
  "sent_block b = b\<lparr>b_samples := take (unat (b_sample_count b)) (b_samples b)\<rparr>"

lemma block_image:
  assumes "unat (b_sample_count b) \<le> length (b_samples b)" "unat (b_sample_count b) < 2 ^ 26"
  shows "tcp_client_send_data_block api (Some c) (Some b) n =
      tcp_client_send_all api (Some c)
        (Some (block_bytes (sent_block b)
               @ drop (sizeof_data_block + unat (b_sample_count b) * sizeof_adc_sample) (block_bytes b)))
        (word_of_nat (length (block_bytes (sent_block b)))) n"
    and "block_bytes (sent_block b) \<noteq> []" "length (block_bytes (sent_block b)) < 2 ^ 31"
proof -
  let ?m = "unat (b_sample_count b)"
  let ?rest = "drop (sizeof_data_block + ?m * sizeof_adc_sample) (block_bytes b)"
  have img: "block_bytes b = block_bytes (sent_block b) @ ?rest"
    using take_block_bytes [OF assms(1)] unfolding sent_block_def by (metis append_take_drop_id)
  have len: "length (block_bytes (sent_block b)) = sizeof_data_block + ?m * sizeof_adc_sample"
    using assms(1) by (simp add: length_block_bytes sent_block_def)
  then show "block_bytes (sent_block b) \<noteq> []" "length (block_bytes (sent_block b)) < 2 ^ 31"
    using assms(2) by (auto simp: sizeof_data_block_def sizeof_adc_sample_def)
  have "(ucast (b_sample_count b) :: u64) = word_of_nat ?m" by simp
  then show "tcp_client_send_data_block api (Some c) (Some b) n =
      tcp_client_send_all api (Some c) (Some (block_bytes (sent_block b) @ ?rest))
        (word_of_nat (length (block_bytes (sent_block b)))) n"
    unfolding tcp_client_send_data_block_def img [symmetric] len by simp
qed

lemma send_block_law:
  assumes "posix_send api wire" "connected c"
    and "unat (b_sample_count b) \<le> length (b_samples b)" "unat (b_sample_count b) < 2 ^ 26"
  shows "\<exists>err c' n'. tcp_client_send_data_block api (Some c) (Some b) n = Some (err, Some c', n')
    \<and> send_result wire c (block_bytes (sent_block b)) n err c' n'"
  unfolding block_image(1) [OF assms(3,4)]
  by (rule send_all_law [OF assms(1,2)]) (use block_image [OF assms(3,4)] in simp_all)

text \<open>A link that always accepts some data never fails a block.\<close>

definition reliable_send :: "'n socket_api \<Rightarrow> bool" where
  "reliable_send api \<longleftrightarrow> (\<forall>n fd bs. bs \<noteq> [] \<longrightarrow> 0 < fst (sk_send api n fd bs))"

lemma send_loop_reliable:
  assumes send: "posix_send api wire" and rel: "reliable_send api"
  shows "connected c \<Longrightarrow> length bs < 2 ^ 31 \<Longrightarrow>
    \<exists>n'. send_loop api (Some c) (bs @ rest) (word_of_nat (length bs)) n = Some (ADC_OK, Some c, n')"
proof (induction "length bs" arbitrary: bs n rule: less_induct)
  case less
  show ?case
  proof (cases "bs = []")
    case True
    then show ?thesis by (simp add: send_loop.simps)
  next
    case False
    obtain r e n1 where sk: "sk_send api n (socket_fd c) bs = (r, e, n1)" by (metis prod_cases3)
    have r: "r \<le> int (length bs)" "0 < r"
      using send sk unfolding posix_send_def apply blast
      using rel False sk unfolding reliable_send_def by (metis fst_conv)
    have "(word_of_nat (length bs) :: u64) - word_of_int r = word_of_nat (length (drop (nat r) bs))"
      using r by (simp add: of_nat_diff)
    moreover have "length (drop (nat r) bs) < length bs" "length (drop (nat r) bs) < 2 ^ 31"
      using r less.prems(2) False by simp_all
    ultimately show ?thesis
      using less.hyps [of "drop (nat r) bs" n1] less.prems(1) r
        send_loop_unfold [OF send less.prems(1) False less.prems(2) sk, of rest] by simp
  qed
qed

lemma send_block_reliable:
  assumes "posix_send api wire" "reliable_send api" "connected c"
    and b: "unat (b_sample_count b) \<le> length (b_samples b)" "unat (b_sample_count b) < 2 ^ 26"
  obtains n' where "tcp_client_send_data_block api (Some c) (Some b) n = Some (ADC_OK, Some c, n')"
    "wire n' (socket_fd c) = wire n (socket_fd c) @ block_bytes (sent_block b)"
proof -
  note im = block_image [OF b]
  have "(word_of_nat (length (block_bytes (sent_block b))) :: u64) \<noteq> 0"
    using im(2) unat_len [OF im(3)] by (metis length_0_conv unat_0)
  then obtain n' where n': "tcp_client_send_data_block api (Some c) (Some b) n = Some (ADC_OK, Some c, n')"
    using send_loop_reliable [OF assms(1-3) im(3)] assms(3) unfolding im(1)
    by (auto simp: tcp_client_send_all_def)
  with send_block_law [OF assms(1,3) b, of n] show ?thesis
    by (intro that [of n']) (auto simp: send_result_def)
qed

section \<open>Descriptors\<close>

lemma posix_fdsD:
  assumes "posix_fds api fds"
  shows "sk_socket api n = (fd, n') \<Longrightarrow> fd < 0 \<Longrightarrow> fds n' = fds n"
    and "sk_socket api n = (fd, n') \<Longrightarrow> \<not> fd < 0 \<Longrightarrow> fd \<notin> fds n \<and> fds n' = insert fd (fds n)"
    and "fds (sk_setsockopt api n fd opt) = fds n" "fds (sk_close api n fd) = fds n - {fd}"
    and "sk_connect api n fd a = (r, n') \<Longrightarrow> fds n' = fds n"
    and "sk_send api n fd bs = (r, e, n') \<Longrightarrow> fds n' = fds n"
proof -
  note all = assms [unfolded posix_fds_def]
  note so = conjunct1 [OF all] and rest = conjunct2 [OF all]
  note op = conjunct1 [OF rest] and rest = conjunct2 [OF rest]
  note co = conjunct1 [OF rest] and rest = conjunct2 [OF rest]
  note cl = conjunct1 [OF rest] and rest = conjunct2 [OF rest]
  note se = conjunct1 [OF rest]
  show "sk_socket api n = (fd, n') \<Longrightarrow> fd < 0 \<Longrightarrow> fds n' = fds n"
    "sk_socket api n = (fd, n') \<Longrightarrow> \<not> fd < 0 \<Longrightarrow> fd \<notin> fds n \<and> fds n' = insert fd (fds n)"
    using so by auto
  show "fds (sk_setsockopt api n fd opt) = fds n" "fds (sk_close api n fd) = fds n - {fd}"
    using op cl by blast+
  show "sk_connect api n fd a = (r, n') \<Longrightarrow> fds n' = fds n" using co by (metis snd_conv)
  show "sk_send api n fd bs = (r, e, n') \<Longrightarrow> fds n' = fds n" using se by (metis snd_conv)
qed

lemma fds_set_options: "posix_fds api fds \<Longrightarrow> fds (tcp_set_options api cfg n fd) = fds n"
  by (simp add: tcp_set_options_def posix_fdsD(3) Let_def)

text \<open>The outcome of a connection attempt on a client that is not connected.\<close>

lemma tcp_connect_law:
  assumes fds: "posix_fds api fds" and nc: "\<not> connected c"
  obtains err c' n' where "tcp_client_connect api (Some c) n = (err, Some c', n')"
    "err = ADC_OK \<and> connected c' \<and> socket_fd c' \<notin> fds n \<and> fds n' = insert (socket_fd c') (fds n)
     \<or> err = ADC_ERROR_NETWORK \<and> \<not> connected c' \<and> socket_fd c' < 0 \<and> fds n' = fds n"
    "tc_config c' = tc_config c" "send_buffer c' = send_buffer c" "tc_self c' = tc_self c"
proof -
  obtain fd n1 where s: "sk_socket api n = (fd, n1)" by (metis surj_pair)
  define n2 where "n2 = tcp_set_options api (tc_config c) n1 fd"
  obtain ok addr where p: "sk_inet_pton api (server_ip (tc_config c)) = (ok, addr)" by (metis surj_pair)
  obtain r n3 where k: "sk_connect api n2 fd
      \<lparr>sin_port = htons (server_port (tc_config c)), sin_addr = addr\<rparr> = (r, n3)" by (metis surj_pair)
  have f: "fds n2 = fds n1" "fds n3 = fds n2"
    using fds_set_options [OF fds] posix_fdsD(5) [OF fds k] by (simp_all add: n2_def)
  consider "fd < 0" | "\<not> fd < 0" "ok \<le> 0 \<or> r < 0" | "\<not> fd < 0" "\<not> ok \<le> 0" "\<not> r < 0" by blast
  then show ?thesis
  proof cases
    case 1
    then show ?thesis using s nc posix_fdsD(1) [OF fds s 1]
      by (intro that [of ADC_ERROR_NETWORK "c\<lparr>socket_fd := fd\<rparr>" n1]) (simp_all add: tcp_client_connect_def)
  next
    case 2
    note new = posix_fdsD(2) [OF fds s 2(1)]
    let ?n = "if ok \<le> 0 then n2 else n3"
    have "tcp_client_connect api (Some c) n = (ADC_ERROR_NETWORK, Some (c\<lparr>socket_fd := -1\<rparr>), sk_close api ?n fd)"
      using 2 s p k nc by (auto simp: tcp_client_connect_def n2_def Let_def)
    moreover have "fds (sk_close api ?n fd) = fds n" using f new by (simp add: posix_fdsD(4) [OF fds])
    ultimately show ?thesis using nc
      by (intro that [of ADC_ERROR_NETWORK "c\<lparr>socket_fd := -1\<rparr>" "sk_close api ?n fd"]) simp_all
  next
    case 3
    note new = posix_fdsD(2) [OF fds s 3(1)]
    have "tcp_client_connect api (Some c) n = (ADC_OK, Some (c\<lparr>socket_fd := fd, connected := True\<rparr>), n3)"
      using 3 s p k nc by (simp add: tcp_client_connect_def n2_def Let_def)
    then show ?thesis using f new
      by (intro that [of ADC_OK "c\<lparr>socket_fd := fd, connected := True\<rparr>" n3]) simp_all
  qed
qed

section \<open>A concrete network\<close>

text \<open>
  A network that accepts at most \<open>chunk\<close> bytes per call and blocks once \<open>limit\<close>
  bytes are in flight on a descriptor. It shows that the hypotheses on the socket interface can be
  met, and drives the witnesses.
\<close>

record demo_net =
  dn_open :: "int list"
  dn_wire :: "int \<Rightarrow> u8 list"

definition demo_api :: "nat \<Rightarrow> nat \<Rightarrow> demo_net socket_api" where
  "demo_api chunk limit =
     \<lparr>sk_socket = (\<lambda>n. let fd = foldr max (dn_open n) 2 + 1 in (fd, n\<lparr>dn_open := fd # dn_open n\<rparr>)),
      sk_setsockopt = (\<lambda>n fd opt. n),
      sk_inet_pton = (\<lambda>ip. if ip = DEFAULT_SERVER_IP then (1, 0x0100007F) else (0, 0)),
      sk_connect = (\<lambda>n fd a. (0, n)),
      sk_close = (\<lambda>n fd. n\<lparr>dn_open := filter (\<lambda>x. x \<noteq> fd) (dn_open n)\<rparr>),
      sk_send = (\<lambda>n fd bs. let k = min (length bs) (min chunk (limit - length (dn_wire n fd))) in
        if k = 0 then (-1, True, n)
        else (int k, False, n\<lparr>dn_wire := (dn_wire n)(fd := dn_wire n fd @ take k bs)\<rparr>)),
      sk_recv = (\<lambda>n fd len. (0, False, [], n))\<rparr>"

lemma foldr_max_ge: "x \<in> set xs \<Longrightarrow> x \<le> foldr max xs (b :: int)" and foldr_max_base: "b \<le> foldr max xs (b :: int)"
  by (induction xs) auto

lemma demo_posix_send: "posix_send (demo_api chunk limit) dn_wire"
  unfolding posix_send_def demo_api_def by (auto simp: Let_def split: if_splits)

lemma demo_posix_fds: "posix_fds (demo_api chunk limit) (\<lambda>n. set (dn_open n))"
proof -
  have "foldr max xs 2 + 1 \<notin> set xs" "\<not> foldr max xs 2 + 1 < (0 :: int)" for xs
    using foldr_max_ge [of "foldr max xs 2 + 1" xs 2] foldr_max_base [of 2 xs] by auto
  then show ?thesis unfolding posix_fds_def demo_api_def by (auto simp: Let_def)
qed

definition demo_client :: tcp_client where
  "demo_client = \<lparr>tc_self = 1, tc_config = zero_config\<lparr>server_ip := DEFAULT_SERVER_IP\<rparr>, socket_fd = -1,
     connected = False, send_buffer = 2, block_sequence = 0\<rparr>"

definition quiet_net :: demo_net where
  "quiet_net = \<lparr>dn_open = [3], dn_wire = (\<lambda>_. [])\<rparr>"

definition demo_linked :: tcp_client where
  "demo_linked = demo_client\<lparr>socket_fd := 3, connected := True\<rparr>"

section \<open>Properties\<close>

text \<open>
  C13. \<^verbatim>\<open>tcp_client_send_all\<close> returns, and what it put on the connection is a
  prefix of the data in order: all of it with \<open>ADC_OK\<close>; a proper prefix with
  \<open>ADC_ERROR_NETWORK\<close>, after which the client is marked disconnected; or a proper prefix
  (possibly not empty) with \<open>ADC_ERROR_TIMEOUT\<close>, after which the client still counts as
  connected.
\<close>

theorem tcp_send_all_prefix:
  assumes "posix_send api wire" "connected c" "bs \<noteq> []" "length bs < 2 ^ 31"
  shows "\<exists>err c' n' k.
      tcp_client_send_all api (Some c) (Some (bs @ rest)) (word_of_nat (length bs)) n = Some (err, Some c', n')
    \<and> wire n' (socket_fd c) = wire n (socket_fd c) @ take k bs
    \<and> (err = ADC_OK \<and> k = length bs \<and> c' = c
       \<or> err = ADC_ERROR_TIMEOUT \<and> k < length bs \<and> c' = c
       \<or> err = ADC_ERROR_NETWORK \<and> k < length bs \<and> c' = c\<lparr>connected := False\<rparr>)"
  using send_all_law [OF assms, of rest n] unfolding send_result_def by auto

theorem tcp_send_all_prefix_witness:
  "\<exists>err c' n' k. tcp_client_send_all (demo_api 2 3) (Some demo_linked) (Some [1, 2, 3, 4, 5, 6]) 5 quiet_net
      = Some (err, Some c', n') \<and> dn_wire n' 3 = take k [1, 2, 3, 4, 5]"
  using tcp_send_all_prefix [OF demo_posix_send, of demo_linked "[1, 2, 3, 4, 5]" 2 3 "[6]" quiet_net]
  by (auto simp: demo_linked_def quiet_net_def)

text \<open>
  C14. Sending a data block puts its wire image on the connection: with \<open>ADC_OK\<close> the bytes
  appended to the stream are exactly the 24-byte header and the first
  \<^verbatim>\<open>sample_count\<close> samples, also when the block's memory has room for more, and decoding
  them gives back the header fields and those samples; otherwise a proper prefix of them was sent.
\<close>

theorem tcp_send_block_roundtrip:
  assumes "posix_send api wire" "connected c"
    and "unat (b_sample_count b) \<le> length (b_samples b)" "unat (b_sample_count b) < 2 ^ 26"
  shows "\<exists>err c' n' k. let img = block_bytes (b\<lparr>b_samples := take (unat (b_sample_count b)) (b_samples b)\<rparr>) in
      tcp_client_send_data_block api (Some c) (Some b) n = Some (err, Some c', n')
    \<and> wire n' (socket_fd c) = wire n (socket_fd c) @ take k img
    \<and> (if err = ADC_OK then k = length img else k < length img)
    \<and> block_of_bytes img = b\<lparr>b_samples := take (unat (b_sample_count b)) (b_samples b)\<rparr>"
  using send_block_law [OF assms, of n]
    block_roundtrip [of "b\<lparr>b_samples := take (unat (b_sample_count b)) (b_samples b)\<rparr>" "[]"] assms(3)
  unfolding send_result_def Let_def sent_block_def by fastforce

theorem tcp_send_block_roundtrip_witness:
  "\<exists>err c' n'. tcp_client_send_data_block (demo_api 7 100) (Some demo_linked)
      (Some \<lparr>b_magic = DATA_BLOCK_MAGIC, b_version = 1, b_sequence = 0, b_sample_count = 1, b_timestamp = 9,
             b_samples = [blank_sample, blank_sample]\<rparr>) quiet_net = Some (err, Some c', n')"
  using tcp_send_block_roundtrip [OF demo_posix_send, of demo_linked
      "\<lparr>b_magic = DATA_BLOCK_MAGIC, b_version = 1, b_sequence = 0, b_sample_count = 1, b_timestamp = 9,
        b_samples = [blank_sample, blank_sample]\<rparr>" 7 100 quiet_net]
  by (auto simp: demo_linked_def Let_def)

text \<open>
  C31. Descriptor discipline of connect and disconnect: a connect that succeeds holds exactly one
  new descriptor and a later disconnect closes it again; a connect that fails at any of its three
  stages leaves no descriptor open and the client disconnected.
\<close>

theorem tcp_connect_descriptors:
  assumes "posix_fds api fds" "\<not> connected c"
  shows "\<exists>err c' n'. tcp_client_connect api (Some c) n = (err, Some c', n')
    \<and> (err = ADC_OK \<and> connected c' \<and> socket_fd c' \<notin> fds n \<and> fds n' = insert (socket_fd c') (fds n)
         \<and> (\<exists>c'' n''. tcp_client_disconnect api (Some c') n' = (ADC_OK, Some c'', n'')
              \<and> \<not> connected c'' \<and> socket_fd c'' = -1 \<and> fds n'' = fds n)
       \<or> err = ADC_ERROR_NETWORK \<and> \<not> connected c' \<and> socket_fd c' < 0 \<and> fds n' = fds n)"
proof -
  obtain err c' n' where k: "tcp_client_connect api (Some c) n = (err, Some c', n')"
    "err = ADC_OK \<and> connected c' \<and> socket_fd c' \<notin> fds n \<and> fds n' = insert (socket_fd c') (fds n)
     \<or> err = ADC_ERROR_NETWORK \<and> \<not> connected c' \<and> socket_fd c' < 0 \<and> fds n' = fds n"
    by (rule tcp_connect_law [OF assms, of n]) (erule (1) that)
  show ?thesis
  proof (cases "err = ADC_OK")
    case True
    then have "\<exists>c'' n''. tcp_client_disconnect api (Some c') n' = (ADC_OK, Some c'', n'')
        \<and> \<not> connected c'' \<and> socket_fd c'' = -1 \<and> fds n'' = fds n"
      using k(2) by (simp add: tcp_client_disconnect_def posix_fdsD(4) [OF assms(1)])
    with True k show ?thesis by simp
  next
    case False
    with k show ?thesis by simp
  qed
qed

theorem tcp_connect_descriptors_witness:
  "\<exists>err c' n'. tcp_client_connect (demo_api 1 1) (Some demo_client) quiet_net = (err, Some c', n')
     \<and> (connected c' \<and> 3 \<noteq> socket_fd c' \<and> set (dn_open n') = {socket_fd c', 3}
        \<or> \<not> connected c' \<and> set (dn_open n') = {3})"
  using tcp_connect_descriptors [OF demo_posix_fds, of demo_client 1 1 quiet_net]
  by (auto simp: demo_client_def quiet_net_def)

text \<open>
  C32. A failed send leaks the descriptor: \<^verbatim>\<open>tcp_client_send\<close> marks the client
  disconnected without closing the socket, so neither a later disconnect nor
  \<^verbatim>\<open>tcp_client_destroy\<close> closes it, and a reconnect opens a second descriptor and
  forgets the first.
\<close>

theorem tcp_failed_send_leaks_descriptor:
  assumes "posix_fds api fds" "connected c" "socket_fd c \<in> fds n"
    and "tcp_client_send api (Some c) (Some bs) len sent n = Some (ADC_ERROR_NETWORK, Some c', sent', n')"
  shows "socket_fd c \<in> fds n' \<and> snd (snd (tcp_client_disconnect api (Some c') n')) = n'
    \<and> (\<forall>h h' n''. tcp_client_destroy api h (Some c') n' = Some (h', n'') \<longrightarrow> socket_fd c \<in> fds n'')
    \<and> (\<forall>c'' n''. tcp_client_connect api (Some c') n' = (ADC_OK, Some c'', n'')
         \<longrightarrow> socket_fd c'' \<noteq> socket_fd c \<and> socket_fd c \<in> fds n'')"
proof -
  let ?l = "unat (call_len len)"
  obtain r e n1 where sk: "sk_send api n (socket_fd c) (take ?l bs) = (r, e, n1)" by (metis prod_cases3)
  have "c' = c\<lparr>connected := False\<rparr> \<and> n' = n1"
    using assms(2,4) sk by (auto simp: tcp_client_send_def mem_read_def split: if_splits)
  then have c': "\<not> connected c'" "fds n' = fds n" using posix_fdsD(6) [OF assms(1) sk] by simp_all
  have "socket_fd c'' \<noteq> socket_fd c \<and> socket_fd c \<in> fds n''"
    if "tcp_client_connect api (Some c') n' = (ADC_OK, Some c'', n'')" for c'' n''
  proof (rule tcp_connect_law [OF assms(1) c'(1), of n'])
    fix err d m
    assume "tcp_client_connect api (Some c') n' = (err, Some d, m)"
      "err = ADC_OK \<and> connected d \<and> socket_fd d \<notin> fds n' \<and> fds m = insert (socket_fd d) (fds n')
       \<or> err = ADC_ERROR_NETWORK \<and> \<not> connected d \<and> socket_fd d < 0 \<and> fds m = fds n'"
    with that assms(3) c'(2) show ?thesis by auto
  qed
  with c' assms(3) show ?thesis
    by (auto simp: tcp_client_disconnect_def tcp_client_destroy_def bind_eq_Some_conv)
qed

definition broken_api :: "demo_net socket_api" where
  "broken_api = (demo_api 1 1)\<lparr>sk_send := (\<lambda>n fd bs. (-1, False, n))\<rparr>"

theorem tcp_failed_send_leaks_descriptor_witness:
  "\<exists>n'. tcp_client_send broken_api (Some demo_linked) (Some [7]) 1 None quiet_net
      = Some (ADC_ERROR_NETWORK, Some (demo_linked\<lparr>connected := False\<rparr>), None, n') \<and> 3 \<in> set (dn_open n')"
proof -
  have fds: "posix_fds broken_api (\<lambda>n. set (dn_open n))"
    using demo_posix_fds [of 1 1] unfolding posix_fds_def broken_api_def by simp
  have "tcp_client_send broken_api (Some demo_linked) (Some [7]) 1 None quiet_net
      = Some (ADC_ERROR_NETWORK, Some (demo_linked\<lparr>connected := False\<rparr>), None, quiet_net)"
    by (simp add: tcp_client_send_def demo_linked_def broken_api_def call_len_small mem_read_def)
  with tcp_failed_send_leaks_descriptor [OF fds _ _ this] show ?thesis
    by (auto simp: demo_linked_def quiet_net_def)
qed

text \<open>
  Creating and destroying a client never frees a block twice and gives every block back,
  whichever of the two allocations fails; without a configuration the client targets
  \<^verbatim>\<open>127.0.0.1:8080\<close>.
\<close>

theorem tcp_client_lifecycle:
  assumes "heap_wf h"
  shows "\<exists>client h1 h2 n'. tcp_client_create alloc_ok h config = Some (client, h1)
    \<and> tcp_client_destroy api h1 client n = Some (h2, n') \<and> h_live h2 = h_live h
    \<and> (\<forall>c. client = Some c \<longrightarrow> \<not> connected c \<and> socket_fd c = -1 \<and> n' = n
         \<and> (config = None \<longrightarrow> server_ip (tc_config c) = ''127.0.0.1'' \<and> server_port (tc_config c) = 8080))"
proof -
  have new: "Suc (h_calls h) \<notin> h_live h" "Suc (Suc (h_calls h)) \<notin> h_live h"
    using heap_wf_new [OF assms] by simp_all
  show ?thesis
    using new by (cases "alloc_ok (Suc (h_calls h))"; cases "alloc_ok (Suc (Suc (h_calls h)))"; cases config)
      (auto simp: tcp_client_create_def heap_alloc_def tcp_client_destroy_def heap_free_def Let_def
        tcp_config_get_default_def DEFAULT_SERVER_IP_def DEFAULT_SERVER_PORT_def)
qed

theorem tcp_client_lifecycle_witness:
  "\<exists>client h1 h2 n'. tcp_client_create (\<lambda>_. True) empty_heap None = Some (client, h1)
    \<and> tcp_client_destroy (demo_api 1 1) h1 client quiet_net = Some (h2, n') \<and> h_live h2 = {}"
  using tcp_client_lifecycle [OF empty_heap_wf, of "\<lambda>_. True" None "demo_api 1 1" quiet_net]
  by (auto simp: empty_heap_def)

text \<open>
  \<^verbatim>\<open>tcp_client_receive\<close> stays inside the caller's buffer: it returns, with
  \<open>ADC_OK\<close> only when at least one byte arrived, and then it reports their number, stores them
  at the front of the buffer and leaves the rest of the buffer alone; a closed connection is an
  \<open>ADC_ERROR_NETWORK\<close> that disconnects the client.
\<close>

theorem tcp_receive_in_bounds:
  assumes "posix_recv api" "connected c" "0 < unat len" "unat len \<le> length buf" "unat len < 2 ^ 31"
    and "sk_recv api n (socket_fd c) len = (r, e, bs, n')"
  shows "tcp_client_receive api (Some c) (Some buf) len (Some z) n =
    (if 0 < r then Some (ADC_OK, Some c, Some (bs @ drop (length bs) buf), Some (word_of_nat (length bs)), n')
     else if r < 0 \<and> e then Some (ADC_ERROR_TIMEOUT, Some c, Some buf, Some 0, n')
     else Some (ADC_ERROR_NETWORK, Some (c\<lparr>connected := False\<rparr>), Some buf, Some z, n'))"
proof -
  have r: "r \<le> int (unat len)" "length bs = nat r" using assms(1,6) unfolding posix_recv_def by blast+
  have "length bs \<le> length buf" using r assms(4) by linarith
  moreover have "len \<noteq> 0" using assms(3) by auto
  moreover have "0 < r \<Longrightarrow> (word_of_int r :: u64) = word_of_nat (length bs)" using r(2) by simp
  moreover have "r \<le> 0 \<Longrightarrow> bs = []" using r(2) by simp
  ultimately show ?thesis
    using assms(2,6) by (auto simp: tcp_client_receive_def call_len_small [OF assms(5)] mem_write_in)
qed

theorem tcp_receive_in_bounds_witness:
  "tcp_client_receive ((demo_api 1 1)\<lparr>sk_recv := (\<lambda>n fd len. (if len = 0 then 0 else 1, False,
       if len = 0 then [] else [5], n))\<rparr>) (Some demo_linked) (Some [0, 1]) 2 (Some 0) quiet_net
     = Some (ADC_OK, Some demo_linked, Some [5, 1], Some 1, quiet_net)"
proof -
  let ?api = "(demo_api 1 1)\<lparr>sk_recv := (\<lambda>n fd len. (if len = 0 then 0 else 1, False,
       if len = 0 then [] else [5], n))\<rparr>"
  have "1 \<le> uint len" if "len \<noteq> 0" for len :: u64
  proof -
    have "uint len \<noteq> 0" "0 \<le> uint len" using that by (simp_all add: unsigned_eq_0_iff)
    then show ?thesis by linarith
  qed
  then have "posix_recv ?api" by (auto simp: posix_recv_def split: if_splits)
  from tcp_receive_in_bounds [OF this, of demo_linked 2 "[0, 1]" quiet_net 1 False "[5]" quiet_net 0]
  show ?thesis by (simp add: demo_linked_def)
qed

end
