(* ===== verification/Thread_Manager.thy ===== *)
theory Thread_Manager
  imports Adc_Simulator Tcp_Client
begin

text \<open>
  The thread manager of \<^verbatim>\<open>src/thread/thread_manager.c\<close> (POSIX branch): its structure,
  life cycle, state queries and the wrapper loop that every pipeline thread runs.

  The field \<open>tm_alive\<close> is a history variable: whether the wrapper of a thread has been created
  and not yet joined, that is, whether some thread may still access the structure. A worker is
  named by a constructor, its execution is a parameter of the wrapper. Doubles in the statistics
  are real numbers. A result \<^term>\<open>None\<close> is undefined behaviour.
\<close>

section \<open>Structures\<close>

datatype thread_state_t =
    THREAD_STATE_IDLE
  | THREAD_STATE_RUNNING
  | THREAD_STATE_PAUSED
  | THREAD_STATE_ERROR
  | THREAD_STATE_STOPPED

text \<open>Thread types are the integers 0, 1, 2 of the enumeration; \<open>THREAD_COUNT\<close> is 3.\<close>

definition THREAD_CAPTURE :: nat where "THREAD_CAPTURE = 0"
definition THREAD_PROCESS :: nat where "THREAD_PROCESS = 1"
definition THREAD_NETWORK :: nat where "THREAD_NETWORK = 2"
definition THREAD_COUNT :: nat where "THREAD_COUNT = 3"

record thread_stats_t =
  loop_count :: u64
  item_count :: u64
  error_count :: u64
  avg_cycle_time_us :: real
  max_cycle_time_us :: real

datatype thread_worker_t = capture_worker | process_worker | network_worker | user_worker nat

record thread_context_t =
  ctx_type :: nat
  ctx_worker :: "thread_worker_t option"
  ctx_user_data :: nat

record thread_manager =
  tm_self :: nat
  tm_buffer_manager :: nat
  tm_stats :: system_stats_t
  tm_states :: "thread_state_t list"
  tm_running :: bool
  tm_paused :: bool
  tm_alive :: "bool list"
  tm_thread_stats :: "thread_stats_t list"
  tm_contexts :: "thread_context_t list"
  tm_adc :: "(heap \<times> system_stats_t) option adc_simulator option"
  tm_tcp_client :: "tcp_client option"

definition zero_stats :: system_stats_t where
  "zero_stats = \<lparr>total_samples = 0, dropped_samples = 0, sent_bytes = 0, send_errors = 0,
     avg_sample_rate = 0, avg_latency_ms = 0, cpu_usage = 0\<rparr>"

definition zero_thread_stats :: thread_stats_t where
  "zero_thread_stats = \<lparr>loop_count = 0, item_count = 0, error_count = 0, avg_cycle_time_us = 0,
     max_cycle_time_us = 0\<rparr>"

section \<open>Life cycle\<close>

definition sched_priority :: "nat \<Rightarrow> int" where
  "sched_priority type = (if type = THREAD_CAPTURE then 99 else if type = THREAD_PROCESS then 80
     else if type = THREAD_NETWORK then 70 else 50)"

definition thread_manager_create :: "(nat \<Rightarrow> bool) \<Rightarrow> heap \<Rightarrow> thread_manager option \<times> heap" where
  "thread_manager_create alloc_ok h =
     (let (p, h) = heap_alloc alloc_ok h in
      if p = 0 then (None, h)
      else (Some \<lparr>tm_self = p, tm_buffer_manager = 0, tm_stats = zero_stats,
              tm_states = replicate THREAD_COUNT THREAD_STATE_IDLE, tm_running = False, tm_paused = False,
              tm_alive = replicate THREAD_COUNT False,
              tm_thread_stats = replicate THREAD_COUNT zero_thread_stats,
              tm_contexts = map (\<lambda>i. \<lparr>ctx_type = i, ctx_worker = None, ctx_user_data = 0\<rparr>) [0..<THREAD_COUNT],
              tm_adc = None, tm_tcp_client = None\<rparr>, h))"

definition set_ctx_worker :: "thread_manager \<Rightarrow> nat \<Rightarrow> thread_worker_t option \<Rightarrow> thread_manager" where
  "set_ctx_worker tm i w = tm\<lparr>tm_contexts := (tm_contexts tm)[i := (tm_contexts tm ! i)\<lparr>ctx_worker := w\<rparr>]\<rparr>"

definition thread_manager_init :: "thread_manager option \<Rightarrow> nat \<Rightarrow> adc_error_t \<times> thread_manager option" where
  "thread_manager_init tm bm =
     (case tm of None \<Rightarrow> (ADC_ERROR_INVALID_PARAM, None)
      | Some t \<Rightarrow>
          if bm = 0 then (ADC_ERROR_INVALID_PARAM, tm)
          else let t = t\<lparr>tm_buffer_manager := bm\<rparr>;
                   t = set_ctx_worker t THREAD_CAPTURE (Some capture_worker);
                   t = set_ctx_worker t THREAD_PROCESS (Some process_worker);
                   t = set_ctx_worker t THREAD_NETWORK (Some network_worker)
               in (ADC_OK, Some t))"

text \<open>The loop over the threads; \<open>pthread_ok i\<close> tells whether the \<open>i\<close>-th creation succeeds.\<close>

fun start_threads :: "(nat \<Rightarrow> bool) \<Rightarrow> nat list \<Rightarrow> thread_manager \<Rightarrow> adc_error_t \<times> thread_manager" where
  "start_threads pthread_ok [] t = (ADC_OK, t)"
| "start_threads pthread_ok (i # is) t =
     (let t = t\<lparr>tm_states := (tm_states t)[i := THREAD_STATE_RUNNING]\<rparr> in
      if pthread_ok i
      then start_threads pthread_ok is (t\<lparr>tm_alive := (tm_alive t)[i := True]\<rparr>)
      else (ADC_ERROR_THREAD, t\<lparr>tm_running := False\<rparr>))"

definition thread_manager_start ::
  "(nat \<Rightarrow> bool) \<Rightarrow> thread_manager option \<Rightarrow> adc_error_t \<times> thread_manager option" where
  "thread_manager_start pthread_ok tm =
     (case tm of None \<Rightarrow> (ADC_ERROR_INVALID_PARAM, None)
      | Some t \<Rightarrow>
          if tm_running t then (ADC_OK, tm)
          else let (e, t) = start_threads pthread_ok [0..<THREAD_COUNT] (t\<lparr>tm_running := True, tm_paused := False\<rparr>)
               in (e, Some t))"

text \<open>Joining a thread that was never created is undefined behaviour.\<close>

fun join_threads :: "nat list \<Rightarrow> thread_manager \<Rightarrow> thread_manager option" where
  "join_threads [] t = Some t"
| "join_threads (i # is) t =
     (if tm_alive t ! i
      then join_threads is (t\<lparr>tm_alive := (tm_alive t)[i := False],
                             tm_states := (tm_states t)[i := THREAD_STATE_STOPPED]\<rparr>)
      else None)"

definition thread_manager_stop :: "thread_manager option \<Rightarrow> (adc_error_t \<times> thread_manager option) option" where
  "thread_manager_stop tm =
     (case tm of None \<Rightarrow> Some (ADC_ERROR_INVALID_PARAM, None)
      | Some t \<Rightarrow>
          if \<not> tm_running t then Some (ADC_OK, tm)
          else do {
            t \<leftarrow> join_threads [0..<THREAD_COUNT] (t\<lparr>tm_running := False\<rparr>);
            Some (ADC_OK, Some t)
          })"

text \<open>
  \<open>thread_manager_destroy\<close> returns the heap and the structure as it was when its memory was
  released.
\<close>

definition thread_manager_destroy ::
  "heap \<Rightarrow> thread_manager option \<Rightarrow> (heap \<times> thread_manager option) option" where
  "thread_manager_destroy h tm =
     (case tm of None \<Rightarrow> Some (h, None)
      | Some t \<Rightarrow> do {
          tm \<leftarrow> (if tm_running t then map_option snd (thread_manager_stop tm) else Some tm);
          h \<leftarrow> heap_free h (tm_self t);
          Some (h, tm)
        })"

definition thread_manager_pause :: "thread_manager option \<Rightarrow> adc_error_t \<times> thread_manager option" where
  "thread_manager_pause tm = (case tm of None \<Rightarrow> (ADC_ERROR_INVALID_PARAM, None)
     | Some t \<Rightarrow> (ADC_OK, Some (t\<lparr>tm_paused := True\<rparr>)))"

definition thread_manager_resume :: "thread_manager option \<Rightarrow> adc_error_t \<times> thread_manager option" where
  "thread_manager_resume tm = (case tm of None \<Rightarrow> (ADC_ERROR_INVALID_PARAM, None)
     | Some t \<Rightarrow> (ADC_OK, Some (t\<lparr>tm_paused := False\<rparr>)))"

section \<open>Queries and setters\<close>

definition thread_manager_is_running :: "thread_manager option \<Rightarrow> bool" where
  "thread_manager_is_running tm = (case tm of None \<Rightarrow> False | Some t \<Rightarrow> tm_running t)"

definition thread_manager_get_state :: "thread_manager option \<Rightarrow> int \<Rightarrow> thread_state_t" where
  "thread_manager_get_state tm type =
     (case tm of None \<Rightarrow> THREAD_STATE_IDLE
      | Some t \<Rightarrow> if type < 0 \<or> type \<ge> int THREAD_COUNT then THREAD_STATE_IDLE else tm_states t ! nat type)"

definition thread_manager_get_stats ::
  "thread_manager option \<Rightarrow> int \<Rightarrow> thread_stats_t option \<Rightarrow> adc_error_t \<times> thread_stats_t option" where
  "thread_manager_get_stats tm type stats =
     (case (tm, stats) of
        (Some t, Some _) \<Rightarrow>
          if type < 0 \<or> type \<ge> int THREAD_COUNT then (ADC_ERROR_INVALID_PARAM, stats)
          else (ADC_OK, Some (tm_thread_stats t ! nat type))
      | _ \<Rightarrow> (ADC_ERROR_INVALID_PARAM, stats))"

definition thread_manager_set_worker ::
  "thread_manager option \<Rightarrow> int \<Rightarrow> thread_worker_t option \<Rightarrow> nat \<Rightarrow> adc_error_t \<times> thread_manager option" where
  "thread_manager_set_worker tm type worker user_data =
     (case tm of None \<Rightarrow> (ADC_ERROR_INVALID_PARAM, None)
      | Some t \<Rightarrow>
          if type < 0 \<or> type \<ge> int THREAD_COUNT then (ADC_ERROR_INVALID_PARAM, tm)
          else (ADC_OK, Some (t\<lparr>tm_contexts := (tm_contexts t)[nat type := (tm_contexts t ! nat type)
                  \<lparr>ctx_worker := worker, ctx_user_data := user_data\<rparr>]\<rparr>)))"

definition thread_manager_get_buffer_manager :: "thread_manager option \<Rightarrow> nat" where
  "thread_manager_get_buffer_manager tm = (case tm of None \<Rightarrow> 0 | Some t \<Rightarrow> tm_buffer_manager t)"

definition thread_manager_get_system_stats :: "thread_manager option \<Rightarrow> system_stats_t option" where
  "thread_manager_get_system_stats tm = map_option tm_stats tm"

text \<open>The pointers to the simulator and the client that the workers create.\<close>

definition thread_manager_set_adc ::
  "thread_manager option \<Rightarrow> (heap \<times> system_stats_t) option adc_simulator option \<Rightarrow> thread_manager option" where
  "thread_manager_set_adc tm adc = map_option (\<lambda>t. t\<lparr>tm_adc := adc\<rparr>) tm"

definition thread_manager_get_adc ::
  "thread_manager option \<Rightarrow> (heap \<times> system_stats_t) option adc_simulator option" where
  "thread_manager_get_adc tm = (case tm of None \<Rightarrow> None | Some t \<Rightarrow> tm_adc t)"

definition thread_manager_set_tcp_client :: "thread_manager option \<Rightarrow> tcp_client option \<Rightarrow> thread_manager option" where
  "thread_manager_set_tcp_client tm client = map_option (\<lambda>t. t\<lparr>tm_tcp_client := client\<rparr>) tm"

definition thread_manager_get_tcp_client :: "thread_manager option \<Rightarrow> tcp_client option" where
  "thread_manager_get_tcp_client tm = (case tm of None \<Rightarrow> None | Some t \<Rightarrow> tm_tcp_client t)"

section \<open>The wrapper loop\<close>

definition update_stats :: "thread_stats_t \<Rightarrow> real \<Rightarrow> thread_stats_t" where
  "update_stats st cycle_time =
     (let st = st\<lparr>loop_count := loop_count st + 1,
                  avg_cycle_time_us := avg_cycle_time_us st * (9 / 10) + cycle_time * (1 / 10)\<rparr>
      in if cycle_time > max_cycle_time_us st then st\<lparr>max_cycle_time_us := cycle_time\<rparr> else st)"

text \<open>
  One iteration of \<^verbatim>\<open>thread_wrapper\<close> for thread \<open>i\<close> while
  \<^verbatim>\<open>running\<close> is set; \<open>exec\<close> runs a worker on the manager and the rest of the world.
\<close>

definition wrapper_iteration ::
  "(thread_worker_t \<Rightarrow> thread_manager \<times> 'x \<Rightarrow> (thread_manager \<times> 'x) option) \<Rightarrow> nat \<Rightarrow> u64 \<Rightarrow> u64
     \<Rightarrow> thread_manager \<times> 'x \<Rightarrow> (thread_manager \<times> 'x) option" where
  "wrapper_iteration exec i start_cycles end_cycles s =
     (if tm_paused (fst s) then Some s
      else if tm_states (fst s) ! i = THREAD_STATE_RUNNING
      then do {
        (t, x) \<leftarrow> (case ctx_worker (tm_contexts (fst s) ! i) of Some w \<Rightarrow> exec w s | None \<Rightarrow> Some s);
        let cycle_time = real (unat (end_cycles - start_cycles));
        Some (t\<lparr>tm_thread_stats := (tm_thread_stats t)[i := update_stats (tm_thread_stats t ! i) cycle_time]\<rparr>, x)
      }
      else Some s)"

definition wrapper_exit :: "nat \<Rightarrow> thread_manager \<Rightarrow> thread_manager" where
  "wrapper_exit i t = t\<lparr>tm_states := (tm_states t)[i := THREAD_STATE_STOPPED]\<rparr>"

text \<open>The workers that \<^verbatim>\<open>thread_manager_init\<close> installs, one per thread.\<close>

definition main_workers :: "thread_worker_t option list" where
  "main_workers = [Some capture_worker, Some process_worker, Some network_worker]"

section \<open>Invariant\<close>

text \<open>
  Three slots per thread array; while the manager is marked running every thread exists, while it
  is not, none does.
\<close>

definition tm_wf :: "thread_manager \<Rightarrow> bool" where
  "tm_wf t \<longleftrightarrow> length (tm_states t) = THREAD_COUNT \<and> length (tm_alive t) = THREAD_COUNT
     \<and> length (tm_contexts t) = THREAD_COUNT \<and> length (tm_thread_stats t) = THREAD_COUNT
     \<and> tm_alive t = replicate THREAD_COUNT (tm_running t)"

lemma threads_upt: "[0..<THREAD_COUNT] = [0, 1, 2]"
  by (simp add: THREAD_COUNT_def upt_rec)

lemma list3: "length xs = THREAD_COUNT \<Longrightarrow> \<exists>a b c. xs = [a, b, c]"
  by (auto simp: THREAD_COUNT_def eval_nat_numeral length_Suc_conv)

lemma replicate3: "replicate THREAD_COUNT x = [x, x, x]"
  by (simp add: THREAD_COUNT_def eval_nat_numeral)

lemma length3: "Suc (Suc (Suc 0)) = THREAD_COUNT"
  by (simp add: THREAD_COUNT_def)

lemma start_law:
  assumes wf: "tm_wf t" and ok: "\<forall>i<THREAD_COUNT. pthread_ok i"
  shows "\<exists>t'. thread_manager_start pthread_ok (Some t) = (ADC_OK, Some t') \<and> tm_wf t' \<and> tm_running t'
    \<and> tm_self t' = tm_self t \<and> (\<not> tm_running t \<longrightarrow> tm_states t' = replicate THREAD_COUNT THREAD_STATE_RUNNING)"
proof (cases "tm_running t")
  case True
  then show ?thesis using wf by (simp add: thread_manager_start_def)
next
  case False
  obtain a b c where "tm_states t = [a, b, c]" using list3 wf by (metis tm_wf_def)
  moreover have "tm_alive t = [False, False, False]" using wf False by (simp add: tm_wf_def replicate3)
  moreover have "pthread_ok 0" "pthread_ok 1" "pthread_ok 2" using ok by (simp_all add: THREAD_COUNT_def)
  ultimately show ?thesis using False wf
    by (simp add: thread_manager_start_def threads_upt tm_wf_def replicate3 Let_def)
qed

text \<open>Whether or not it succeeds, a start touches only the thread bookkeeping.\<close>

lemma start_frame:
  assumes "tm_wf t" "\<not> tm_running t"
  shows "\<exists>e t'. thread_manager_start pthread_ok (Some t) = (e, Some t') \<and> tm_self t' = tm_self t
    \<and> tm_buffer_manager t' = tm_buffer_manager t \<and> tm_stats t' = tm_stats t \<and> tm_adc t' = tm_adc t
    \<and> tm_tcp_client t' = tm_tcp_client t \<and> tm_contexts t' = tm_contexts t \<and> (e \<noteq> ADC_OK \<longrightarrow> \<not> tm_running t')
    \<and> (e = ADC_OK \<longrightarrow> tm_wf t' \<and> tm_running t' \<and> \<not> tm_paused t'
         \<and> tm_states t' = replicate THREAD_COUNT THREAD_STATE_RUNNING)"
proof -
  obtain a b c where "tm_states t = [a, b, c]" using list3 assms(1) by (metis tm_wf_def)
  moreover have "tm_alive t = [False, False, False]" using assms by (simp add: tm_wf_def replicate3)
  ultimately show ?thesis using assms
    by (auto simp: thread_manager_start_def threads_upt tm_wf_def replicate3 Let_def)
qed

lemma stop_law:
  assumes wf: "tm_wf t"
  shows "\<exists>t'. thread_manager_stop (Some t) = Some (ADC_OK, Some t') \<and> tm_wf t' \<and> \<not> tm_running t'
    \<and> tm_self t' = tm_self t \<and> (tm_running t \<longrightarrow> tm_states t' = replicate THREAD_COUNT THREAD_STATE_STOPPED)
    \<and> tm_thread_stats t' = tm_thread_stats t \<and> tm_adc t' = tm_adc t \<and> tm_tcp_client t' = tm_tcp_client t"
proof (cases "tm_running t")
  case False
  then show ?thesis using wf by (simp add: thread_manager_stop_def)
next
  case True
  obtain a b c where "tm_states t = [a, b, c]" using list3 wf by (metis tm_wf_def)
  moreover have "tm_alive t = [True, True, True]" using wf True by (simp add: tm_wf_def replicate3)
  ultimately show ?thesis using True wf
    by (simp add: thread_manager_stop_def threads_upt tm_wf_def replicate3)
qed

section \<open>Sequences of calls\<close>

datatype tm_call = Start | Stop | Pause | Resume

fun tm_call_run :: "tm_call list \<Rightarrow> thread_manager option \<Rightarrow> thread_manager option option" where
  "tm_call_run [] t = Some t"
| "tm_call_run (Start # cs) t = tm_call_run cs (snd (thread_manager_start (\<lambda>_. True) t))"
| "tm_call_run (Stop # cs) t = do { (_, t) \<leftarrow> thread_manager_stop t; tm_call_run cs t }"
| "tm_call_run (Pause # cs) t = tm_call_run cs (snd (thread_manager_pause t))"
| "tm_call_run (Resume # cs) t = tm_call_run cs (snd (thread_manager_resume t))"

lemma tm_call_run_law:
  "tm_wf t \<Longrightarrow> \<exists>t'. tm_call_run cs (Some t) = Some (Some t') \<and> tm_wf t' \<and> tm_self t' = tm_self t"
proof (induction cs arbitrary: t)
  case Nil
  then show ?case by simp
next
  case (Cons c cs)
  obtain t1 where t1: "tm_call_run (c # cs) (Some t) = tm_call_run cs (Some t1)" "tm_wf t1" "tm_self t1 = tm_self t"
  proof (cases c)
    case Start
    then show ?thesis using start_law [OF Cons.prems, of "\<lambda>_. True"] that by fastforce
  next
    case Stop
    then show ?thesis using stop_law [OF Cons.prems] that by fastforce
  next
    case Pause
    with Cons.prems show ?thesis
      by (intro that [of "t\<lparr>tm_paused := True\<rparr>"]) (simp_all add: thread_manager_pause_def tm_wf_def)
  next
    case Resume
    with Cons.prems show ?thesis
      by (intro that [of "t\<lparr>tm_paused := False\<rparr>"]) (simp_all add: thread_manager_resume_def tm_wf_def)
  qed
  with Cons.IH [OF t1(2)] show ?case by auto
qed

lemma created_wf:
  assumes "thread_manager_create alloc_ok h = (Some t, h')" "bm \<noteq> 0"
  shows "\<exists>t'. thread_manager_init (Some t) bm = (ADC_OK, Some t') \<and> tm_wf t' \<and> tm_self t' = tm_self t
    \<and> map ctx_worker (tm_contexts t') = [Some capture_worker, Some process_worker, Some network_worker]"
  using assms
  by (auto simp: length3 thread_manager_create_def heap_alloc_def thread_manager_init_def set_ctx_worker_def Let_def
      tm_wf_def replicate3 threads_upt THREAD_CAPTURE_def THREAD_PROCESS_def THREAD_NETWORK_def
      split: if_splits)

lemma stats_step:
  assumes "0 \<le> avg_cycle_time_us st" "avg_cycle_time_us st \<le> max_cycle_time_us st" "0 \<le> c"
  shows "0 \<le> avg_cycle_time_us (update_stats st c)"
    "avg_cycle_time_us (update_stats st c) \<le> max_cycle_time_us (update_stats st c)"
    "loop_count (update_stats st c) = loop_count st + 1"
  using assms by (auto simp: update_stats_def Let_def)

lemma stats_fold:
  assumes "\<forall>c\<in>set cs. 0 \<le> c" and st: "st = foldl update_stats zero_thread_stats cs"
  shows "loop_count st = word_of_nat (length cs) \<and> 0 \<le> avg_cycle_time_us st
      \<and> avg_cycle_time_us st \<le> max_cycle_time_us st \<and> item_count st = 0 \<and> error_count st = 0"
  using assms
proof (induction cs arbitrary: st rule: rev_induct)
  case Nil
  then show ?case by (simp add: zero_thread_stats_def)
next
  case (snoc c cs)
  define s0 where "s0 = foldl update_stats zero_thread_stats cs"
  have "item_count (update_stats s0 c) = item_count s0" "error_count (update_stats s0 c) = error_count s0"
    by (simp_all add: update_stats_def Let_def)
  with snoc.IH [OF _ s0_def] snoc.prems stats_step [of s0 c] show ?case
    by (simp add: s0_def [symmetric] add.commute)
qed

section \<open>Properties\<close>



text \<open>
  C27. A start that fails after some threads were created breaks the life cycle: it returns
  \<open>ADC_ERROR_THREAD\<close> with the manager marked not running although the first thread exists, so
  a later stop does nothing and destroy releases the structure while that thread still uses it.
\<close>

theorem failed_start_leaves_thread:
  assumes "tm_wf t" "\<not> tm_running t" "tm_self t \<in> h_live h" "0 < tm_self t" "pthread_ok 0" "\<not> pthread_ok 1"
  shows "\<exists>t' h'. thread_manager_start pthread_ok (Some t) = (ADC_ERROR_THREAD, Some t')
    \<and> thread_manager_stop (Some t') = Some (ADC_OK, Some t')
    \<and> thread_manager_destroy h (Some t') = Some (h', Some t')
    \<and> tm_self t' \<notin> h_live h' \<and> tm_alive t' ! THREAD_CAPTURE"
proof -
  obtain a b c where "tm_states t = [a, b, c]" using list3 assms(1) by (metis tm_wf_def)
  moreover have "tm_alive t = [False, False, False]" using assms(1,2) by (simp add: tm_wf_def replicate3)
  ultimately show ?thesis using assms(2-6)
    by (simp add: thread_manager_start_def threads_upt thread_manager_stop_def thread_manager_destroy_def
        heap_free_def THREAD_CAPTURE_def)
qed

theorem failed_start_leaves_thread_witness:
  "\<exists>t t' h'. fst (thread_manager_create (\<lambda>_. True) empty_heap) = Some t
    \<and> thread_manager_start (\<lambda>i. i = 0) (Some t) = (ADC_ERROR_THREAD, Some t')
    \<and> thread_manager_destroy (snd (thread_manager_create (\<lambda>_. True) empty_heap)) (Some t') = Some (h', Some t')
    \<and> tm_self t' \<notin> h_live h' \<and> tm_alive t' ! THREAD_CAPTURE"
proof -
  let ?c = "thread_manager_create (\<lambda>_. True) empty_heap"
  obtain t where t: "?c = (Some t, snd ?c)"
    by (simp add: thread_manager_create_def heap_alloc_def Let_def)
  then have "tm_wf t" "\<not> tm_running t" "tm_self t \<in> h_live (snd ?c)" "0 < tm_self t"
    by (auto simp: thread_manager_create_def heap_alloc_def Let_def tm_wf_def)
  from failed_start_leaves_thread [OF this, of "\<lambda>i. i = 0"] t show ?thesis
    by (metis fst_conv zero_neq_one)
qed

text \<open>
  Thread statistics: over any number of wrapper iterations the loop counter counts exactly
  the executed ones (modulo \<open>2 ^ 64\<close>) and the moving average of the cycle times stays between
  zero and their maximum.
\<close>

theorem thread_stats_consistent:
  "let st = foldl update_stats zero_thread_stats (map (\<lambda>c. real (unat (c :: u64))) cycles)
   in loop_count st = word_of_nat (length cycles) \<and> 0 \<le> avg_cycle_time_us st
      \<and> avg_cycle_time_us st \<le> max_cycle_time_us st \<and> item_count st = 0 \<and> error_count st = 0"
proof -
  have "\<forall>c\<in>set (map (\<lambda>c. real (unat (c :: u64))) cycles). 0 \<le> c" by (auto simp del: of_nat_unat)
  from stats_fold [OF this refl] show ?thesis by (simp only: Let_def length_map)
qed

end
