(* ===== verification/Timestamp.thy ===== *)
theory Timestamp
  imports Prelude
begin

text \<open>
  Time keeping: \<^verbatim>\<open>src/utils/timestamp.c\<close> (POSIX branch) and the inline function of
  \<^verbatim>\<open>include/timestamp.h\<close>. The clock reading and \<^verbatim>\<open>nanosleep\<close> are
  parameters; the conversions and the retry loop are the repository's.
\<close>

record timespec =
  tv_sec :: u64
  tv_nsec :: u64

definition elapsed_us :: "u64 \<Rightarrow> u64 \<Rightarrow> u64" where
  "elapsed_us start stop = (if stop \<ge> start then stop - start else 0xFFFFFFFFFFFFFFFF - start + stop + 1)"

definition get_timestamp_us :: "timespec \<Rightarrow> u64" where
  "get_timestamp_us ts = tv_sec ts * 1000000 + tv_nsec ts div 1000"

definition get_timestamp_ms :: "timespec \<Rightarrow> u64" where
  "get_timestamp_ms ts = tv_sec ts * 1000 + tv_nsec ts div 1000000"

definition get_timestamp_ns :: "timespec \<Rightarrow> u64" where
  "get_timestamp_ns ts = tv_sec ts * 1000000000 + tv_nsec ts"

text \<open>
  \<open>nanosleep w ts\<close> returns the C result, whether \<^verbatim>\<open>errno\<close> is
  \<^verbatim>\<open>EINTR\<close>, the remaining time (stored through the same pointer) and the state of the
  world after the call.
\<close>

partial_function (option) sleep_timespec ::
  "('w \<Rightarrow> timespec \<Rightarrow> int \<times> bool \<times> timespec \<times> 'w) \<Rightarrow> timespec \<Rightarrow> 'w \<Rightarrow> 'w option" where
  "sleep_timespec nanosleep ts w =
     (case nanosleep w ts of (r, eintr, ts, w) \<Rightarrow>
        if r \<noteq> 0 \<and> eintr then sleep_timespec nanosleep ts w else Some w)"

definition us_timespec :: "u64 \<Rightarrow> timespec" where
  "us_timespec us = \<lparr>tv_sec = us div 1000000, tv_nsec = (us mod 1000000) * 1000\<rparr>"

definition ms_timespec :: "u32 \<Rightarrow> timespec" where
  "ms_timespec ms = \<lparr>tv_sec = ucast (ms div 1000), tv_nsec = ucast (ms mod 1000) * 1000000\<rparr>"

definition sleep_us :: "('w \<Rightarrow> timespec \<Rightarrow> int \<times> bool \<times> timespec \<times> 'w) \<Rightarrow> u64 \<Rightarrow> 'w \<Rightarrow> 'w option" where
  "sleep_us nanosleep us w = sleep_timespec nanosleep (us_timespec us) w"

definition sleep_ms :: "('w \<Rightarrow> timespec \<Rightarrow> int \<times> bool \<times> timespec \<times> 'w) \<Rightarrow> u32 \<Rightarrow> 'w \<Rightarrow> 'w option" where
  "sleep_ms nanosleep ms w = sleep_timespec nanosleep (ms_timespec ms) w"

definition get_cpu_cycles :: "u32 \<Rightarrow> u32 \<Rightarrow> u64" where
  "get_cpu_cycles hi lo = push_bit 32 (ucast hi) OR ucast lo"

section \<open>Lemmas\<close>

text \<open>The length of a time interval in nanoseconds.\<close>

definition duration :: "timespec \<Rightarrow> nat" where
  "duration ts = unat (tv_sec ts) * 10 ^ 9 + unat (tv_nsec ts)"

definition valid_timespec :: "timespec \<Rightarrow> bool" where
  "valid_timespec ts \<longleftrightarrow> unat (tv_nsec ts) < 10 ^ 9"

lemma elapsed_us_sub: "elapsed_us s e = e - s"
  by (simp add: elapsed_us_def)

lemma unat_scale:
  "unat a * k < 2 ^ 64 \<Longrightarrow> k < 2 ^ 64 \<Longrightarrow> unat ((a :: u64) * word_of_nat k) = unat a * k"
  by (simp add: unat_word_ariths unat_of_nat)

lemma split_scale: "(a :: nat) div k * (k * c) + a mod k * c = a * c"
  by (metis add_mult_distrib div_mult_mod_eq mult.assoc)

lemma us_timespec_correct: "duration (us_timespec us) = unat us * 1000" "valid_timespec (us_timespec us)"
proof -
  have m: "unat (us mod 1000000) = unat us mod 1000000" "unat (us div 1000000) = unat us div 1000000"
    by (simp_all add: unat_mod unat_div)
  have "unat us mod 1000000 < 1000000" by simp
  then have "unat us mod 1000000 * 1000 < 2 ^ 64" by simp
  then have "unat ((us mod 1000000) * 1000) = unat us mod 1000000 * 1000"
    using unat_scale [of "us mod 1000000" 1000] by (simp add: m)
  then show "duration (us_timespec us) = unat us * 1000" "valid_timespec (us_timespec us)"
    using m split_scale [of "unat us" 1000000 1000]
    by (simp_all add: duration_def valid_timespec_def us_timespec_def)
qed

lemma ms_timespec_correct: "duration (ms_timespec ms) = unat ms * 1000000" "valid_timespec (ms_timespec ms)"
proof -
  have m: "unat (ms mod 1000) = unat ms mod 1000" "unat (ms div 1000) = unat ms div 1000"
    by (simp_all add: unat_mod unat_div)
  have u: "unat (ucast x :: u64) = unat x" for x :: u32
    using unsigned_less [of x, where ?'a = nat] by (simp add: unsigned_ucast_eq take_bit_nat_eq_self)
  have "unat ms mod 1000 < 1000" by simp
  then have "unat ms mod 1000 * 1000000 < 2 ^ 64" by simp
  then have "unat (ucast (ms mod 1000) * 1000000 :: u64) = unat ms mod 1000 * 1000000"
    using unat_scale [of "ucast (ms mod 1000)" 1000000] by (simp add: m u)
  then show "duration (ms_timespec ms) = unat ms * 1000000" "valid_timespec (ms_timespec ms)"
    using m split_scale [of "unat ms" 1000 1000000]
    by (simp_all add: duration_def valid_timespec_def ms_timespec_def u)
qed

text \<open>
  The documented behaviour of \<^verbatim>\<open>nanosleep\<close> on a valid interval: it returns 0 once
  the interval has passed, or fails with \<^verbatim>\<open>EINTR\<close> and stores at least the time that is
  left. \<open>slept w\<close> is the time passed so far, \<open>signals w\<close> the number of signals still
  to be delivered.
\<close>

definition posix_nanosleep ::
  "('w \<Rightarrow> timespec \<Rightarrow> int \<times> bool \<times> timespec \<times> 'w) \<Rightarrow> ('w \<Rightarrow> nat) \<Rightarrow> ('w \<Rightarrow> nat) \<Rightarrow> bool" where
  "posix_nanosleep ns slept signals \<longleftrightarrow> (\<forall>w ts r e left w'.
     valid_timespec ts \<and> ns w ts = (r, e, left, w') \<longrightarrow>
       (if r = 0 then slept w + duration ts \<le> slept w'
        else e \<and> valid_timespec left \<and> slept w + duration ts \<le> slept w' + duration left
             \<and> signals w' < signals w))"

lemma sleep_timespec_law:
  assumes ns: "posix_nanosleep ns slept signals" and "valid_timespec ts"
  shows "\<exists>w'. sleep_timespec ns ts w = Some w' \<and> slept w + duration ts \<le> slept w'"
  using assms(2)
proof (induction "signals w" arbitrary: ts w rule: less_induct)
  case less
  obtain r e left w1 where s: "ns w ts = (r, e, left, w1)" by (metis prod_cases4)
  have law: "if r = 0 then slept w + duration ts \<le> slept w1
      else e \<and> valid_timespec left \<and> slept w + duration ts \<le> slept w1 + duration left \<and> signals w1 < signals w"
    using ns less.prems s unfolding posix_nanosleep_def by blast
  show ?case
  proof (cases "r = 0")
    case True
    with law s show ?thesis by (simp add: sleep_timespec.simps)
  next
    case False
    with law have l: "e" "valid_timespec left" "slept w + duration ts \<le> slept w1 + duration left"
      "signals w1 < signals w" by simp_all
    obtain w' where "sleep_timespec ns left w1 = Some w'" "slept w1 + duration left \<le> slept w'"
      using less.hyps [OF l(4,2)] by blast
    with l s False show ?thesis by (simp add: sleep_timespec.simps [of ns ts w])
  qed
qed

section \<open>Properties\<close>

text \<open>
  \<^verbatim>\<open>elapsed_us\<close> is correct across the wrap-around of the 64-bit clock: if the clock
  advanced by \<open>d\<close> microseconds (less than a full turn) from any start value, it returns
  \<open>d\<close>.
\<close>

theorem elapsed_us_wraps:
  assumes "d < 2 ^ 64"
  shows "unat (elapsed_us start (start + word_of_nat d)) = d"
  using assms by (simp add: elapsed_us_sub unat_of_nat)

theorem elapsed_us_wraps_witness: "unat (elapsed_us (- 2) 3) = 5"
  using elapsed_us_wraps [of 5 "- 2"] by simp

text \<open>
  The three clock readings agree: from one reading whose nanosecond value fits in 64
  bits (that is, for some 584 years of uptime), microseconds and milliseconds are the nanoseconds
  divided by 1000 and by 1000000, with no intermediate overflow.
\<close>

theorem timestamps_agree:
  assumes "duration ts < 2 ^ 64"
  shows "unat (get_timestamp_ns ts) = duration ts \<and> unat (get_timestamp_us ts) = duration ts div 1000
    \<and> unat (get_timestamp_ms ts) = duration ts div 1000000"
proof -
  let ?s = "unat (tv_sec ts)" and ?n = "unat (tv_nsec ts)"
  have b: "?s * 1000000000 + ?n < 2 ^ 64" using assms by (simp add: duration_def)
  have d: "unat (tv_nsec ts div 1000) = ?n div 1000" "unat (tv_nsec ts div 1000000) = ?n div 1000000"
    by (simp_all add: unat_div)
  have "?s * 1000000000 < 2 ^ 64" "?s * 1000000 + ?n div 1000 < 2 ^ 64" "?s * 1000 + ?n div 1000000 < 2 ^ 64"
    using b by linarith+
  moreover from this have "?s * 1000000 < 2 ^ 64" "?s * 1000 < 2 ^ 64" by linarith+
  ultimately have "unat (get_timestamp_ns ts) = ?s * 1000000000 + ?n"
    "unat (get_timestamp_us ts) = ?s * 1000000 + ?n div 1000"
    "unat (get_timestamp_ms ts) = ?s * 1000 + ?n div 1000000"
    using b d by (simp_all add: get_timestamp_ns_def get_timestamp_us_def get_timestamp_ms_def unat_word_ariths)
  moreover have "(?s * 1000000000 + ?n) div 1000 = ?s * 1000000 + ?n div 1000"
    "(?s * 1000000000 + ?n) div 1000000 = ?s * 1000 + ?n div 1000000"
    using div_mult_self3 [of 1000 "?s * 1000000" ?n] div_mult_self3 [of 1000000 "?s * 1000" ?n] by simp_all
  ultimately show ?thesis by (simp add: duration_def)
qed

theorem timestamps_agree_witness:
  "unat (get_timestamp_us \<lparr>tv_sec = 5, tv_nsec = 123456789\<rparr>) = 5123456"
  using timestamps_agree [of "\<lparr>tv_sec = 5, tv_nsec = 123456789\<rparr>"]
  by (simp add: duration_def)


text \<open>A sleep that is interrupted as long as signals are left; the world is (time, signals).\<close>

definition demo_nanosleep :: "nat \<times> nat \<Rightarrow> timespec \<Rightarrow> int \<times> bool \<times> timespec \<times> nat \<times> nat" where
  "demo_nanosleep w ts = (if 0 < snd w then (-1, True, ts, fst w, snd w - 1)
     else (0, False, ts, fst w + duration ts, 0))"


end
