(* ===== verification/Thread_Workers.thy ===== *)
theory Thread_Workers
  imports Thread_Manager Spsc_Refine Timestamp
begin

text \<open>
  The pipeline stages of \<^verbatim>\<open>src/thread/thread_workers.c\<close>: the ADC callback, the three
  worker functions and the pool of network blocks.

  Rings are reached through the heap, so a stage that runs after the buffers were freed has no
  defined result. Calls of \<^verbatim>\<open>sleep_us\<close> and \<^verbatim>\<open>sleep_ms\<close> only delay
  the thread and are left out. The stages run in separate threads but share nothing except the
  rings, whose concurrent use theory \<open>Spsc\<close> covers, so a worker call is one step here.
\<close>

section \<open>The ADC callback\<close>

record adc_callback_data_t =
  cb_buffer :: nat
  cb_stats :: bool \<comment> \<open>whether the statistics pointer is non-null\<close>

definition adc_sample_callback ::
  "adc_sample_t \<Rightarrow> adc_callback_data_t option \<Rightarrow> heap \<times> system_stats_t \<Rightarrow> (heap \<times> system_stats_t) option" where
  "adc_sample_callback sample cb s =
     (case (cb, s) of
        (None, _) \<Rightarrow> Some s
      | (Some d, (h, st)) \<Rightarrow>
          if cb_buffer d = 0 then Some s
          else do {
            r \<leftarrow> h_rings h (cb_buffer d);
            (ok, r) \<leftarrow> ring_buffer_push (Some r) (Some sample);
            r \<leftarrow> r;
            let h = h\<lparr>h_rings := (h_rings h)(cb_buffer d \<mapsto> r)\<rparr>;
            Some (h, if \<not> cb_stats d then st
                     else if ok then st\<lparr>total_samples := total_samples st + 1\<rparr>
                     else st\<lparr>dropped_samples := dropped_samples st + 1\<rparr>)
          })"

text \<open>The callback as the capture loop of the simulator calls it.\<close>

definition callback_fun ::
  "adc_callback_data_t \<Rightarrow> (heap \<times> system_stats_t) option \<Rightarrow> adc_sample_t \<Rightarrow> (heap \<times> system_stats_t) option" where
  "callback_fun d w s = w \<bind> adc_sample_callback s (Some d)"

section \<open>Capture\<close>

text \<open>
  \<open>ok1\<close> and \<open>ok2\<close> tell whether the thread creations of the two possible starts succeed,
  \<open>now1\<close> and \<open>now2\<close> are the clock readings there.
\<close>

definition capture_thread_worker ::
  "(nat \<Rightarrow> bool) \<Rightarrow> bool \<Rightarrow> bool \<Rightarrow> u64 \<Rightarrow> u64 \<Rightarrow> thread_manager \<times> heap \<Rightarrow> (thread_manager \<times> heap) option" where
  "capture_thread_worker alloc_ok ok1 ok2 now1 now2 s =
     (case s of (tm, h) \<Rightarrow>
        if tm_buffer_manager tm = 0 then Some (tm, h)
        else do {
          bm \<leftarrow> h_managers h (tm_buffer_manager tm);
          if capture_to_process bm = 0 then Some (tm, h)
          else do {
            (adc, h) \<leftarrow> (case thread_manager_get_adc (Some tm) of
                Some a \<Rightarrow> Some (Some a, h)
              | None \<Rightarrow> do {
                  config \<leftarrow> adc_config_get_default (Some zero_adc_config);
                  (adc, h) \<leftarrow> adc_simulator_create alloc_ok h (Some config);
                  (case adc of None \<Rightarrow> Some (None, h)
                   | Some a \<Rightarrow>
                       let (_, adc) = adc_simulator_set_callback (Some a)
                             (Some (callback_fun \<lparr>cb_buffer = capture_to_process bm, cb_stats = True\<rparr>));
                           (_, adc) = adc_simulator_start ok1 now1 adc
                       in Some (adc, h))
                });
            (case adc of None \<Rightarrow> Some (tm, h)
             | Some a \<Rightarrow>
                 let adc = (if \<not> adc_simulator_is_running adc then snd (adc_simulator_start ok2 now2 adc) else adc)
                 in map_option (\<lambda>tm. (tm, h)) (thread_manager_set_adc (Some tm) adc))
          }
        })"

section \<open>Processing\<close>

definition process_thread_worker :: "adc_sample_t list \<Rightarrow> thread_manager \<times> heap \<Rightarrow> (thread_manager \<times> heap) option" where
  "process_thread_worker samples s =
     (case s of (tm, h) \<Rightarrow>
        if tm_buffer_manager tm = 0 then Some (tm, h)
        else do {
          bm \<leftarrow> h_managers h (tm_buffer_manager tm);
          if capture_to_process bm = 0 \<or> process_to_network bm = 0 then Some (tm, h)
          else do {
            src \<leftarrow> h_rings h (capture_to_process bm);
            (ok, src, out, popped) \<leftarrow> ring_buffer_pop_batch (Some src) (Some samples) 256 (Some 0);
            src \<leftarrow> src;
            popped \<leftarrow> popped;
            let h = h\<lparr>h_rings := (h_rings h)(capture_to_process bm \<mapsto> src)\<rparr>;
            if ok
            then do {
              dst \<leftarrow> h_rings h (process_to_network bm);
              (_, dst, pushed) \<leftarrow> ring_buffer_push_batch (Some dst) out popped (Some 0);
              dst \<leftarrow> dst;
              pushed \<leftarrow> pushed;
              let h = h\<lparr>h_rings := (h_rings h)(process_to_network bm \<mapsto> dst)\<rparr>;
              Some (if pushed < popped
                    then tm\<lparr>tm_stats := (tm_stats tm)\<lparr>dropped_samples :=
                           dropped_samples (tm_stats tm) + ucast (popped - pushed)\<rparr>\<rparr>
                    else tm, h)
            }
            else Some (tm, h)
          }
        })"

section \<open>Network\<close>

definition BLOCK_POOL_SIZE :: nat where "BLOCK_POOL_SIZE = 16"

text \<open>
  The static pool: each slot is null or an allocated block of the maximum size, whose sample array
  has room for \<open>SAMPLES_PER_BLOCK\<close> samples.
\<close>

record block_pool =
  g_block_pool :: "data_block_t option list"
  g_block_pool_ready :: bool
  pool_index :: u32

definition init_block_pool :: "(nat \<Rightarrow> data_block_t option) \<Rightarrow> block_pool \<Rightarrow> block_pool" where
  "init_block_pool malloc_block p =
     (if g_block_pool_ready p then p
      else p\<lparr>g_block_pool := map malloc_block [0..<BLOCK_POOL_SIZE], g_block_pool_ready := True\<rparr>)"

text \<open>The index of the block handed out, and the pool after the call.\<close>

definition get_block_from_pool :: "(nat \<Rightarrow> data_block_t option) \<Rightarrow> block_pool \<Rightarrow> nat \<times> block_pool" where
  "get_block_from_pool malloc_block p =
     (let p = (if \<not> g_block_pool_ready p then init_block_pool malloc_block p else p);
          idx = unat (pool_index p mod word_of_nat BLOCK_POOL_SIZE)
      in (idx, p\<lparr>pool_index := pool_index p + 1\<rparr>))"

definition fill_block :: "data_block_t \<Rightarrow> u32 \<Rightarrow> u64 \<Rightarrow> adc_sample_t list \<Rightarrow> data_block_t option" where
  "fill_block block popped now samples = do {
     src \<leftarrow> mem_read samples 0 (unat popped);
     dst \<leftarrow> mem_write (b_samples block) 0 src;
     Some (block\<lparr>b_magic := DATA_BLOCK_MAGIC, b_version := DATA_BLOCK_VERSION, b_sequence := 0,
            b_sample_count := popped, b_timestamp := now, b_samples := dst\<rparr>)
   }"

definition count_send :: "system_stats_t \<Rightarrow> adc_error_t \<Rightarrow> u32 \<Rightarrow> system_stats_t" where
  "count_send st err popped =
     (if err = ADC_OK
      then st\<lparr>sent_bytes := sent_bytes st + (word_of_nat sizeof_data_block + ucast popped * word_of_nat sizeof_adc_sample)\<rparr>
      else st\<lparr>send_errors := send_errors st + 1\<rparr>)"

text \<open>The part of the network worker after a connection exists.\<close>

definition send_samples ::
  "'n socket_api \<Rightarrow> (nat \<Rightarrow> data_block_t option) \<Rightarrow> adc_sample_t list \<Rightarrow> u64 \<Rightarrow> nat
     \<Rightarrow> thread_manager \<times> heap \<times> block_pool \<times> 'n \<Rightarrow> (thread_manager \<times> heap \<times> block_pool \<times> 'n) option" where
  "send_samples api malloc_block samples now ring_addr s =
     (case s of (tm, h, pool, n) \<Rightarrow> do {
        r \<leftarrow> h_rings h ring_addr;
        (ok, r, out, popped) \<leftarrow> ring_buffer_pop_batch (Some r) (Some samples) SAMPLES_PER_BLOCK (Some 0);
        r \<leftarrow> r;
        out \<leftarrow> out;
        popped \<leftarrow> popped;
        let h = h\<lparr>h_rings := (h_rings h)(ring_addr \<mapsto> r)\<rparr>;
        if ok \<and> popped > 0
        then do {
          let (idx, pool) = get_block_from_pool malloc_block pool;
          (case g_block_pool pool ! idx of
             None \<Rightarrow> Some (tm, h, pool, n)
           | Some block \<Rightarrow> do {
               block \<leftarrow> fill_block block popped now out;
               let pool = pool\<lparr>g_block_pool := (g_block_pool pool)[idx := Some block]\<rparr>;
               (err, client, n) \<leftarrow> tcp_client_send_data_block api (tm_tcp_client tm) (Some block) n;
               Some (tm\<lparr>tm_tcp_client := client, tm_stats := count_send (tm_stats tm) err popped\<rparr>, h, pool, n)
             })
        }
        else Some (tm, h, pool, n)
      })"

definition network_thread_worker ::
  "'n socket_api \<Rightarrow> (nat \<Rightarrow> bool) \<Rightarrow> (nat \<Rightarrow> data_block_t option) \<Rightarrow> adc_sample_t list \<Rightarrow> u64
     \<Rightarrow> thread_manager \<times> heap \<times> block_pool \<times> 'n \<Rightarrow> (thread_manager \<times> heap \<times> block_pool \<times> 'n) option" where
  "network_thread_worker api alloc_ok malloc_block samples now s =
     (case s of (tm, h, pool, n) \<Rightarrow>
        if tm_buffer_manager tm = 0 then Some s
        else do {
          bm \<leftarrow> h_managers h (tm_buffer_manager tm);
          if process_to_network bm = 0 then Some s
          else do {
            (client, h) \<leftarrow> (case thread_manager_get_tcp_client (Some tm) of
                Some c \<Rightarrow> Some (Some c, h)
              | None \<Rightarrow> do {
                  config \<leftarrow> tcp_config_get_default (Some zero_config);
                  tcp_client_create alloc_ok h (Some config)
                });
            tm \<leftarrow> thread_manager_set_tcp_client (Some tm) client;
            (case client of None \<Rightarrow> Some (tm, h, pool, n)
             | Some c \<Rightarrow>
                 if tcp_client_is_connected client
                 then send_samples api malloc_block samples now (process_to_network bm) (tm, h, pool, n)
                 else (case tcp_client_connect api client n of (err, client, n) \<Rightarrow>
                         let tm = tm\<lparr>tm_tcp_client := client\<rparr> in
                         if err \<noteq> ADC_OK then Some (tm, h, pool, n)
                         else send_samples api malloc_block samples now (process_to_network bm) (tm, h, pool, n)))
          }
        })"

section \<open>What each stage does to the rings\<close>

text \<open>No operation on a ring changes its data pointer.\<close>

lemma ring_ops_block:
  "ring_buffer_push (Some r) p = Some (ok, Some r') \<Longrightarrow> rb_block r' = rb_block r"
  "ring_buffer_pop_batch (Some r) out n q = Some (ok, Some r', out', q') \<Longrightarrow> rb_block r' = rb_block r"
  "ring_buffer_push_batch (Some r) out n q = Some (ok, Some r', q') \<Longrightarrow> rb_block r' = rb_block r"
  by (auto simp: ring_buffer_push_def ring_buffer_pop_batch_def ring_buffer_push_batch_def Let_def bind_eq_Some_conv
      split: option.splits if_splits)

lemma adc_sample_callback_law:
  assumes "h_rings h a = Some r" "rb_wf r" "0 < a"
  shows "\<exists>r'. adc_sample_callback s (Some \<lparr>cb_buffer = a, cb_stats = True\<rparr>) (h, st)
      = Some (h\<lparr>h_rings := (h_rings h)(a \<mapsto> r')\<rparr>,
              if length (rb_contents r) < rb_bound r then st\<lparr>total_samples := total_samples st + 1\<rparr>
              else st\<lparr>dropped_samples := dropped_samples st + 1\<rparr>)
    \<and> rb_wf r' \<and> rb_bound r' = rb_bound r
    \<and> rb_contents r' = rb_contents r @ (if length (rb_contents r) < rb_bound r then [s] else [])"
  using rbq.push_law [OF assms(2), of s] assms(1,3)
  by (auto simp: adc_sample_callback_def Let_def)

lemma process_thread_worker_law:
  assumes bm: "0 < tm_buffer_manager tm" "h_managers h (tm_buffer_manager tm) = Some m"
    and ptr: "0 < capture_to_process m" "0 < process_to_network m" "capture_to_process m \<noteq> process_to_network m"
    and src: "h_rings h (capture_to_process m) = Some src" "rb_wf src"
    and dst: "h_rings h (process_to_network m) = Some dst" "rb_wf dst"
    and len: "length samples = 256"
    and k: "q = min 256 (length (rb_contents src))" "k = min q (rb_bound dst - length (rb_contents dst))"
  shows "\<exists>src' dst'. process_thread_worker samples (tm, h) =
      Some (if k < q then tm\<lparr>tm_stats := (tm_stats tm)\<lparr>dropped_samples :=
                 dropped_samples (tm_stats tm) + word_of_nat (q - k)\<rparr>\<rparr> else tm,
            h\<lparr>h_rings := (h_rings h)(capture_to_process m \<mapsto> src', process_to_network m \<mapsto> dst')\<rparr>)
    \<and> rb_wf src' \<and> rb_wf dst' \<and> rb_bound src' = rb_bound src \<and> rb_bound dst' = rb_bound dst
    \<and> rb_contents src' = drop q (rb_contents src)
    \<and> rb_contents dst' = rb_contents dst @ take k (rb_contents src)
    \<and> rb_block src' = rb_block src \<and> rb_block dst' = rb_block dst"
proof -
  have "q \<le> 256" unfolding k(1) by (rule min.cobounded1)
  moreover have "k \<le> q" unfolding k(2) by (rule min.cobounded1)
  ultimately have q: "unat (word_of_nat q :: u32) = q" "unat (word_of_nat k :: u32) = k" "k \<le> q"
    by (simp_all add: unat_of_nat)
  have lt: "(word_of_nat k :: u32) < word_of_nat q \<longleftrightarrow> k < q" using q by (simp add: word_less_nat_alt)
  have sub: "(ucast (word_of_nat q - word_of_nat k :: u32) :: u64) = word_of_nat (q - k)"
  proof -
    have "unat (word_of_nat q - word_of_nat k :: u32) = q - k" using q by (simp add: unat_sub word_le_nat_alt)
    then show ?thesis by (simp add: ucast_unat)
  qed
  obtain src' ys dst' where t: "ring_buffer_pop_batch (Some src) (Some samples) 256 (Some 0)
        = Some (0 < q, Some src', Some ys, Some (word_of_nat q))"
    "ring_buffer_push_batch (Some dst) (Some ys) (word_of_nat q) (Some 0)
        = Some (0 < q \<and> k = q, Some dst', Some (word_of_nat k))"
    "rb_wf src'" "rb_wf dst'" "rb_bound src' = rb_bound src" "rb_bound dst' = rb_bound dst"
    "rb_contents src' = drop q (rb_contents src)" "rb_contents dst' = rb_contents dst @ take k (rb_contents src)"
    using rbq.transfer_law [OF src(2) dst(2), of 256 samples q k 0 0] len k by auto
  show ?thesis
  proof (cases "q = 0")
    case True
    have "(h_rings h)(capture_to_process m \<mapsto> src', process_to_network m \<mapsto> dst) = (h_rings h)(capture_to_process m \<mapsto> src')"
      using dst(1) ptr(3) by auto
    then show ?thesis using True bm ptr src dst t k ring_ops_block(2) [OF t(1)]
      by (intro exI [of _ src'] exI [of _ dst]) (simp add: process_thread_worker_def Let_def)
  next
    case False
    then show ?thesis using bm ptr src dst t lt sub ring_ops_block(2) [OF t(1)] ring_ops_block(3) [OF t(2)]
      by (intro exI [of _ src'] exI [of _ dst']) (simp add: process_thread_worker_def Let_def)
  qed
qed

text \<open>A run of callbacks fills the ring as far as it goes and counts every sample on one side.\<close>

lemma callback_fold:
  assumes "h_rings h a = Some r" "rb_wf r" "0 < a"
    and "k = min (length ss) (rb_bound r - length (rb_contents r))"
  shows "\<exists>r'. foldl (callback_fun \<lparr>cb_buffer = a, cb_stats = True\<rparr>) (Some (h, st)) ss
      = Some (h\<lparr>h_rings := (h_rings h)(a \<mapsto> r')\<rparr>,
              st\<lparr>total_samples := total_samples st + word_of_nat k,
                 dropped_samples := dropped_samples st + word_of_nat (length ss - k)\<rparr>)
    \<and> rb_wf r' \<and> rb_bound r' = rb_bound r \<and> rb_contents r' = rb_contents r @ take k ss"
  using assms
proof (induction ss arbitrary: h st r k)
  case Nil
  then have "(h_rings h)(a \<mapsto> r) = h_rings h" by auto
  with Nil show ?case by (intro exI [of _ r]) simp
next
  case (Cons x ss)
  let ?room = "length (rb_contents r) < rb_bound r"
  let ?st = "if ?room then st\<lparr>total_samples := total_samples st + 1\<rparr>
             else st\<lparr>dropped_samples := dropped_samples st + 1\<rparr>"
  obtain r1 where r1: "adc_sample_callback x (Some \<lparr>cb_buffer = a, cb_stats = True\<rparr>) (h, st)
      = Some (h\<lparr>h_rings := (h_rings h)(a \<mapsto> r1)\<rparr>, ?st)"
    "rb_wf r1" "rb_bound r1 = rb_bound r" "rb_contents r1 = rb_contents r @ (if ?room then [x] else [])"
    using adc_sample_callback_law [OF Cons.prems(1-3), of x st] by blast
  let ?h = "h\<lparr>h_rings := (h_rings h)(a \<mapsto> r1)\<rparr>"
  define j where "j = min (length ss) (rb_bound r1 - length (rb_contents r1))"
  have k: "k = (if ?room then Suc j else j)" "?room \<or> j = 0"
    using Cons.prems(4) r1(3,4) by (auto simp: j_def simp del: length_rb_contents)
  have step: "callback_fun \<lparr>cb_buffer = a, cb_stats = True\<rparr> (Some (h, st)) x = Some (?h, ?st)"
    using r1(1) by (simp add: callback_fun_def)
  have "h_rings ?h a = Some r1" by simp
  from Cons.IH [OF this r1(2) Cons.prems(3) j_def, of ?st] obtain r2 where
    "foldl (callback_fun \<lparr>cb_buffer = a, cb_stats = True\<rparr>) (Some (?h, ?st)) ss
      = Some (?h\<lparr>h_rings := (h_rings ?h)(a \<mapsto> r2)\<rparr>,
              ?st\<lparr>total_samples := total_samples ?st + word_of_nat j,
                 dropped_samples := dropped_samples ?st + word_of_nat (length ss - j)\<rparr>)"
    "rb_wf r2" "rb_bound r2 = rb_bound r1" "rb_contents r2 = rb_contents r1 @ take j ss" by blast
  with step k r1(3,4) show ?case
    by (intro exI [of _ r2]) (cases ?room; simp add: add.assoc del: length_rb_contents fun_upd_apply)
qed

end
