(* ===== verification/Pipeline.thy ===== *)
theory Pipeline
  imports Thread_Workers "HOL-Library.Sublist"
begin

text \<open>
  The acquisition pipeline as a whole: the ADC callback, the processing worker and the network
  worker of \<^verbatim>\<open>src/thread/thread_workers.c\<close> run in any order on the two rings of one
  buffer manager, and the samples come out on the connection.
\<close>

section \<open>Steps and runs\<close>

text \<open>
  One step is one call: the callback on a new sample, or one round of a worker. A worker step
  carries the contents its uninitialised sample array happens to have, the network worker also the
  time it reads.
\<close>

datatype pipe_step =
    Sample adc_sample_t
  | Process "adc_sample_t list"
  | Network "adc_sample_t list" u64

fun step_ok :: "pipe_step \<Rightarrow> bool" where
  "step_ok (Sample s) = True"
| "step_ok (Process xs) = (length xs = 256)"
| "step_ok (Network xs now) = (length xs = unat SAMPLES_PER_BLOCK)"

fun pipe_offered :: "pipe_step list \<Rightarrow> adc_sample_t list" where
  "pipe_offered [] = []"
| "pipe_offered (Sample s # steps) = s # pipe_offered steps"
| "pipe_offered (_ # steps) = pipe_offered steps"

type_synonym 'n pipe_state = "thread_manager \<times> heap \<times> block_pool \<times> 'n"

fun pipe_exec ::
  "'n socket_api \<Rightarrow> (nat \<Rightarrow> bool) \<Rightarrow> (nat \<Rightarrow> data_block_t option) \<Rightarrow> buffer_manager_t \<Rightarrow> pipe_step
     \<Rightarrow> 'n pipe_state \<Rightarrow> 'n pipe_state option" where
  "pipe_exec api alloc_ok malloc_block m (Sample s) (tm, h, pool, n) = do {
     (h, st) \<leftarrow> adc_sample_callback s (Some \<lparr>cb_buffer = capture_to_process m, cb_stats = True\<rparr>) (h, tm_stats tm);
     Some (tm\<lparr>tm_stats := st\<rparr>, h, pool, n)
   }"
| "pipe_exec api alloc_ok malloc_block m (Process xs) (tm, h, pool, n) = do {
     (tm, h) \<leftarrow> process_thread_worker xs (tm, h);
     Some (tm, h, pool, n)
   }"
| "pipe_exec api alloc_ok malloc_block m (Network xs now) s =
     network_thread_worker api alloc_ok malloc_block xs now s"

fun pipe_run ::
  "'n socket_api \<Rightarrow> (nat \<Rightarrow> bool) \<Rightarrow> (nat \<Rightarrow> data_block_t option) \<Rightarrow> buffer_manager_t \<Rightarrow> pipe_step list
     \<Rightarrow> 'n pipe_state \<Rightarrow> 'n pipe_state option" where
  "pipe_run api alloc_ok malloc_block m [] s = Some s"
| "pipe_run api alloc_ok malloc_block m (step # steps) s =
     pipe_exec api alloc_ok malloc_block m step s \<bind> pipe_run api alloc_ok malloc_block m steps"

section \<open>The block pool\<close>

definition block_room :: "data_block_t option \<Rightarrow> bool" where
  "block_room b = (case b of None \<Rightarrow> False | Some b \<Rightarrow> length (b_samples b) = unat SAMPLES_PER_BLOCK)"

definition pool_wf :: "block_pool \<Rightarrow> bool" where
  "pool_wf p \<longleftrightarrow> length (g_block_pool p) = BLOCK_POOL_SIZE
     \<and> (g_block_pool_ready p \<longrightarrow> list_all block_room (g_block_pool p))"

lemma get_block_law:
  assumes "pool_wf p" "\<And>i. block_room (malloc_block i)"
  obtains idx p' b where "get_block_from_pool malloc_block p = (idx, p')" "idx < BLOCK_POOL_SIZE"
    "g_block_pool p' ! idx = Some b" "length (b_samples b) = unat SAMPLES_PER_BLOCK" "pool_wf p'"
    "g_block_pool_ready p'"
proof -
  obtain idx p' where g: "get_block_from_pool malloc_block p = (idx, p')" by (metis surj_pair)
  have "unat (x mod 16) < 16" for x :: u32 by (simp add: unat_mod)
  then have i: "idx < BLOCK_POOL_SIZE"
    using g by (auto simp: get_block_from_pool_def BLOCK_POOL_SIZE_def Let_def)
  have p': "pool_wf p'" "g_block_pool_ready p'"
    using g assms by (auto simp: get_block_from_pool_def init_block_pool_def pool_wf_def list_all_iff
        Let_def split: if_splits)
  then have "block_room (g_block_pool p' ! idx)" using i by (simp add: pool_wf_def list_all_length)
  then show ?thesis using that [OF g i _ _ p'] by (auto simp: block_room_def split: option.splits)
qed

lemma pool_wf_update:
  assumes "pool_wf p" "length (b_samples b) = unat SAMPLES_PER_BLOCK"
  shows "pool_wf (p\<lparr>g_block_pool := (g_block_pool p)[i := Some b]\<rparr>)"
  using assms set_update_subset_insert [of "g_block_pool p" i "Some b"]
  by (auto simp: pool_wf_def list_all_iff block_room_def)

section \<open>One round of the network worker\<close>

definition new_block :: "u64 \<Rightarrow> adc_sample_t list \<Rightarrow> data_block_t" where
  "new_block now xs = \<lparr>b_magic = DATA_BLOCK_MAGIC, b_version = DATA_BLOCK_VERSION, b_sequence = 0,
     b_sample_count = word_of_nat (length xs), b_timestamp = now, b_samples = xs\<rparr>"

lemma send_samples_block:
  assumes r: "h_rings h a = Some r" "rb_wf r" and pool: "pool_wf pool" "\<And>i. block_room (malloc_block i)"
    and len: "length samples = unat SAMPLES_PER_BLOCK"
    and q: "q = min (unat SAMPLES_PER_BLOCK) (length (rb_contents r))"
  obtains r' where "rb_wf r'" "rb_bound r' = rb_bound r" "rb_contents r' = drop q (rb_contents r)"
    "q = 0 \<Longrightarrow> send_samples api malloc_block samples now a (tm, h, pool, n)
        = Some (tm, h\<lparr>h_rings := (h_rings h)(a \<mapsto> r')\<rparr>, pool, n)"
    "0 < q \<Longrightarrow> \<exists>b pool'. pool_wf pool' \<and> sent_block b = new_block now (take q (rb_contents r))
      \<and> unat (b_sample_count b) = q \<and> q \<le> length (b_samples b)
      \<and> send_samples api malloc_block samples now a (tm, h, pool, n) = do {
          (err, client, n) \<leftarrow> tcp_client_send_data_block api (tm_tcp_client tm) (Some b) n;
          Some (tm\<lparr>tm_tcp_client := client, tm_stats := count_send (tm_stats tm) err (word_of_nat q)\<rparr>,
                h\<lparr>h_rings := (h_rings h)(a \<mapsto> r')\<rparr>, pool', n)
        }"
proof -
  let ?xs = "take q (rb_contents r)" and ?out = "take q (rb_contents r) @ drop q samples"
  have ql: "q \<le> length samples" "q \<le> 256" "length ?xs = q"
    using q len by (auto simp: SAMPLES_PER_BLOCK_def)
  obtain r' where r': "ring_buffer_pop_batch (Some r) (Some samples) SAMPLES_PER_BLOCK (Some 0)
      = Some (0 < q, Some r', Some ?out, Some (word_of_nat q))"
    "rb_wf r'" "rb_bound r' = rb_bound r" "rb_contents r' = drop q (rb_contents r)"
    using rbq.pop_batch_law [OF r(2) q ql(1), of "Some 0"] by auto
  have uq: "unat (word_of_nat q :: u32) = q" using ql(2) by (simp add: unat_of_nat)
  show ?thesis
  proof (rule that [OF r'(2-4)])
    show "send_samples api malloc_block samples now a (tm, h, pool, n)
        = Some (tm, h\<lparr>h_rings := (h_rings h)(a \<mapsto> r')\<rparr>, pool, n)" if "q = 0"
      using r r'(1) that by (simp add: send_samples_def Let_def)
  next
    assume q0: "0 < q"
    obtain i p1 b where g: "get_block_from_pool malloc_block pool = (i, p1)"
      "g_block_pool p1 ! i = Some b" "length (b_samples b) = unat SAMPLES_PER_BLOCK" "pool_wf p1"
      by (rule get_block_law [OF pool]) 
    let ?b = "(new_block now ?xs)\<lparr>b_samples := ?xs @ drop q (b_samples b)\<rparr>"
    have "fill_block b (word_of_nat q) now ?out = Some ?b"
      using ql g(3) len uq by (simp add: fill_block_def mem_read_in mem_write_in new_block_def)
    moreover have "(0 :: u32) < word_of_nat q" using uq q0 by (metis unat_0 word_gt_0 less_irrefl)
    ultimately have "send_samples api malloc_block samples now a (tm, h, pool, n) = do {
          (err, client, n) \<leftarrow> tcp_client_send_data_block api (tm_tcp_client tm) (Some ?b) n;
          Some (tm\<lparr>tm_tcp_client := client, tm_stats := count_send (tm_stats tm) err (word_of_nat q)\<rparr>,
                h\<lparr>h_rings := (h_rings h)(a \<mapsto> r')\<rparr>,
                p1\<lparr>g_block_pool := (g_block_pool p1)[i := Some ?b]\<rparr>, n)
        }"
      using r r'(1) g q0 by (simp add: send_samples_def Let_def)
    moreover have "length (b_samples ?b) = unat SAMPLES_PER_BLOCK" using ql len g(3) by simp
    ultimately show "\<exists>b pool'. pool_wf pool' \<and> sent_block b = new_block now ?xs
      \<and> unat (b_sample_count b) = q \<and> q \<le> length (b_samples b)
      \<and> send_samples api malloc_block samples now a (tm, h, pool, n) = do {
          (err, client, n) \<leftarrow> tcp_client_send_data_block api (tm_tcp_client tm) (Some b) n;
          Some (tm\<lparr>tm_tcp_client := client, tm_stats := count_send (tm_stats tm) err (word_of_nat q)\<rparr>,
                h\<lparr>h_rings := (h_rings h)(a \<mapsto> r')\<rparr>, pool', n)
        }"
      using pool_wf_update [OF g(4)] uq ql
      by (intro exI [of _ ?b] exI [of _ "p1\<lparr>g_block_pool := (g_block_pool p1)[i := Some ?b]\<rparr>"])
        (simp add: sent_block_def new_block_def)
  qed
qed

section \<open>Flow of samples\<close>

definition capture_queue :: "buffer_manager_t \<Rightarrow> heap \<Rightarrow> adc_sample_t list" where
  "capture_queue m h = (case h_rings h (capture_to_process m) of None \<Rightarrow> [] | Some r \<Rightarrow> rb_contents r)"

definition network_queue :: "buffer_manager_t \<Rightarrow> heap \<Rightarrow> adc_sample_t list" where
  "network_queue m h = (case h_rings h (process_to_network m) of None \<Rightarrow> [] | Some r \<Rightarrow> rb_contents r)"

text \<open>The samples still on their way, oldest first.\<close>

definition in_flight :: "buffer_manager_t \<Rightarrow> heap \<Rightarrow> adc_sample_t list" where
  "in_flight m h = network_queue m h @ capture_queue m h"

definition block_valid :: "data_block_t \<Rightarrow> bool" where
  "block_valid b \<longleftrightarrow> b_magic b = DATA_BLOCK_MAGIC \<and> b_version b = DATA_BLOCK_VERSION
     \<and> unat (b_sample_count b) = length (b_samples b) \<and> b_samples b \<noteq> []
     \<and> length (b_samples b) \<le> unat SAMPLES_PER_BLOCK"

fun pipe_ready :: "tcp_client \<Rightarrow> buffer_manager_t \<Rightarrow> 'n pipe_state \<Rightarrow> bool" where
  "pipe_ready c m (tm, h, pool, n) \<longleftrightarrow>
     0 < tm_buffer_manager tm \<and> h_managers h (tm_buffer_manager tm) = Some m
     \<and> 0 < capture_to_process m \<and> 0 < process_to_network m \<and> capture_to_process m \<noteq> process_to_network m
     \<and> (\<exists>r. h_rings h (capture_to_process m) = Some r \<and> rb_wf r)
     \<and> (\<exists>r. h_rings h (process_to_network m) = Some r \<and> rb_wf r)
     \<and> tm_tcp_client tm = Some c \<and> connected c \<and> pool_wf pool"

text \<open>
  \<open>flow\<close> relates the states before and after some steps that pipe_offered the samples
  \<open>xs\<close>: \<open>bs\<close> are the blocks sent meanwhile.
\<close>

fun flow ::
  "('n \<Rightarrow> int \<Rightarrow> u8 list) \<Rightarrow> int \<Rightarrow> buffer_manager_t \<Rightarrow> adc_sample_t list \<Rightarrow> data_block_t list
     \<Rightarrow> 'n pipe_state \<Rightarrow> 'n pipe_state \<Rightarrow> bool" where
  "flow wire fd m xs bs (tm, h, pool, n) (tm', h', pool', n') \<longleftrightarrow>
     wire n' fd = wire n fd @ concat (map block_bytes bs) \<and> list_all block_valid bs
     \<and> subseq (concat (map b_samples bs) @ in_flight m h') (in_flight m h @ xs)
     \<and> dropped_samples (tm_stats tm') = dropped_samples (tm_stats tm)
         + word_of_nat (length (in_flight m h @ xs) - length (concat (map b_samples bs) @ in_flight m h'))
     \<and> sent_bytes (tm_stats tm') = sent_bytes (tm_stats tm) + word_of_nat (length (concat (map block_bytes bs)))
     \<and> send_errors (tm_stats tm') = send_errors (tm_stats tm)"

lemma flow_refl: "flow wire fd m [] [] s s"
  by (cases s) simp

lemma flow_trans:
  assumes "flow wire fd m xs bs s1 s2" "flow wire fd m ys cs s2 s3"
  shows "flow wire fd m (xs @ ys) (bs @ cs) s1 s3"
proof -
  obtain tm1 h1 p1 n1 tm2 h2 p2 n2 tm3 h3 p3 n3 where
    s: "s1 = (tm1, h1, p1, n1)" "s2 = (tm2, h2, p2, n2)" "s3 = (tm3, h3, p3, n3)" by (metis prod_cases4)
  let ?B = "concat (map b_samples bs)" and ?C = "concat (map b_samples cs)"
  let ?f1 = "in_flight m h1" and ?f2 = "in_flight m h2" and ?f3 = "in_flight m h3"
  have a: "subseq (?B @ ?f2) (?f1 @ xs)" and b: "subseq (?C @ ?f3) (?f2 @ ys)" using assms s by simp_all
  have "subseq (?B @ ?C @ ?f3) (?B @ ?f2 @ ys)" using b by (rule list_emb_append_mono [OF subseq_order.refl])
  also have "subseq (?B @ ?f2 @ ys) (?f1 @ xs @ ys)"
    using list_emb_append_mono [OF a subseq_order.refl [of ys]] by simp
  finally have sub: "subseq (?B @ ?C @ ?f3) (?f1 @ xs @ ys)" .
  have "(length (?f1 @ xs) - length (?B @ ?f2)) + (length (?f2 @ ys) - length (?C @ ?f3))
      = length (?f1 @ xs @ ys) - length (?B @ ?C @ ?f3)"
    using list_emb_length [OF a] list_emb_length [OF b] by simp
  then have "word_of_nat (length (?f1 @ xs) - length (?B @ ?f2)) + word_of_nat (length (?f2 @ ys) - length (?C @ ?f3))
      = (word_of_nat (length (?f1 @ xs @ ys) - length (?B @ ?C @ ?f3)) :: u64)"
    by (metis of_nat_add)
  then show ?thesis using assms sub unfolding s by (simp add: add.assoc)
qed

lemma subseq_take_drop: "k \<le> q \<Longrightarrow> subseq (take k xs @ drop q xs) xs"
proof -
  assume "k \<le> q"
  then have "suffix (drop q xs) (drop k xs)" by (metis drop_drop le_add_diff_inverse2 suffix_drop)
  then have "subseq (take k xs @ drop q xs) (take k xs @ drop k xs)"
    by (intro list_emb_append_mono) (simp_all add: suffix_imp_subseq)
  then show ?thesis by simp
qed

lemma step_offer: "pipe_offered (x # steps) = pipe_offered [x] @ pipe_offered steps"
  by (cases x) simp_all

section \<open>Each step keeps the flow\<close>

lemma sample_step:
  assumes "pipe_ready c m s"
  shows "\<exists>s'. pipe_exec api alloc_ok malloc_block m (Sample x) s = Some s' \<and> pipe_ready c m s'
    \<and> flow wire fd m [x] [] s s'"
proof -
  obtain tm h pool n where s: "s = (tm, h, pool, n)" by (metis prod_cases4)
  let ?a = "capture_to_process m" and ?b = "process_to_network m"
  obtain r1 r2 where r: "h_rings h ?a = Some r1" "rb_wf r1" "h_rings h ?b = Some r2" "?a \<noteq> ?b" "0 < ?a"
    using assms s by auto
  obtain r' where r': "adc_sample_callback x (Some \<lparr>cb_buffer = ?a, cb_stats = True\<rparr>) (h, tm_stats tm)
      = Some (h\<lparr>h_rings := (h_rings h)(?a \<mapsto> r')\<rparr>,
              if length (rb_contents r1) < rb_bound r1
              then (tm_stats tm)\<lparr>total_samples := total_samples (tm_stats tm) + 1\<rparr>
              else (tm_stats tm)\<lparr>dropped_samples := dropped_samples (tm_stats tm) + 1\<rparr>)"
    "rb_wf r'" "rb_contents r' = rb_contents r1 @ (if length (rb_contents r1) < rb_bound r1 then [x] else [])"
    using adc_sample_callback_law [OF r(1,2,5), of x "tm_stats tm"] by blast
  show ?thesis
    using assms r r' unfolding s
    by (auto simp: in_flight_def capture_queue_def network_queue_def)
qed

lemma process_step:
  assumes "pipe_ready c m s" "length xs = 256"
  shows "\<exists>s'. pipe_exec api alloc_ok malloc_block m (Process xs) s = Some s' \<and> pipe_ready c m s'
    \<and> flow wire fd m [] [] s s'"
proof -
  obtain tm h pool n where s: "s = (tm, h, pool, n)" by (metis prod_cases4)
  let ?a = "capture_to_process m" and ?b = "process_to_network m"
  obtain r1 r2 where r: "0 < tm_buffer_manager tm" "h_managers h (tm_buffer_manager tm) = Some m"
    "0 < ?a" "0 < ?b" "?a \<noteq> ?b" "h_rings h ?a = Some r1" "rb_wf r1" "h_rings h ?b = Some r2" "rb_wf r2"
    using assms s by auto
  define q where "q = min 256 (length (rb_contents r1))"
  define k where "k = min q (rb_bound r2 - length (rb_contents r2))"
  have kq: "k \<le> q" "q \<le> length (rb_contents r1)"
    unfolding k_def by (rule min.cobounded1) (unfold q_def, rule min.cobounded2)
  obtain r1' r2' where w: "process_thread_worker xs (tm, h) =
      Some (if k < q then tm\<lparr>tm_stats := (tm_stats tm)\<lparr>dropped_samples :=
                 dropped_samples (tm_stats tm) + word_of_nat (q - k)\<rparr>\<rparr> else tm,
            h\<lparr>h_rings := (h_rings h)(?a \<mapsto> r1', ?b \<mapsto> r2')\<rparr>)"
    "rb_wf r1'" "rb_wf r2'" "rb_contents r1' = drop q (rb_contents r1)"
    "rb_contents r2' = rb_contents r2 @ take k (rb_contents r1)"
    using process_thread_worker_law [OF r assms(2) q_def k_def] by blast
  have "subseq (rb_contents r2 @ take k (rb_contents r1) @ drop q (rb_contents r1)) (rb_contents r2 @ rb_contents r1)"
    by (intro list_emb_append_mono subseq_take_drop kq) simp
  moreover have "length (rb_contents r1) - (k + (length (rb_contents r1) - q)) = q - k" using kq by simp
  ultimately show ?thesis
    using assms r w kq unfolding s
    by (auto simp: in_flight_def capture_queue_def network_queue_def)
qed

lemma block_valid_new:
  assumes "xs \<noteq> []" "length xs \<le> unat SAMPLES_PER_BLOCK"
  shows "block_valid (new_block now xs)" "b_samples (new_block now xs) = xs"
  using assms by (simp_all add: block_valid_def new_block_def SAMPLES_PER_BLOCK_def unat_of_nat)

lemma network_connected:
  assumes "pipe_ready c m s"
  shows "network_thread_worker api alloc_ok malloc_block xs now s
    = send_samples api malloc_block xs now (process_to_network m) s"
proof -
  obtain tm h pool n where s: "s = (tm, h, pool, n)" by (metis prod_cases4)
  have "tm_tcp_client tm = Some c" using assms s by simp
  then have "tm\<lparr>tm_tcp_client := Some c\<rparr> = tm" by (cases tm) simp
  moreover have "network_thread_worker api alloc_ok malloc_block xs now s
      = send_samples api malloc_block xs now (process_to_network m) (tm\<lparr>tm_tcp_client := Some c\<rparr>, h, pool, n)"
    using assms by (auto simp: s network_thread_worker_def tcp_client_is_connected_def thread_manager_get_tcp_client_def
        thread_manager_set_tcp_client_def)
  ultimately show ?thesis by (simp only: s)
qed

lemma block_room_spb: "unat SAMPLES_PER_BLOCK = 256"
  by (simp add: SAMPLES_PER_BLOCK_def)

text \<open>One round with \<open>q > 0\<close> samples waiting, over any link.\<close>

lemma network_round:
  assumes ready: "pipe_ready c m (tm, h, pool, n)" and len: "length xs = unat SAMPLES_PER_BLOCK"
    and send: "posix_send api wire" and room: "\<And>i. block_room (malloc_block i)"
    and r: "h_rings h (process_to_network m) = Some r"
    and q: "q = min (unat SAMPLES_PER_BLOCK) (length (rb_contents r))" "0 < q"
  obtains r' pool' err c' n' where "rb_wf r'" "rb_contents r' = drop q (rb_contents r)" "pool_wf pool'"
    "network_thread_worker api alloc_ok malloc_block xs now (tm, h, pool, n)
      = Some (tm\<lparr>tm_tcp_client := Some c', tm_stats := count_send (tm_stats tm) err (word_of_nat q)\<rparr>,
              h\<lparr>h_rings := (h_rings h)(process_to_network m \<mapsto> r')\<rparr>, pool', n')"
    "send_result wire c (block_bytes (new_block now (take q (rb_contents r)))) n err c' n'"
    "reliable_send api \<longrightarrow> err = ADC_OK \<and> c' = c"
proof -
  have p: "rb_wf r" "tm_tcp_client tm = Some c" "connected c" "pool_wf pool" using ready r by auto
  obtain r' where r': "rb_wf r'" "rb_contents r' = drop q (rb_contents r)"
    and s: "0 < q \<Longrightarrow> \<exists>b pool'. pool_wf pool' \<and> sent_block b = new_block now (take q (rb_contents r))
      \<and> unat (b_sample_count b) = q \<and> q \<le> length (b_samples b)
      \<and> send_samples api malloc_block xs now (process_to_network m) (tm, h, pool, n) = do {
          (err, client, n) \<leftarrow> tcp_client_send_data_block api (tm_tcp_client tm) (Some b) n;
          Some (tm\<lparr>tm_tcp_client := client, tm_stats := count_send (tm_stats tm) err (word_of_nat q)\<rparr>,
                h\<lparr>h_rings := (h_rings h)(process_to_network m \<mapsto> r')\<rparr>, pool', n)
        }"
    by (rule send_samples_block [where malloc_block = malloc_block and api = api and now = now
          and tm = tm and n = n, OF r p(1,4) room len q(1)]) (rule that)
  obtain b pool' where b: "pool_wf pool'" "sent_block b = new_block now (take q (rb_contents r))"
    "unat (b_sample_count b) = q" "q \<le> length (b_samples b)"
    "send_samples api malloc_block xs now (process_to_network m) (tm, h, pool, n) = do {
          (err, client, n) \<leftarrow> tcp_client_send_data_block api (tm_tcp_client tm) (Some b) n;
          Some (tm\<lparr>tm_tcp_client := client, tm_stats := count_send (tm_stats tm) err (word_of_nat q)\<rparr>,
                h\<lparr>h_rings := (h_rings h)(process_to_network m \<mapsto> r')\<rparr>, pool', n)
        }" using s [OF q(2)] by blast
  have len: "unat (b_sample_count b) \<le> length (b_samples b)" "unat (b_sample_count b) < 2 ^ 26"
    using b q(1) by (simp_all add: block_room_spb)
  obtain err c' n' where n': "tcp_client_send_data_block api (Some c) (Some b) n = Some (err, Some c', n')"
    "send_result wire c (block_bytes (sent_block b)) n err c' n'"
    using send_block_law [OF send p(3) len, of n] by blast
  have "reliable_send api \<longrightarrow> err = ADC_OK \<and> c' = c"
    using send_block_reliable [OF send _ p(3) len, of n] n'(1) by (metis Pair_inject option.inject)
  with r' b(1,2,5) n' show ?thesis
    by (intro that [of r' pool' err c' n']) (simp_all add: network_connected [OF ready] p(2))
qed

lemma count_send_ok:
  assumes "length xs \<le> unat SAMPLES_PER_BLOCK"
  shows "count_send st ADC_OK (word_of_nat (length xs))
    = st\<lparr>sent_bytes := sent_bytes st + word_of_nat (length (block_bytes (new_block now xs)))\<rparr>"
proof -
  have "(ucast (word_of_nat (length xs) :: u32) :: u64) = word_of_nat (length xs)"
    using assms by (simp add: ucast_unat unat_of_nat block_room_spb)
  then show ?thesis unfolding length_block_bytes by (simp add: count_send_def new_block_def)
qed

lemma network_step:
  assumes "pipe_ready c m s" "length xs = unat SAMPLES_PER_BLOCK"
    and "posix_send api wire" "reliable_send api" "\<And>i. block_room (malloc_block i)"
  shows "\<exists>s' bs. pipe_exec api alloc_ok malloc_block m (Network xs now) s = Some s' \<and> pipe_ready c m s'
    \<and> flow wire (socket_fd c) m [] bs s s'"
proof -
  obtain tm h pool n where s: "s = (tm, h, pool, n)" by (metis prod_cases4)
  let ?a = "capture_to_process m" and ?b = "process_to_network m"
  obtain r1 r where r: "?a \<noteq> ?b" "h_rings h ?a = Some r1" "h_rings h ?b = Some r" "rb_wf r" "pool_wf pool"
    "tm_tcp_client tm = Some c"
    using assms(1) s by auto
  define q where "q = min (unat SAMPLES_PER_BLOCK) (length (rb_contents r))"
  let ?xs = "take q (rb_contents r)" and ?h = "\<lambda>r'. h\<lparr>h_rings := (h_rings h)(?b \<mapsto> r')\<rparr>"
  have fl: "in_flight m (?h r') = rb_contents r' @ rb_contents r1" "in_flight m h = rb_contents r @ rb_contents r1" for r'
    using r by (simp_all add: in_flight_def capture_queue_def network_queue_def)
  show ?thesis
  proof (cases "q = 0")
    case True
    obtain r' where r': "rb_wf r'" "rb_contents r' = drop q (rb_contents r)"
      "q = 0 \<Longrightarrow> send_samples api malloc_block xs now ?b (tm, h, pool, n) = Some (tm, ?h r', pool, n)"
      by (rule send_samples_block [where malloc_block = malloc_block and api = api and now = now
            and tm = tm and n = n, OF r(3,4,5) assms(5,2) q_def]) (rule that)
    show ?thesis using r'(3) [OF True] r r' True assms(1) fl network_connected [OF assms(1)] unfolding s
      by (intro exI [of _ "(tm, ?h r', pool, n)"] exI [of _ "[]"]) simp
  next
    case False
    then have q: "length ?xs = q" "q \<le> unat SAMPLES_PER_BLOCK" "?xs \<noteq> []"
      by (auto simp: q_def simp del: length_rb_contents)
    then have v: "block_valid (new_block now ?xs)" "b_samples (new_block now ?xs) = ?xs"
      using block_valid_new [of ?xs] by simp_all
    obtain r' pool' n' where n': "rb_wf r'" "rb_contents r' = drop q (rb_contents r)" "pool_wf pool'"
      "network_thread_worker api alloc_ok malloc_block xs now (tm, h, pool, n)
        = Some (tm\<lparr>tm_tcp_client := Some c, tm_stats := count_send (tm_stats tm) ADC_OK (word_of_nat q)\<rparr>, ?h r', pool', n')"
      "send_result wire c (block_bytes (new_block now ?xs)) n ADC_OK c n'"
      using network_round [where malloc_block = malloc_block, OF assms(1) [unfolded s] assms(2,3,5) r(3) q_def] False
        assms(4) by (metis neq0_conv)
    then have wire: "wire n' (socket_fd c) = wire n (socket_fd c) @ block_bytes (new_block now ?xs)"
      by (auto simp: send_result_def)
    have "subseq (?xs @ drop q (rb_contents r) @ rb_contents r1) (rb_contents r @ rb_contents r1)"
      by (metis append_assoc append_take_drop_id subseq_order.refl)
    then have "flow wire (socket_fd c) m [] [new_block now ?xs] s (tm\<lparr>tm_tcp_client := Some c,
        tm_stats := count_send (tm_stats tm) ADC_OK (word_of_nat q)\<rparr>, ?h r', pool', n')"
      using wire v fl n'(2) q count_send_ok [of ?xs "tm_stats tm" now] unfolding s by simp
    with assms(1) n' r show ?thesis unfolding s by fastforce
  qed
qed

lemma pipe_run_flow:
  assumes "posix_send api wire" "reliable_send api" "\<And>i. block_room (malloc_block i)"
  shows "pipe_ready c m s \<Longrightarrow> list_all step_ok steps \<Longrightarrow>
    \<exists>s' bs. pipe_run api alloc_ok malloc_block m steps s = Some s' \<and> pipe_ready c m s'
      \<and> flow wire (socket_fd c) m (pipe_offered steps) bs s s'"
proof (induction steps arbitrary: s)
  case Nil
  then show ?case using flow_refl by fastforce
next
  case (Cons x steps)
  have "\<exists>s1 bs. pipe_exec api alloc_ok malloc_block m x s = Some s1 \<and> pipe_ready c m s1
      \<and> flow wire (socket_fd c) m (pipe_offered [x]) bs s s1"
  proof (cases x)
    case (Sample y)
    then show ?thesis using sample_step [OF Cons.prems(1), where ?wire = wire] by fastforce
  next
    case (Process ys)
    then show ?thesis using process_step [OF Cons.prems(1), where ?wire = wire] Cons.prems(2) by fastforce
  next
    case (Network ys now)
    then show ?thesis using network_step [OF Cons.prems(1) _ assms] Cons.prems(2) by simp
  qed
  then obtain s1 bs where 1: "pipe_exec api alloc_ok malloc_block m x s = Some s1" "pipe_ready c m s1"
    "flow wire (socket_fd c) m (pipe_offered [x]) bs s s1" by blast
  obtain s2 cs where 2: "pipe_run api alloc_ok malloc_block m steps s1 = Some s2" "pipe_ready c m s2"
    "flow wire (socket_fd c) m (pipe_offered steps) cs s1 s2"
    using Cons.IH [OF 1(2)] Cons.prems(2) by auto
  have "flow wire (socket_fd c) m (pipe_offered (x # steps)) (bs @ cs) s s2"
    unfolding step_offer [of x steps] by (rule flow_trans [OF 1(3) 2(3)])
  with 1(1) 2(1,2) show ?case by auto
qed

section \<open>Properties\<close>

text \<open>A heap with two empty rings of four slots, a fresh pool and a thread manager.\<close>

definition small_ring :: ring_buffer_t where
  "small_ring = \<lparr>rb_head = 0, rb_tail = 0, rb_capacity = 4, rb_mask = 3,
     rb_buffer = replicate 4 blank_sample, rb_block = 3, rb_dropped = 0\<rparr>"

definition small_manager :: buffer_manager_t where
  "small_manager = \<lparr>capture_to_process = 2, process_to_network = 4, network_pool = 6\<rparr>"

definition small_heap :: heap where
  "small_heap = \<lparr>h_calls = 7, h_live = {1, 2, 3, 4, 5, 6, 7},
     h_rings = [2 \<mapsto> small_ring, 4 \<mapsto> small_ring, 6 \<mapsto> small_ring], h_managers = [1 \<mapsto> small_manager]\<rparr>"

definition small_tm :: thread_manager where
  "small_tm = \<lparr>tm_self = 8, tm_buffer_manager = 1, tm_stats = zero_stats, tm_states = [], tm_running = True,
     tm_paused = False, tm_alive = [], tm_thread_stats = [], tm_contexts = [], tm_adc = None,
     tm_tcp_client = Some demo_linked\<rparr>"

definition empty_pool :: block_pool where
  "empty_pool = \<lparr>g_block_pool = replicate 16 None, g_block_pool_ready = False, pool_index = 0\<rparr>"

definition wide_block :: data_block_t where
  "wide_block = \<lparr>b_magic = 0, b_version = 0, b_sequence = 0, b_sample_count = 0, b_timestamp = 0,
     b_samples = replicate 256 blank_sample\<rparr>"

text \<open>A link that takes up to \<open>chunk + 1\<close> bytes per call and never refuses.\<close>

definition eager_api :: "nat \<Rightarrow> demo_net socket_api" where
  "eager_api chunk = (demo_api 1 1)\<lparr>sk_send := (\<lambda>n fd bs. let k = min (length bs) (Suc chunk) in
     (int k, False, n\<lparr>dn_wire := (dn_wire n)(fd := dn_wire n fd @ take k bs)\<rparr>))\<rparr>"

lemma eager_link: "posix_send (eager_api chunk) dn_wire" "reliable_send (eager_api chunk)"
  by (auto simp: posix_send_def reliable_send_def eager_api_def Let_def)

lemma small_ready: "pipe_ready demo_linked small_manager (small_tm, small_heap, empty_pool, quiet_net)"
proof -
  have "rb_wf small_ring" by (simp add: rb_wf_def small_ring_def bexI [of _ 2])
  then show ?thesis
    by (simp add: small_manager_def small_heap_def small_tm_def empty_pool_def pool_wf_def BLOCK_POOL_SIZE_def demo_linked_def)
qed

lemma wide_block_room: "block_room (Some wide_block)"
  by (simp add: block_room_def wide_block_def SAMPLES_PER_BLOCK_def)


definition stack_array :: "adc_sample_t list" where
  "stack_array = replicate 256 blank_sample"

lemma stack_array_ok: "list_all step_ok [Sample blank_sample, Process stack_array, Network stack_array 77]"
  by (simp add: stack_array_def SAMPLES_PER_BLOCK_def)


text \<open>
  C12. One round of the network worker on any link: it takes the oldest samples, at most 256, out of
  the ring and tries to send them as one block. If the whole block is written it counts the bytes;
  otherwise a proper prefix of the block is on the wire, one send error is counted, and the samples
  are lost: they are in no ring any more and \<^verbatim>\<open>dropped_samples\<close> does not count them.
\<close>

theorem network_round_outcome:
  assumes "pipe_ready c m (tm, h, pool, n)" "length xs = unat SAMPLES_PER_BLOCK"
    and "posix_send api wire" "\<And>i. block_room (malloc_block i)" "network_queue m h \<noteq> []"
  shows "\<exists>tm' h' pool' n' k. let q = min 256 (length (network_queue m h));
        img = block_bytes (new_block now (take q (network_queue m h))) in
      network_thread_worker api alloc_ok malloc_block xs now (tm, h, pool, n) = Some (tm', h', pool', n')
    \<and> network_queue m h' = drop q (network_queue m h) \<and> capture_queue m h' = capture_queue m h
    \<and> wire n' (socket_fd c) = wire n (socket_fd c) @ take k img
    \<and> dropped_samples (tm_stats tm') = dropped_samples (tm_stats tm)
    \<and> (k = length img \<and> send_errors (tm_stats tm') = send_errors (tm_stats tm)
         \<and> sent_bytes (tm_stats tm') = sent_bytes (tm_stats tm) + word_of_nat (length img)
       \<or> k < length img \<and> send_errors (tm_stats tm') = send_errors (tm_stats tm) + 1
         \<and> sent_bytes (tm_stats tm') = sent_bytes (tm_stats tm))"
proof -
  let ?b = "process_to_network m"
  obtain r where r: "h_rings h ?b = Some r" "capture_to_process m \<noteq> ?b" using assms(1) by auto
  then have nq: "network_queue m h = rb_contents r" by (simp add: network_queue_def)
  define q where "q = min (unat SAMPLES_PER_BLOCK) (length (rb_contents r))"
  let ?xs = "take q (rb_contents r)"
  have q: "0 < q" "length ?xs = q" "q \<le> unat SAMPLES_PER_BLOCK"
    using assms(5) nq by (auto simp: q_def block_room_spb simp del: length_rb_contents)
  obtain r' pool' err c' n' where w: "rb_contents r' = drop q (rb_contents r)"
    "network_thread_worker api alloc_ok malloc_block xs now (tm, h, pool, n)
      = Some (tm\<lparr>tm_tcp_client := Some c', tm_stats := count_send (tm_stats tm) err (word_of_nat q)\<rparr>,
              h\<lparr>h_rings := (h_rings h)(?b \<mapsto> r')\<rparr>, pool', n')"
    "send_result wire c (block_bytes (new_block now ?xs)) n err c' n'"
    by (rule network_round [where malloc_block = malloc_block, OF assms(1-4) r(1) q_def q(1)]) (rule that)
  let ?img = "block_bytes (new_block now ?xs)" and ?st = "count_send (tm_stats tm) err (word_of_nat q)"
  have queues: "network_queue m (h\<lparr>h_rings := (h_rings h)(?b \<mapsto> r')\<rparr>) = drop q (rb_contents r)"
    "capture_queue m (h\<lparr>h_rings := (h_rings h)(?b \<mapsto> r')\<rparr>) = capture_queue m h"
    using w(1) r(2) by (simp_all add: network_queue_def capture_queue_def)
  obtain k where k: "wire n' (socket_fd c) = wire n (socket_fd c) @ take k ?img"
    "err = ADC_OK \<and> k = length ?img \<or> err \<noteq> ADC_OK \<and> k < length ?img"
    using w(3) unfolding send_result_def by auto
  have "dropped_samples ?st = dropped_samples (tm_stats tm)"
    "k = length ?img \<and> send_errors ?st = send_errors (tm_stats tm)
         \<and> sent_bytes ?st = sent_bytes (tm_stats tm) + word_of_nat (length ?img)
     \<or> k < length ?img \<and> send_errors ?st = send_errors (tm_stats tm) + 1 \<and> sent_bytes ?st = sent_bytes (tm_stats tm)"
    using k(2) count_send_ok [of ?xs "tm_stats tm" now] q by (auto simp: count_send_def)
  then show ?thesis using w(2) queues k(1) q_def unfolding Let_def nq block_room_spb by fastforce
qed

text \<open>One sample waiting for the network, and a link that accepts ten bytes and then times out.\<close>

definition waiting_heap :: heap where
  "waiting_heap = small_heap\<lparr>h_rings := (h_rings small_heap)(4 \<mapsto> small_ring\<lparr>rb_head := 1\<rparr>)\<rparr>"

lemma waiting_queue: "network_queue small_manager waiting_heap = [blank_sample]"
  by (simp add: network_queue_def small_manager_def waiting_heap_def small_heap_def small_ring_def rb_contents_def
      rb_len_def rb_size_def ring_read_def)

lemma waiting_ready: "pipe_ready demo_linked small_manager (small_tm, waiting_heap, empty_pool, quiet_net)"
proof -
  have "rb_wf (small_ring\<lparr>rb_head := 1\<rparr>)" by (simp add: rb_wf_def small_ring_def bexI [of _ 2])
  with small_ready show ?thesis by (simp add: waiting_heap_def small_manager_def)
qed

theorem network_round_outcome_witness:
  "\<exists>tm' h' pool' n' k. network_thread_worker (demo_api 5 10) (\<lambda>_. True) (\<lambda>_. Some wide_block) stack_array 77
      (small_tm, waiting_heap, empty_pool, quiet_net) = Some (tm', h', pool', n')
    \<and> network_queue small_manager h' = [] \<and> dropped_samples (tm_stats tm') = 0
    \<and> dn_wire n' 3 = take k (block_bytes (new_block 77 [blank_sample]))"
proof -
  have "length stack_array = unat SAMPLES_PER_BLOCK" by (simp add: stack_array_def block_room_spb)
  moreover have "socket_fd demo_linked = 3" "dn_wire quiet_net 3 = []" "dropped_samples (tm_stats small_tm) = 0"
    by (simp_all add: demo_linked_def quiet_net_def small_tm_def zero_stats_def)
  ultimately show ?thesis
    using network_round_outcome [where now = 77 and alloc_ok = "\<lambda>_. True", OF waiting_ready _ demo_posix_send [of 5 10]
        wide_block_room, of stack_array]
    by (simp add: waiting_queue Let_def) blast
qed

text \<open>
  The capture worker starts the acquisition: on its first call with memory and a thread
  available it creates a simulator at the default rate of 40 kHz, starts its thread and connects it
  to the capture ring, and further calls leave everything as it is. Whatever samples the
  simulator's thread delivers through this callback, the ring takes as many as fit, in order,
  \<^verbatim>\<open>total_samples\<close> counts those and \<^verbatim>\<open>dropped_samples\<close> the rest.
\<close>

theorem capture_worker_feeds_ring:
  assumes "tm_buffer_manager tm \<noteq> 0" "h_managers h (tm_buffer_manager tm) = Some m" "capture_to_process m \<noteq> 0"
    and "h_rings h (capture_to_process m) = Some r" "rb_wf r" "tm_adc tm = None" "alloc_ok (Suc (h_calls h))"
    and "k = min (length ss) (rb_bound r - length (rb_contents r))"
  shows "\<exists>h' adc f r'. capture_thread_worker alloc_ok True ok2 now1 now2 (tm, h) = Some (tm\<lparr>tm_adc := Some adc\<rparr>, h')
    \<and> adc_running adc \<and> adc_thread adc \<and> sample_rate (adc_config adc) = 40000 \<and> adc_callback adc = Some f
    \<and> capture_thread_worker alloc_ok' b1 b2 t1 t2 (tm\<lparr>tm_adc := Some adc\<rparr>, h') = Some (tm\<lparr>tm_adc := Some adc\<rparr>, h')
    \<and> foldl f (Some (h', st)) ss
        = Some (h'\<lparr>h_rings := (h_rings h')(capture_to_process m \<mapsto> r')\<rparr>,
                st\<lparr>total_samples := total_samples st + word_of_nat k,
                   dropped_samples := dropped_samples st + word_of_nat (length ss - k)\<rparr>)
    \<and> rb_contents r' = rb_contents r @ take k ss"
proof -
  let ?h = "h\<lparr>h_calls := Suc (h_calls h), h_live := insert (Suc (h_calls h)) (h_live h)\<rparr>"
  let ?adc = "\<lparr>adc_self = Suc (h_calls h), adc_config = the (adc_config_get_default (Some zero_adc_config)),
     adc_running = True, adc_sequence = 0, adc_start_time = now1,
     adc_callback = Some (callback_fun \<lparr>cb_buffer = capture_to_process m, cb_stats = True\<rparr>), adc_thread = True\<rparr>"
  note defs = capture_thread_worker_def thread_manager_get_adc_def thread_manager_set_adc_def adc_simulator_is_running_def
  have "capture_thread_worker alloc_ok True ok2 now1 now2 (tm, h) = Some (tm\<lparr>tm_adc := Some ?adc\<rparr>, ?h)"
    using assms(1-3,6,7)
    by (simp add: defs adc_simulator_create_def heap_alloc_def adc_config_get_default_def
        adc_simulator_set_callback_def adc_simulator_start_def Let_def)
  moreover have "capture_thread_worker alloc_ok' b1 b2 t1 t2 (tm\<lparr>tm_adc := Some ?adc\<rparr>, ?h) = Some (tm\<lparr>tm_adc := Some ?adc\<rparr>, ?h)"
    using assms(1-3) by (simp add: defs)
  moreover have "sample_rate (adc_config ?adc) = 40000"
    by (simp add: adc_config_get_default_def ADC_SAMPLE_RATE_def)
  moreover obtain r' where "foldl (callback_fun \<lparr>cb_buffer = capture_to_process m, cb_stats = True\<rparr>) (Some (?h, st)) ss
        = Some (?h\<lparr>h_rings := (h_rings ?h)(capture_to_process m \<mapsto> r')\<rparr>,
                st\<lparr>total_samples := total_samples st + word_of_nat k,
                   dropped_samples := dropped_samples st + word_of_nat (length ss - k)\<rparr>)"
    "rb_contents r' = rb_contents r @ take k ss"
    using callback_fold [of ?h "capture_to_process m" r k ss st] assms(3,4,5,8) by auto
  ultimately show ?thesis
    by (intro exI [of _ ?h] exI [of _ ?adc]
        exI [of _ "callback_fun \<lparr>cb_buffer = capture_to_process m, cb_stats = True\<rparr>"] exI [of _ r']) simp
qed

theorem capture_worker_feeds_ring_witness:
  "\<exists>h' adc f r'. capture_thread_worker (\<lambda>_. True) True True 5 6 (small_tm, small_heap)
      = Some (small_tm\<lparr>tm_adc := Some adc\<rparr>, h')
    \<and> adc_callback adc = Some f
    \<and> foldl f (Some (h', zero_stats)) (replicate 4 blank_sample)
        = Some (h'\<lparr>h_rings := (h_rings h')(2 \<mapsto> r')\<rparr>, zero_stats\<lparr>total_samples := 3, dropped_samples := 1\<rparr>)
    \<and> rb_contents r' = replicate 3 blank_sample"
proof -
  have e: "rb_contents small_ring = []" "rb_bound small_ring = 3" "rb_wf small_ring"
    by (simp_all add: rb_contents_def rb_len_def rb_size_def rb_bound_def rb_wf_def small_ring_def bexI [of _ 2])
  have t: "tm_buffer_manager small_tm \<noteq> 0" "h_managers small_heap (tm_buffer_manager small_tm) = Some small_manager"
    "capture_to_process small_manager \<noteq> 0" "h_rings small_heap (capture_to_process small_manager) = Some small_ring"
    "tm_adc small_tm = None" "capture_to_process small_manager = 2"
    by (simp_all add: small_tm_def small_heap_def small_manager_def)
  have k: "3 = min (length (replicate 4 blank_sample)) (rb_bound small_ring - length (rb_contents small_ring))"
    using e by simp
  obtain h' adc f r' where
    "capture_thread_worker (\<lambda>_. True) True True 5 6 (small_tm, small_heap) = Some (small_tm\<lparr>tm_adc := Some adc\<rparr>, h')"
    "adc_callback adc = Some f"
    "foldl f (Some (h', zero_stats)) (replicate 4 blank_sample)
      = Some (h'\<lparr>h_rings := (h_rings h')(capture_to_process small_manager \<mapsto> r')\<rparr>,
          zero_stats\<lparr>total_samples := total_samples zero_stats + word_of_nat 3,
             dropped_samples := dropped_samples zero_stats + word_of_nat (length (replicate 4 blank_sample) - 3)\<rparr>)"
    "rb_contents r' = rb_contents small_ring @ take 3 (replicate 4 blank_sample)"
    using capture_worker_feeds_ring [where alloc_ok = "\<lambda>_. True" and ?ok2.0 = True and ?now1.0 = 5 and ?now2.0 = 6 and st = zero_stats,
        OF t(1-4) e(3) t(5) TrueI k] by blast
  then show ?thesis using e(1) t(6)
    by (intro exI [of _ h'] exI [of _ adc] exI [of _ f] exI [of _ r']) (simp add: zero_stats_def)
qed

end
