(* ===== verification/Main_Program.thy ===== *)
theory Main_Program
  imports Pipeline Logger
begin

text \<open>
  The program's entry point, \<^verbatim>\<open>src/main.c\<close>: command line, start-up with its error
  paths, the supervision loop and shutdown.

  The C library's \<^verbatim>\<open>atoi\<close> is modelled on its defined domain: a value that does not fit
  an \<^verbatim>\<open>int\<close> is undefined behaviour, \<^term>\<open>None\<close>. Text output is in the theories \<open>Output\<close> and
  \<open>Whole_Program\<close>, the log messages of \<^verbatim>\<open>main\<close> are left out; signal handlers appear as
  the value of \<^verbatim>\<open>g_running\<close> that the loop reads.
\<close>

section \<open>Command line\<close>

definition is_space :: "char \<Rightarrow> bool" where
  "is_space c \<longleftrightarrow> of_char c = (32 :: nat) \<or> 9 \<le> (of_char c :: nat) \<and> (of_char c :: nat) \<le> 13"

definition is_digit :: "char \<Rightarrow> bool" where
  "is_digit c \<longleftrightarrow> 48 \<le> (of_char c :: nat) \<and> (of_char c :: nat) \<le> 57"

fun digits_value :: "string \<Rightarrow> nat \<Rightarrow> nat" where
  "digits_value [] acc = acc"
| "digits_value (c # cs) acc = (if is_digit c then digits_value cs (10 * acc + (of_char c - 48)) else acc)"

definition atoi :: "string \<Rightarrow> i32 option" where
  "atoi s =
     (let s = dropWhile is_space s;
          v = (case s of [] \<Rightarrow> 0
               | c # cs \<Rightarrow> if c = CHR ''-'' then - int (digits_value cs 0)
                           else if c = CHR ''+'' then int (digits_value cs 0)
                           else int (digits_value s 0))
      in if - (2 ^ 31) \<le> v \<and> v < 2 ^ 31 then Some (word_of_int v) else None)"

record main_options =
  mo_server_ip :: string
  mo_server_port :: u16
  mo_sample_rate :: u32
  mo_run_time :: i32
  mo_log_file :: "string option"
  mo_log_level :: log_level_t

definition default_options :: main_options where
  "default_options = \<lparr>mo_server_ip = DEFAULT_SERVER_IP, mo_server_port = DEFAULT_SERVER_PORT,
     mo_sample_rate = ADC_SAMPLE_RATE, mo_run_time = -1, mo_log_file = None, mo_log_level = LOG_LEVEL_INFO\<rparr>"

definition is_option :: "string \<Rightarrow> string \<Rightarrow> string \<Rightarrow> bool" where
  "is_option a short long \<longleftrightarrow> a = short \<or> a = long"

text \<open>\<open>Inl\<close> is an early return with an exit code, \<open>Inr\<close> the options in force.\<close>

fun parse_args :: "string list \<Rightarrow> main_options \<Rightarrow> (int + main_options) option" where
  "parse_args [] opt = Some (Inr opt)"
| "parse_args (a # as) opt =
     (if is_option a ''-h'' ''--help'' then Some (Inl 0)
      else if is_option a ''-s'' ''--server'' \<and> as \<noteq> []
      then parse_args (tl as) (opt\<lparr>mo_server_ip := take 15 (hd as)\<rparr>)
      else if is_option a ''-p'' ''--port'' \<and> as \<noteq> []
      then do { v \<leftarrow> atoi (hd as); parse_args (tl as) (opt\<lparr>mo_server_port := ucast v\<rparr>) }
      else if is_option a ''-r'' ''--rate'' \<and> as \<noteq> []
      then do { v \<leftarrow> atoi (hd as); parse_args (tl as) (opt\<lparr>mo_sample_rate := v\<rparr>) }
      else if is_option a ''-t'' ''--time'' \<and> as \<noteq> []
      then do { v \<leftarrow> atoi (hd as); parse_args (tl as) (opt\<lparr>mo_run_time := v\<rparr>) }
      else if is_option a ''-l'' ''--log'' \<and> as \<noteq> []
      then parse_args (tl as) (opt\<lparr>mo_log_file := Some (hd as)\<rparr>)
      else if is_option a ''-v'' ''--verbose'' then parse_args as (opt\<lparr>mo_log_level := LOG_LEVEL_DEBUG\<rparr>)
      else Some (Inl 1))"

section \<open>Start-up and shutdown\<close>

text \<open>
  The environment: which allocations, thread creations and file openings succeed, what fresh memory
  contains, and the arguments of the logger's own first message.
\<close>

record main_env =
  me_alloc_ok :: "nat \<Rightarrow> bool"
  me_pthread_ok :: "nat \<Rightarrow> bool"
  me_fopen_ok :: "string \<Rightarrow> bool"
  me_junk :: "nat \<Rightarrow> adc_sample_t"
  me_file :: string
  me_time :: u64

text \<open>The clean-up before an early exit, once the thread manager exists.\<close>

definition main_abort :: "heap \<Rightarrow> thread_manager option \<Rightarrow> nat \<Rightarrow> logger \<Rightarrow> (int \<times> logger \<times> heap) option" where
  "main_abort h tm bm lg = do {
     (h, _) \<leftarrow> thread_manager_destroy h tm;
     h \<leftarrow> buffer_manager_destroy h bm;
     Some (1, logger_close lg, h)
   }"

definition main_start ::
  "main_env \<Rightarrow> main_options \<Rightarrow> logger \<Rightarrow> heap
     \<Rightarrow> ((int \<times> logger \<times> heap) + (nat \<times> thread_manager option \<times> logger \<times> heap)) option" where
  "main_start env opt lg h = do {
     (r, lg) \<leftarrow> logger_init (me_fopen_ok env) (me_file env) (me_time env) lg (mo_log_file opt) (mo_log_level opt);
     if r \<noteq> 0 then Some (Inl (1, lg, h))
     else do {
       let (bm, h) = buffer_manager_create (me_alloc_ok env) h;
       if bm = 0 then Some (Inl (1, logger_close lg, h))
       else do {
         (e, h) \<leftarrow> buffer_manager_init (me_alloc_ok env) (me_junk env) h bm;
         if e \<noteq> ADC_OK
         then do { h \<leftarrow> buffer_manager_destroy h bm; Some (Inl (1, logger_close lg, h)) }
         else do {
           let (tm, h) = thread_manager_create (me_alloc_ok env) h;
           if tm = None
           then do { h \<leftarrow> buffer_manager_destroy h bm; Some (Inl (1, logger_close lg, h)) }
           else do {
             let (e, tm) = thread_manager_init tm bm;
             if e \<noteq> ADC_OK then map_option Inl (main_abort h tm bm lg)
             else do {
               let (e, tm) = thread_manager_start (me_pthread_ok env) tm;
               if e \<noteq> ADC_OK then map_option Inl (main_abort h tm bm lg)
               else Some (Inr (bm, tm, lg, h))
             }
           }
         }
       }
     }
   }"

text \<open>
  The clean-up at the end of \<^verbatim>\<open>main\<close>. It also returns the thread manager as it was when
  released.
\<close>

definition main_shutdown ::
  "heap \<Rightarrow> thread_manager option \<Rightarrow> nat \<Rightarrow> logger \<Rightarrow> (int \<times> logger \<times> heap \<times> thread_manager option) option" where
  "main_shutdown h tm bm lg = do {
     (h, tm) \<leftarrow> thread_manager_destroy h tm;
     h \<leftarrow> buffer_manager_destroy h bm;
     Some (0, logger_close lg, h, tm)
   }"

section \<open>The supervision loop\<close>

text \<open>
  One tick is one evaluation of the loop head: the value of \<^verbatim>\<open>g_running\<close>, the clock in
  milliseconds and the sample counter of the statistics at that moment.
\<close>

record tick =
  tk_running :: bool
  tk_now :: u64
  tk_total :: u64

definition average_rate :: "u64 \<Rightarrow> u64 \<Rightarrow> u64 \<Rightarrow> real \<Rightarrow> real" where
  "average_rate start now samples old =
     (let elapsed_sec = (now - start) div 1000
      in if elapsed_sec > 0 then real (unat samples) / real (unat elapsed_sec) else old)"

datatype loop_exit = Signalled | Time_Limit

text \<open>
  The result is the reason for leaving the loop and the average rates printed on the way; \<^term>\<open>None\<close>
  means that the loop is still running after the given ticks.
\<close>

fun main_loop :: "i32 \<Rightarrow> u64 \<Rightarrow> u64 \<Rightarrow> real \<Rightarrow> tick list \<Rightarrow> (loop_exit \<times> real list) option" where
  "main_loop run_time start last_stats avg [] = None"
| "main_loop run_time start last_stats avg (t # ts) =
     (if \<not> tk_running t then Some (Signalled, [])
      else if 0 < sint run_time \<and> tk_now t - start \<ge> word_of_int (sint run_time) * 1000 then Some (Time_Limit, [])
      else if tk_now t - last_stats \<ge> 5000
      then let avg = average_rate start (tk_now t) (tk_total t) avg
           in map_option (\<lambda>(e, ps). (e, avg # ps)) (main_loop run_time start (tk_now t) avg ts)
      else main_loop run_time start last_stats avg ts)"

section \<open>What start-up owns\<close>

text \<open>
  \<open>owned h bm t m\<close>: the buffer manager \<open>m\<close> at \<open>bm\<close> with its rings and the thread
  manager \<open>t\<close> are separate allocations of the heap.
\<close>

definition owned :: "heap \<Rightarrow> nat \<Rightarrow> thread_manager \<Rightarrow> buffer_manager_t \<Rightarrow> bool" where
  "owned h bm t m \<longleftrightarrow> heap_wf h \<and> h_managers h bm = Some m \<and> manager_ok h m \<and> tm_self t \<in> h_live h
     \<and> h_rings h (tm_self t) = None \<and> h_managers h (tm_self t) = None
     \<and> (\<forall>b r. h_rings h b = Some r \<longrightarrow> rb_block r \<noteq> tm_self t)"

definition manager_rings :: "buffer_manager_t \<Rightarrow> nat set" where
  "manager_rings m = {capture_to_process m, process_to_network m, network_pool m}"

lemma tm_destroy_owned:
  assumes "owned h bm t m" "tm_wf t \<or> \<not> tm_running t"
  obtains h' t' where "thread_manager_destroy h (Some t) = Some (h', Some t')" "heap_wf h'"
    "h_live h' = h_live h - {tm_self t}" "h_rings h' = h_rings h" "h_managers h' = h_managers h"
    "tm_adc t' = tm_adc t" "tm_wf t \<longrightarrow> True \<notin> set (tm_alive t')" "tm_tcp_client t' = tm_tcp_client t"
proof -
  have "heap_wf h" "tm_self t \<in> h_live h" "h_rings h (tm_self t) = None" "h_managers h (tm_self t) = None"
    "\<forall>b r. h_rings h b = Some r \<longrightarrow> rb_block r \<noteq> tm_self t"
    using assms(1) unfolding owned_def by blast+
  from heap_free_plain [OF this] obtain h' where h': "heap_free h (tm_self t) = Some h'" "heap_wf h'"
    "h_live h' = h_live h - {tm_self t}" "h_rings h' = h_rings h" "h_managers h' = h_managers h" by blast
  show ?thesis
  proof (cases "tm_running t")
    case True
    then obtain t' where t': "thread_manager_stop (Some t) = Some (ADC_OK, Some t')" "tm_wf t'" "\<not> tm_running t'"
      "tm_adc t' = tm_adc t" "tm_tcp_client t' = tm_tcp_client t"
      using stop_law [of t] assms(2) by blast
    then have "thread_manager_destroy h (Some t) = Some (h', Some t')"
      using True h'(1) by (simp add: thread_manager_destroy_def)
    moreover have "True \<notin> set (tm_alive t')" using t' by (simp add: tm_wf_def)
    ultimately show ?thesis using that h' t'(4,5) by blast
  next
    case False
    then have "thread_manager_destroy h (Some t) = Some (h', Some t)"
      using h'(1) by (simp add: thread_manager_destroy_def)
    moreover have "tm_wf t \<longrightarrow> True \<notin> set (tm_alive t)" using False by (simp add: tm_wf_def)
    ultimately show ?thesis using that h' by blast
  qed
qed

lemma release_law:
  assumes own: "owned h bm t m" and t: "tm_wf t \<or> \<not> tm_running t"
  obtains h' t' where "main_shutdown h (Some t) bm lg = Some (0, logger_close lg, h', Some t')"
    "main_abort h (Some t) bm lg = Some (1, logger_close lg, h')"
    "h_live h' = h_live h - {tm_self t} - (\<Union>a\<in>manager_rings m. ring_blocks h a) - {bm}"
    "\<forall>a\<in>manager_rings m. h_rings h' a = None" "tm_adc t' = tm_adc t" "tm_wf t \<longrightarrow> True \<notin> set (tm_alive t')"
    "tm_tcp_client t' = tm_tcp_client t"
proof -
  obtain h1 t' where 1: "thread_manager_destroy h (Some t) = Some (h1, Some t')" "heap_wf h1"
    "h_live h1 = h_live h - {tm_self t}" "h_rings h1 = h_rings h" "h_managers h1 = h_managers h"
    "tm_adc t' = tm_adc t" "tm_wf t \<longrightarrow> True \<notin> set (tm_alive t')" "tm_tcp_client t' = tm_tcp_client t"
    by (rule tm_destroy_owned [OF own t])
  have "h_managers h1 bm = Some m" "manager_ok h1 m"
    using own 1(4,5) by (simp_all add: owned_def manager_ok_def)
  then obtain h' where h': "buffer_manager_destroy h1 bm = Some h'" "\<forall>a\<in>manager_rings m. h_rings h' a = None"
    "h_live h' = h_live h1 - (\<Union>a\<in>manager_rings m. ring_blocks h1 a) - {bm}"
    using buffer_manager_destroy_law [OF 1(2) _ _ manager_rings_def] by blast
  moreover have "ring_blocks h1 = ring_blocks h" using 1(4) by (simp add: ring_blocks_def fun_eq_iff)
  ultimately show ?thesis
    using 1 by (intro that [of h' t']) (simp_all add: main_shutdown_def main_abort_def)
qed

text \<open>The state in which \<open>main_start\<close> leaves a running system.\<close>

definition system_up :: "heap \<Rightarrow> heap \<Rightarrow> nat \<Rightarrow> thread_manager \<Rightarrow> buffer_manager_t \<Rightarrow> bool" where
  "system_up h h' bm t m \<longleftrightarrow> owned h' bm t m \<and> tm_wf t \<and> tm_running t \<and> tm_buffer_manager t = bm \<and> bm \<noteq> 0
     \<and> tm_stats t = zero_stats \<and> tm_adc t = None \<and> tm_tcp_client t = None
     \<and> map ctx_worker (tm_contexts t) = main_workers \<and> \<not> tm_paused t
     \<and> tm_states t = replicate THREAD_COUNT THREAD_STATE_RUNNING
     \<and> distinct [capture_to_process m, process_to_network m, network_pool m]
     \<and> (\<forall>a\<in>manager_rings m. a \<noteq> 0 \<and> empty_ring_at h' (2 ^ 14) a)
     \<and> h_live h' - {tm_self t} - (\<Union>a\<in>manager_rings m. ring_blocks h' a) - {bm} = h_live h"

lemma init_done_owned:
  assumes c: "buffer_manager_create ok h = (bm, h1)" "bm \<noteq> 0" "heap_wf h"
    and i: "heap_wf h2" "h_managers h2 = (h_managers h1)(bm \<mapsto> m)" "init_done h1 h2 m"
    and t: "thread_manager_create ok h2 = (Some t, h3)"
  shows "owned h3 bm t m"
    "h_live h3 - {tm_self t} - (\<Union>a\<in>manager_rings m. ring_blocks h3 a) - {bm} = h_live h"
    "h_rings h3 = h_rings h2"
    "\<not> tm_running t" "tm_stats t = zero_stats" "tm_adc t = None" "tm_tcp_client t = None"
proof -
  obtain a where a: "heap_alloc ok h2 = (a, h3)" "a \<noteq> 0" "tm_self t = a"
    and fields: "\<not> tm_running t" "tm_stats t = zero_stats" "tm_adc t = None" "tm_tcp_client t = None"
    using t by (auto simp: thread_manager_create_def split: prod.splits if_splits)
  note al = heap_alloc_wf [OF i(1) a(1)]
  have n: "a \<notin> h_live h2" "h_live h3 = insert a (h_live h2)" "h_rings h2 a = None" "h_managers h2 a = None"
    "\<forall>b r. h_rings h2 b = Some r \<longrightarrow> rb_block r \<noteq> a"
    using al(4) a(2) by blast+
  have bm: "bm \<notin> h_live h" "h_live h1 = insert bm (h_live h)"
    using buffer_manager_create_law [OF c(3,1)] c(2) by auto
  show "owned h3 bm t m"
    using al i init_done_ok [OF i(3)] n a(3) unfolding owned_def manager_ok_def by simp
  have blocks: "ring_blocks h3 = ring_blocks h2" using al(2) by (simp add: ring_blocks_def fun_eq_iff)
  have "h_live h2 = h_live h1 \<union> (\<Union>a\<in>manager_rings m. ring_blocks h2 a)"
    "(\<Union>a\<in>manager_rings m. ring_blocks h2 a) \<inter> h_live h1 = {}"
    using i(3) unfolding init_done_def manager_rings_def Let_def by auto
  then show "h_live h3 - {tm_self t} - (\<Union>a\<in>manager_rings m. ring_blocks h3 a) - {bm} = h_live h"
    using n(1,2) bm a(3) blocks by auto
  show "h_rings h3 = h_rings h2" by (rule al(2))
  show "\<not> tm_running t" "tm_stats t = zero_stats" "tm_adc t = None" "tm_tcp_client t = None" by (fact fields)+
qed

lemma owned_cong: "tm_self t' = tm_self t \<Longrightarrow> owned h bm t' m = owned h bm t m"
  by (simp add: owned_def)

lemma tm_init_frame:
  assumes "thread_manager_create ok h = (Some t, h')" "bm \<noteq> 0"
  obtains t' where "thread_manager_init (Some t) bm = (ADC_OK, Some t')" "tm_wf t'" "tm_self t' = tm_self t"
    "tm_buffer_manager t' = bm" "\<not> tm_running t'" "tm_stats t' = tm_stats t" "tm_adc t' = tm_adc t"
    "tm_tcp_client t' = tm_tcp_client t" "map ctx_worker (tm_contexts t') = main_workers"
proof -
  obtain t' where t': "thread_manager_init (Some t) bm = (ADC_OK, Some t')" "tm_wf t'"
    using created_wf [OF assms] by blast
  moreover have "\<not> tm_running t"
    "tm_contexts t = map (\<lambda>i. \<lparr>ctx_type = i, ctx_worker = None, ctx_user_data = 0\<rparr>) [0..<THREAD_COUNT]"
    using assms(1) by (auto simp: thread_manager_create_def split: prod.splits if_splits)
  ultimately show ?thesis using assms(2)
    by (intro that [of t']) (auto simp: thread_manager_init_def set_ctx_worker_def Let_def main_workers_def
        threads_upt THREAD_CAPTURE_def THREAD_PROCESS_def THREAD_NETWORK_def)
qed

section \<open>The two outcomes of start-up\<close>

definition start_outcome ::
  "heap \<Rightarrow> ((int \<times> logger \<times> heap) + (nat \<times> thread_manager option \<times> logger \<times> heap)) option \<Rightarrow> bool" where
  "start_outcome h out \<longleftrightarrow> (case out of None \<Rightarrow> False
     | Some (Inl (e, lg, h')) \<Rightarrow> e = 1 \<and> h_live h' = h_live h \<and> g_log_file lg = None
     | Some (Inr (bm, tm, lg, h')) \<Rightarrow> (\<exists>t m. tm = Some t \<and> system_up h h' bm t m))"

lemma start_threads_outcome:
  assumes wf: "heap_wf h" and c: "buffer_manager_create ok h = (bm, h1)" "bm \<noteq> 0"
    and i: "heap_wf h2" "h_managers h2 = (h_managers h1)(bm \<mapsto> m)" "init_done h1 h2 m"
    and t: "thread_manager_create ok h2 = (Some t, h3)"
  shows "\<exists>t1. thread_manager_init (Some t) bm = (ADC_OK, Some t1) \<and>
    start_outcome h (case thread_manager_start pthread_ok (Some t1) of (e, tm) \<Rightarrow>
      if e \<noteq> ADC_OK then map_option Inl (main_abort h3 tm bm lg) else Some (Inr (bm, tm, lg, h3)))"
proof -
  note own = init_done_owned [OF c wf i t]
  obtain t1 where t1: "thread_manager_init (Some t) bm = (ADC_OK, Some t1)" "tm_wf t1" "tm_self t1 = tm_self t"
    "tm_buffer_manager t1 = bm" "\<not> tm_running t1" "tm_stats t1 = tm_stats t" "tm_adc t1 = tm_adc t"
    "tm_tcp_client t1 = tm_tcp_client t" "map ctx_worker (tm_contexts t1) = main_workers"
    by (rule tm_init_frame [OF t c(2)])
  obtain e t2 where t2: "thread_manager_start pthread_ok (Some t1) = (e, Some t2)" "tm_self t2 = tm_self t"
    "tm_buffer_manager t2 = bm" "tm_stats t2 = tm_stats t" "tm_adc t2 = tm_adc t" "tm_tcp_client t2 = tm_tcp_client t"
    "e \<noteq> ADC_OK \<longrightarrow> \<not> tm_running t2" "e = ADC_OK \<longrightarrow> tm_wf t2 \<and> tm_running t2 \<and> \<not> tm_paused t2
       \<and> tm_states t2 = replicate THREAD_COUNT THREAD_STATE_RUNNING" "map ctx_worker (tm_contexts t2) = main_workers"
    using start_frame [OF t1(2,5), of pthread_ok] t1(3-9) by auto
  have own2: "owned h3 bm t2 m" using own(1) owned_cong [OF t2(2)] by simp
  show ?thesis
  proof (cases "e = ADC_OK")
    case True
    have "distinct [capture_to_process m, process_to_network m, network_pool m]
        \<and> (\<forall>a\<in>manager_rings m. a \<noteq> 0 \<and> empty_ring_at h3 (2 ^ 14) a)"
      using i(3) own(3) unfolding init_done_def manager_rings_def Let_def empty_ring_at_def by simp
    then have "system_up h h3 bm t2 m"
      using True t2 own own2 c(2) unfolding system_up_def by simp
    with True t1(1) t2(1) show ?thesis by (auto simp: start_outcome_def)
  next
    case False
    then obtain h4 where "main_abort h3 (Some t2) bm lg = Some (1, logger_close lg, h4)"
      "h_live h4 = h_live h3 - {tm_self t2} - (\<Union>a\<in>manager_rings m. ring_blocks h3 a) - {bm}"
      using release_law [OF own2, of lg] t2(7) by metis
    with False t1(1) t2(1,2) own(2) show ?thesis by (auto simp: start_outcome_def logger_close_def)
  qed
qed

lemma abort_buffers:
  assumes wf: "heap_wf h" and c: "buffer_manager_create ok h = (bm, h1)" "bm \<noteq> 0"
    and i: "heap_wf h2" "h_managers h2 = (h_managers h1)(bm \<mapsto> m)" "init_done h1 h2 m \<or> init_rolled_back h1 h2 m"
    and h3: "heap_wf h3" "h_live h3 = h_live h2" "h_rings h3 = h_rings h2" "h_managers h3 = h_managers h2"
  shows "\<exists>h4. buffer_manager_destroy h3 bm = Some h4 \<and> h_live h4 = h_live h"
proof -
  have bm: "bm \<notin> h_live h" "h_live h1 = insert bm (h_live h)"
    using buffer_manager_create_law [OF wf c(1)] c(2) by auto
  have m: "h_managers h3 bm = Some m" using h3(4) i(2) by simp
  have "manager_ok h2 m"
    using i(3) init_done_ok null_manager_ok by (auto simp: init_rolled_back_def null_manager_def)
  then have ok: "manager_ok h3 m" using h3(3) by (simp add: manager_ok_def)
  have "h_live h2 - (\<Union>a\<in>manager_rings m. ring_blocks h2 a) = h_live h1"
    using i(3) null_ring [OF i(1)]
    by (auto simp: init_done_def init_rolled_back_def manager_rings_def Let_def ring_blocks_def)
  moreover have "ring_blocks h3 = ring_blocks h2" using h3(3) by (simp add: ring_blocks_def fun_eq_iff)
  ultimately show ?thesis
    using buffer_manager_destroy_law [OF h3(1) m ok manager_rings_def] h3(2) bm by auto
qed

text \<open>Start-up once the logger is open and the buffer manager exists.\<close>

lemma main_start_buffers:
  assumes wf: "heap_wf h"
    and log: "logger_init (me_fopen_ok env) (me_file env) (me_time env) lg (mo_log_file opt) (mo_log_level opt) = Some (0, lg1)"
    and c: "buffer_manager_create (me_alloc_ok env) h = (bm, h1)" and bm0: "bm \<noteq> 0"
  shows "start_outcome h (main_start env opt lg h)"
proof -
  let ?ok = "me_alloc_ok env" and ?junk = "me_junk env"
  have h1: "heap_wf h1" "h_managers h1 bm = Some null_manager" using buffer_manager_create_law [OF wf c] bm0 by auto
  obtain e h2 m where i: "buffer_manager_init ?ok ?junk h1 bm = Some (e, h2)" "heap_wf h2"
    "h_managers h2 = (h_managers h1)(bm \<mapsto> m)"
    "e = ADC_OK \<and> init_done h1 h2 m \<or> e = ADC_ERROR_BUFFER \<and> init_rolled_back h1 h2 m"
    using buffer_manager_init_law [OF h1, of ?ok ?junk] by (auto simp: init_outcome_def)
  then have alt: "init_done h1 h2 m \<or> init_rolled_back h1 h2 m" by blast
  note def = main_start_def [of env opt lg h] log c bm0 i(1)
  obtain tm h3 where t: "thread_manager_create ?ok h2 = (tm, h3)" by (metis surj_pair)
  consider "e \<noteq> ADC_OK" | "e = ADC_OK" "tm = None" | t' where "e = ADC_OK" "tm = Some t'" by blast
  then show ?thesis
  proof cases
    case 1
    with abort_buffers [OF wf c bm0 i(2,3) alt i(2)] show ?thesis
      by (auto simp: def start_outcome_def logger_close_def)
  next
    case 2
    obtain a where a: "heap_alloc ?ok h2 = (a, h3)" "a = 0"
      using t 2(2) by (auto simp: thread_manager_create_def split: prod.splits if_splits)
    have "\<exists>h4. buffer_manager_destroy h3 bm = Some h4 \<and> h_live h4 = h_live h"
      using heap_alloc_wf [OF i(2) a(1)] a(2) by (intro abort_buffers [OF wf c bm0 i(2,3) alt]) auto
    with 2 t show ?thesis by (auto simp: def start_outcome_def logger_close_def)
  next
    case (3 t')
    have "init_done h1 h2 m" using 3(1) i(4) by auto
    from start_threads_outcome [OF wf c bm0 i(2,3) this t [unfolded 3(2)], of lg1 "me_pthread_ok env"]
    obtain t1 where t1: "thread_manager_init (Some t') bm = (ADC_OK, Some t1)"
      "start_outcome h (case thread_manager_start (me_pthread_ok env) (Some t1) of (e, tm) \<Rightarrow>
         if e \<noteq> ADC_OK then map_option Inl (main_abort h3 tm bm lg1) else Some (Inr (bm, tm, lg1, h3)))" by blast
    obtain e1 tm1 where "thread_manager_start (me_pthread_ok env) (Some t1) = (e1, tm1)" by (metis surj_pair)
    with t1 show ?thesis using 3 t by (simp add: def)
  qed
qed

lemma main_start_law:
  assumes wf: "heap_wf h"
    and log: "logger_init (me_fopen_ok env) (me_file env) (me_time env) lg (mo_log_file opt) (mo_log_level opt) = Some (r, lg1)"
  shows "start_outcome h (main_start env opt lg h)"
proof (cases "r = 0")
  case False
  then have "g_log_file lg1 = None"
    using log by (auto simp: logger_init_def bind_eq_Some_conv Let_def split: option.splits if_splits)
  with False log show ?thesis by (simp add: main_start_def start_outcome_def)
next
  case r0: True
  obtain bm h1 where c: "buffer_manager_create (me_alloc_ok env) h = (bm, h1)" by (metis surj_pair)
  show ?thesis
  proof (cases "bm = 0")
    case True
    then show ?thesis using r0 log c buffer_manager_create_law [OF wf c] heap_wfD(1) [of h1 bm]
      by (auto simp: main_start_def start_outcome_def logger_close_def)
  next
    case False
    then show ?thesis using main_start_buffers [OF wf _ c] log r0 by simp
  qed
qed

text \<open>With a connected client the system that came up is ready for the pipeline.\<close>

lemma system_up_ready:
  assumes "system_up h h' bm t m" "connected c" "pool_wf pool"
  shows "pipe_ready c m (t\<lparr>tm_tcp_client := Some c\<rparr>, h', pool, n)" "in_flight m h' = []"
proof -
  have ring: "\<exists>r. h_rings h' a = Some r \<and> rb_wf r \<and> rb_contents r = []" if "empty_ring_at h' (2 ^ 14) a" for a
    using that by (auto simp: empty_ring_at_def split: option.splits)
  have e: "empty_ring_at h' (2 ^ 14) (capture_to_process m)" "empty_ring_at h' (2 ^ 14) (process_to_network m)"
    and ptr: "0 < capture_to_process m" "0 < process_to_network m"
    using assms(1) by (simp_all add: system_up_def manager_rings_def)
  obtain r1 r2 where r: "h_rings h' (capture_to_process m) = Some r1" "rb_wf r1" "rb_contents r1 = []"
    "h_rings h' (process_to_network m) = Some r2" "rb_wf r2" "rb_contents r2 = []"
    using ring [OF e(1)] ring [OF e(2)] by (elim exE conjE)
  then show "in_flight m h' = []" by (simp add: in_flight_def network_queue_def capture_queue_def)
  show "pipe_ready c m (t\<lparr>tm_tcp_client := Some c\<rparr>, h', pool, n)"
    using r ptr assms by (simp add: system_up_def owned_def)
qed

lemma main_start_up:
  assumes "heap_wf h" "main_start env opt lg h = Some (Inr (bm, Some t, lg1, h1))"
  obtains m where "system_up h h1 bm t m"
proof -
  obtain r lg' where "logger_init (me_fopen_ok env) (me_file env) (me_time env) lg (mo_log_file opt) (mo_log_level opt)
      = Some (r, lg')" using assms(2) by (auto simp: main_start_def bind_eq_Some_conv)
  from main_start_law [OF assms(1) this] show ?thesis
    using assms(2) that by (auto simp: start_outcome_def)
qed

section \<open>Numbers on the command line\<close>

lemma digits_value_append:
  "list_all is_digit xs \<Longrightarrow> digits_value (xs @ ys) acc = digits_value ys (digits_value xs acc)"
  by (induction xs acc rule: digits_value.induct) auto

lemma digit_char:
  assumes "n < 10"
  shows "of_char (digit n) = n + 48" "is_digit (digit n)" "\<not> is_space (digit n)"
    "digit n \<noteq> CHR ''-''" "digit n \<noteq> CHR ''+''"
proof -
  show o: "of_char (digit n) = n + 48" using assms by (simp add: digit_def)
  then show "is_digit (digit n)" "\<not> is_space (digit n)" using assms by (simp_all add: is_digit_def is_space_def)
  show "digit n \<noteq> CHR ''-''" "digit n \<noteq> CHR ''+''" using o by auto
qed

lemma digits_value_dec: "list_all is_digit (dec n) \<and> digits_value (dec n) 0 = n \<and> (\<exists>d<10. hd (dec n) = digit d) \<and> dec n \<noteq> []"
proof (induction n rule: dec.induct)
  case (1 n)
  show ?case
  proof (cases "n < 10")
    case True
    then show ?thesis by (auto simp: dec.simps [of n] digit_char)
  next
    case False
    with 1 have IH: "list_all is_digit (dec (n div 10))" "digits_value (dec (n div 10)) 0 = n div 10"
      "\<exists>d<10. hd (dec (n div 10)) = digit d" "dec (n div 10) \<noteq> []" by blast+
    have "10 * (n div 10) + n mod 10 = n" by simp
    then show ?thesis using IH False
      by (simp add: dec.simps [of n] digits_value_append digit_char)
  qed
qed

lemma atoi_dec:
  assumes "n < 2 ^ 31"
  shows "atoi (dec n) = Some (word_of_nat n)"
proof -
  note d = digits_value_dec [of n]
  obtain k cs where k: "k < 10" "dec n = digit k # cs" using d by (metis list.exhaust_sel)
  have "int n < int (2 ^ 31)" using assms by (simp only: of_nat_less_iff)
  then show ?thesis using d digit_char [OF k(1)] unfolding atoi_def k(2) by (simp del: digits_value.simps)
qed

lemma parse_args_level:
  "parse_args as opt = Some (Inr opt') \<Longrightarrow> mo_log_level opt \<noteq> LOG_LEVEL_COUNT \<Longrightarrow> mo_log_level opt' \<noteq> LOG_LEVEL_COUNT"
  by (induction as opt rule: parse_args.induct) (auto simp: bind_eq_Some_conv split: if_splits)

section \<open>Properties\<close>


text \<open>An environment whose first \<open>k\<close> allocations succeed, with all threads and files available.\<close>

definition demo_main_env :: "nat \<Rightarrow> main_env" where
  "demo_main_env k = \<lparr>me_alloc_ok = (\<lambda>i. i \<le> k), me_pthread_ok = (\<lambda>_. True), me_fopen_ok = (\<lambda>_. True),
     me_junk = (\<lambda>_. blank_sample), me_file = ''logger.c'', me_time = 0\<rparr>"

definition idle_logger :: logger where
  "idle_logger = \<lparr>g_log_file = None, g_log_level = LOG_LEVEL_INFO, console = [], files = (\<lambda>_. [])\<rparr>"

definition quiet_options :: main_options where
  "quiet_options = default_options\<lparr>mo_log_level := LOG_LEVEL_ERROR\<rparr>"

lemma demo_log: "logger_init (me_fopen_ok (demo_main_env k)) (me_file (demo_main_env k)) (me_time (demo_main_env k))
    idle_logger (mo_log_file quiet_options) (mo_log_level quiet_options)
  = Some (0, idle_logger\<lparr>g_log_level := LOG_LEVEL_ERROR\<rparr>)"
  by (simp add: logger_init_def quiet_options_def default_options_def idle_logger_def log_message_def
      less_log_level_t_def level_name_def g_level_names_def THREAD_COUNT_def)


text \<open>
  Shutting down a system that came up is clean: \<^verbatim>\<open>main\<close> returns 0, has joined all three
  worker threads before the structure they use is released, frees nothing twice, and leaves exactly
  the memory allocated that was allocated before start-up.
\<close>

theorem main_shutdown_clean:
  assumes "heap_wf h" "main_start env opt lg h = Some (Inr (bm, Some t, lg1, h1))"
  shows "\<exists>h2 t2. main_shutdown h1 (Some t) bm lg1 = Some (0, logger_close lg1, h2, Some t2)
    \<and> True \<notin> set (tm_alive t2) \<and> h_live h2 = h_live h"
proof -
  obtain m where "system_up h h1 bm t m" by (rule main_start_up [OF assms])
  then have up: "owned h1 bm t m" "tm_wf t"
    "h_live h1 - {tm_self t} - (\<Union>a\<in>manager_rings m. ring_blocks h1 a) - {bm} = h_live h"
    by (simp_all add: system_up_def)
  obtain h2 t2 where "main_shutdown h1 (Some t) bm lg1 = Some (0, logger_close lg1, h2, Some t2)"
    "h_live h2 = h_live h1 - {tm_self t} - (\<Union>a\<in>manager_rings m. ring_blocks h1 a) - {bm}"
    "tm_wf t \<longrightarrow> True \<notin> set (tm_alive t2)"
    using release_law [OF up(1) disjI1 [OF up(2)], of lg1] by metis
  with up(2,3) show ?thesis by auto
qed

text \<open>A start-up in which everything succeeds.\<close>

definition error_logger :: logger where
  "error_logger = idle_logger\<lparr>g_log_level := LOG_LEVEL_ERROR\<rparr>"

lemma demo_start_any:
  assumes "logger_init (me_fopen_ok (demo_main_env 100)) (me_file (demo_main_env 100)) (me_time (demo_main_env 100))
    lg (mo_log_file opt) (mo_log_level opt) = Some (0, lg1)"
  shows "\<exists>h1 t. main_start (demo_main_env 100) opt lg empty_heap = Some (Inr (1, Some t, lg1, h1))"
  unfolding main_start_def assms
  by (simp add: demo_main_env_def buffer_manager_create_def heap_alloc_def empty_heap_def buffer_manager_init_def
      ring_buffer_create_def ring_buffer_size_capacity thread_manager_create_def thread_manager_init_def
      thread_manager_start_def threads_upt store_manager_def set_ctx_worker_def Let_def)

lemma demo_start:
  "\<exists>h1 t. main_start (demo_main_env 100) quiet_options idle_logger empty_heap = Some (Inr (1, Some t, error_logger, h1))"
  using demo_start_any [OF demo_log] by (simp add: error_logger_def)

theorem main_shutdown_clean_witness:
  "\<exists>h1 h2 t t2. main_start (demo_main_env 100) quiet_options idle_logger empty_heap
      = Some (Inr (1, Some t, error_logger, h1))
    \<and> main_shutdown h1 (Some t) 1 error_logger = Some (0, error_logger, h2, Some t2)
    \<and> True \<notin> set (tm_alive t2) \<and> h_live h2 = {}"
proof -
  obtain h1 t where s: "main_start (demo_main_env 100) quiet_options idle_logger empty_heap
      = Some (Inr (1, Some t, error_logger, h1))" using demo_start by blast
  have "logger_close error_logger = error_logger" "h_live empty_heap = {}"
    by (simp_all add: logger_close_def error_logger_def idle_logger_def empty_heap_def)
  with main_shutdown_clean [OF empty_heap_wf s] s show ?thesis by force
qed

text \<open>
  C19. Shutdown leaves the ADC simulator running on freed memory: \<^verbatim>\<open>main\<close> destroys the
  thread manager and the buffers but never stops the simulator, so afterwards the simulator thread
  still exists, and its next callback pushes into the ring that was released, which is undefined
  behaviour.
\<close>

theorem shutdown_use_after_free:
  assumes "owned h bm t m" "tm_wf t" "capture_to_process m \<noteq> 0" "tm_adc t = Some adc"
  shows "\<exists>h2 t2. main_shutdown h (Some t) bm lg = Some (0, logger_close lg, h2, Some t2)
    \<and> tm_adc t2 = Some adc
    \<and> adc_sample_callback s (Some \<lparr>cb_buffer = capture_to_process m, cb_stats = True\<rparr>) (h2, st) = None"
proof -
  obtain h2 t2 where "main_shutdown h (Some t) bm lg = Some (0, logger_close lg, h2, Some t2)"
    "\<forall>a\<in>manager_rings m. h_rings h2 a = None" "tm_adc t2 = tm_adc t"
    using release_law [OF assms(1) disjI1 [OF assms(2)], of lg] by metis
  with assms(3,4) show ?thesis by (auto simp: adc_sample_callback_def manager_rings_def)
qed

definition running_adc :: "(heap \<times> system_stats_t) option adc_simulator" where
  "running_adc = \<lparr>adc_self = 20, adc_config = zero_adc_config, adc_running = True, adc_sequence = 0, adc_start_time = 0,
     adc_callback = Some (callback_fun \<lparr>cb_buffer = 2, cb_stats = True\<rparr>), adc_thread = True\<rparr>"

theorem shutdown_use_after_free_witness:
  "\<exists>t h1 m h2 t2. main_start (demo_main_env 100) quiet_options idle_logger empty_heap
      = Some (Inr (1, Some t, error_logger, h1)) \<and> h_managers h1 1 = Some m
    \<and> main_shutdown h1 (Some (t\<lparr>tm_adc := Some running_adc\<rparr>)) 1 error_logger
        = Some (0, logger_close error_logger, h2, Some t2)
    \<and> tm_adc t2 = Some running_adc
    \<and> adc_sample_callback blank_sample (Some \<lparr>cb_buffer = capture_to_process m, cb_stats = True\<rparr>) (h2, zero_stats) = None"
proof -
  obtain h1 t where s: "main_start (demo_main_env 100) quiet_options idle_logger empty_heap
      = Some (Inr (1, Some t, error_logger, h1))" using demo_start by blast
  obtain m where up: "system_up empty_heap h1 1 t m" by (rule main_start_up [OF empty_heap_wf s])
  let ?t = "t\<lparr>tm_adc := Some running_adc\<rparr>"
  have "owned h1 1 ?t m" "tm_wf ?t" "capture_to_process m \<noteq> 0" "tm_adc ?t = Some running_adc" "h_managers h1 1 = Some m"
    using up owned_cong [of ?t t] by (auto simp: system_up_def tm_wf_def manager_rings_def owned_def)
  with shutdown_use_after_free [OF this(1-4), of error_logger blank_sample zero_stats] s show ?thesis by blast
qed

section \<open>Command line and loop\<close>

text \<open>
  C38. Command-line parsing is total and safe: whenever the numbers in it fit an
  \<^verbatim>\<open>int\<close>, the loop ends with exit code 0 (help), exit code 1 (an unknown or incomplete
  option) or a set of options whose server address fits its 16-byte buffer and whose log level is
  INFO or DEBUG.
\<close>

theorem parse_args_safe:
  assumes "\<forall>a\<in>set args. atoi a \<noteq> None"
  shows "parse_args args default_options = Some (Inl 0) \<or> parse_args args default_options = Some (Inl 1)
    \<or> (\<exists>opt. parse_args args default_options = Some (Inr opt) \<and> length (mo_server_ip opt) \<le> 15
         \<and> mo_log_level opt \<in> {LOG_LEVEL_INFO, LOG_LEVEL_DEBUG})"
proof -
  have gen: "length (mo_server_ip opt) \<le> 15 \<Longrightarrow> mo_log_level opt \<in> {LOG_LEVEL_INFO, LOG_LEVEL_DEBUG} \<Longrightarrow>
    parse_args args opt = Some (Inl 0) \<or> parse_args args opt = Some (Inl 1)
    \<or> (\<exists>o'. parse_args args opt = Some (Inr o') \<and> length (mo_server_ip o') \<le> 15
         \<and> mo_log_level o' \<in> {LOG_LEVEL_INFO, LOG_LEVEL_DEBUG})" for opt
    using assms
  proof (induction args opt rule: parse_args.induct)
    case (1 opt)
    then show ?case by simp
  next
    case (2 a as opt)
    show ?case
    proof (cases as)
      case Nil
      then show ?thesis using 2 by simp
    next
      case (Cons b bs)
      then obtain v where "atoi b = Some v" using 2(9) by auto
      then show ?thesis using 2 Cons by simp
    qed
  qed
  show ?thesis by (rule gen) (simp_all add: default_options_def DEFAULT_SERVER_IP_def)
qed

theorem parse_args_safe_witness:
  "parse_args [''-t'', ''30'', ''-x''] default_options = Some (Inl 0)
   \<or> parse_args [''-t'', ''30'', ''-x''] default_options = Some (Inl 1)
   \<or> (\<exists>opt. parse_args [''-t'', ''30'', ''-x''] default_options = Some (Inr opt) \<and> length (mo_server_ip opt) \<le> 15)"
proof -
  have "\<forall>a\<in>set [''-t'', ''30'', ''-x'']. atoi a \<noteq> None"
    by (simp add: atoi_def is_space_def is_digit_def)
  from parse_args_safe [OF this] show ?thesis by blast
qed

text \<open>
  C39. The value options read back what was written: for every address of at most 15 characters and
  numbers below \<open>2 ^ 31\<close> in decimal, the long options give these values, the port modulo
  \<open>2 ^ 16\<close>.
\<close>

theorem parse_args_roundtrip:
  assumes "length ip \<le> 15" "port < 2 ^ 31" "rate < 2 ^ 31" "secs < 2 ^ 31"
  shows "parse_args [''--server'', ip, ''--port'', dec port, ''--rate'', dec rate, ''--time'', dec secs, ''--log'', f, ''-v'']
      default_options
    = Some (Inr \<lparr>mo_server_ip = ip, mo_server_port = word_of_nat (port mod 2 ^ 16), mo_sample_rate = word_of_nat rate,
        mo_run_time = word_of_nat secs, mo_log_file = Some f, mo_log_level = LOG_LEVEL_DEBUG\<rparr>)"
proof -
  have u: "unat (word_of_nat port :: i32) = port" using assms(2) by (simp add: unat_of_nat)
  have "(ucast (word_of_nat port :: i32) :: u16) = word_of_nat port" by (simp only: ucast_unat u)
  also have "\<dots> = word_of_nat (port mod 2 ^ 16)" by (simp add: word_of_nat_eq_iff take_bit_eq_mod)
  finally show ?thesis using assms by (simp add: is_option_def atoi_dec default_options_def)
qed

theorem parse_args_roundtrip_witness:
  "parse_args [''--server'', ''10.0.0.2'', ''--port'', dec 65616, ''--rate'', dec 8000, ''--time'', dec 60, ''--log'',
      ''a.log'', ''-v''] default_options
    = Some (Inr \<lparr>mo_server_ip = ''10.0.0.2'', mo_server_port = 80, mo_sample_rate = 8000, mo_run_time = 60,
        mo_log_file = Some ''a.log'', mo_log_level = LOG_LEVEL_DEBUG\<rparr>)"
  using parse_args_roundtrip [of "''10.0.0.2''" 65616 8000 60 "''a.log''"] by simp

text \<open>
  The supervision loop ends exactly when it should: it leaves at the first evaluation where a
  signal has cleared \<^verbatim>\<open>g_running\<close> or, with a positive run time, the clock has advanced
  by at least that many seconds, and it never leaves otherwise.
\<close>

theorem main_loop_exits_iff:
  "main_loop run_time start last_stats avg ts \<noteq> None \<longleftrightarrow>
     (\<exists>t\<in>set ts. \<not> tk_running t \<or> 0 < sint run_time \<and> tk_now t - start \<ge> word_of_int (sint run_time) * 1000)"
proof (induction run_time start last_stats avg ts rule: main_loop.induct)
  case (1 run_time start last_stats avg)
  then show ?case by simp
next
  case (2 run_time start last_stats avg t ts)
  then show ?case
    by (cases "tk_running t"; cases "0 < sint run_time \<and> tk_now t - start \<ge> word_of_int (sint run_time) * 1000";
        cases "tk_now t - last_stats \<ge> 5000") (simp_all add: Let_def, blast+)
qed

theorem main_loop_exits_iff_witness:
  "main_loop 2 1000 1000 0 [\<lparr>tk_running = True, tk_now = 1500, tk_total = 10\<rparr>,
      \<lparr>tk_running = True, tk_now = 3000, tk_total = 20\<rparr>] \<noteq> None
   \<and> main_loop 2 1000 1000 0 [\<lparr>tk_running = True, tk_now = 2999, tk_total = 10\<rparr>] = None"
  using main_loop_exits_iff [of 2 1000 1000 0 "[\<lparr>tk_running = True, tk_now = 1500, tk_total = 10\<rparr>,
      \<lparr>tk_running = True, tk_now = 3000, tk_total = 20\<rparr>]"]
    main_loop_exits_iff [of 2 1000 1000 0 "[\<lparr>tk_running = True, tk_now = 2999, tk_total = 10\<rparr>]"]
  by (simp del: main_loop.simps not_None_eq)

end
