(* ===== verification/Output.thy ===== *)
theory Output
  imports Main_Program
begin

text \<open>
  The text output of the program: \<^verbatim>\<open>print_stats\<close>, \<^verbatim>\<open>print_thread_stats\<close> and
  \<^verbatim>\<open>print_help\<close> of \<^verbatim>\<open>src/main.c\<close> and \<^verbatim>\<open>config_print\<close> of
  \<^verbatim>\<open>src/utils/config.c\<close>. Output is a list of lines without their line ends; the
  conversions \<^verbatim>\<open>%llu\<close>, \<^verbatim>\<open>%u\<close>, \<^verbatim>\<open>%d\<close> and \<^verbatim>\<open>%.Nf\<close> of
  \<^verbatim>\<open>printf\<close> are functions to strings.
\<close>

section \<open>Conversions\<close>

definition fmt_u :: "'a::len word \<Rightarrow> string" where
  "fmt_u x = dec (unat x)"

text \<open>To the nearest integer, ties to the even one.\<close>

definition round_even :: "real \<Rightarrow> nat" where
  "round_even x =
     (let f = nat \<lfloor>x\<rfloor> in
      if x - real f < 1 / 2 \<or> x - real f = 1 / 2 \<and> even f then f else Suc f)"

definition fmt_fixed :: "nat \<Rightarrow> real \<Rightarrow> string" where
  "fmt_fixed k x =
     (let n = round_even (\<bar>x\<bar> * 10 ^ k)
      in (if x < 0 then ''-'' else '''') @ dec (n div 10 ^ k) @ ''.'' @ pad0 k (n mod 10 ^ k))"

definition yes_no :: "bool \<Rightarrow> string" where
  "yes_no b = (if b then ''Yes'' else ''No'')"

section \<open>The program's messages\<close>

definition print_stats :: "system_stats_t \<Rightarrow> string list" where
  "print_stats stats =
    ['''', ''========== System Statistics =========='',
     ''Total Samples: '' @ fmt_u (total_samples stats),
     ''Dropped Samples: '' @ fmt_u (dropped_samples stats),
     ''Sent Bytes: '' @ fmt_u (sent_bytes stats),
     ''Send Errors: '' @ fmt_u (send_errors stats),
     ''Average Sample Rate: '' @ fmt_fixed 2 (avg_sample_rate stats) @ '' Hz'',
     ''Average Latency: '' @ fmt_fixed 3 (avg_latency_ms stats) @ '' ms'',
     ''CPU Usage: '' @ fmt_fixed 2 (cpu_usage stats) @ ''%'',
     ''========================================'']"

definition thread_names :: "string list" where
  "thread_names = [''Acquisition'', ''Processing'', ''Network'']"

definition thread_line :: "string \<Rightarrow> thread_stats_t \<Rightarrow> string" where
  "thread_line name stats =
     ''['' @ name @ '' Thread] Loops: '' @ fmt_u (loop_count stats) @ '', Processed: '' @ fmt_u (item_count stats)
     @ '', Errors: '' @ fmt_u (error_count stats) @ '', Avg Cycle: '' @ fmt_fixed 2 (avg_cycle_time_us stats)
     @ '' us, Max Cycle: '' @ fmt_fixed 2 (max_cycle_time_us stats) @ '' us''"

text \<open>The statistics variable of each round starts with whatever the stack holds, \<open>junk\<close>.\<close>

definition print_thread_stats :: "thread_stats_t \<Rightarrow> thread_manager option \<Rightarrow> string list" where
  "print_thread_stats junk tm =
     ['''', ''========== Thread Statistics ==========''] @
     concat (map (\<lambda>i. case thread_manager_get_stats tm (int i) (Some junk) of
         (ADC_OK, Some stats) \<Rightarrow> [thread_line (thread_names ! i) stats]
       | _ \<Rightarrow> []) [0..<THREAD_COUNT]) @
     [''========================================'']"

definition print_help :: "string \<Rightarrow> string list" where
  "print_help program =
    [''Usage: '' @ program @ '' [options]'',
     ''Options:'',
     ''  -h, --help          Show this help message'',
     ''  -s, --server IP     Set server IP address (default: 127.0.0.1)'',
     ''  -p, --port PORT     Set server port (default: 8080)'',
     ''  -r, --rate HZ       Set sample rate (default: 40000)'',
     ''  -t, --time SECONDS  Run time in seconds (default: infinite)'',
     ''  -l, --log FILE      Log file path'',
     ''  -v, --verbose       Verbose logging'']"

definition config_print :: "system_config_t option \<Rightarrow> string list" where
  "config_print config =
     (case config of None \<Rightarrow> []
      | Some c \<Rightarrow>
         [''========== System Configuration =========='',
          ''ADC Configuration:'',
          ''  Sample Rate: '' @ fmt_u (sample_rate (cfg_adc c)) @ '' Hz'',
          ''  Resolution: '' @ fmt_u (resolution (cfg_adc c)) @ '' bits'',
          ''  Channel Count: '' @ fmt_u (channel_count (cfg_adc c)),
          ''  Signal Frequency: '' @ fmt_fixed 2 (signal_freq (cfg_adc c)) @ '' Hz'',
          ''  Noise Level: '' @ fmt_fixed 4 (noise_level (cfg_adc c)),
          ''Buffer Configuration:'',
          ''  Ring Buffer Size: '' @ fmt_u (ring_buffer_size (cfg_buffer c)),
          ''  Buffer Count: '' @ fmt_u (buffer_count (cfg_buffer c)),
          ''  Batch Size: '' @ fmt_u (batch_size (cfg_buffer c)),
          ''Network Configuration:'',
          ''  Server IP: '' @ net_server_ip (cfg_network c),
          ''  Server Port: '' @ fmt_u (net_server_port (cfg_network c)),
          ''  Send Timeout: '' @ fmt_u (net_send_timeout_ms (cfg_network c)) @ '' ms'',
          ''  Keep Alive: '' @ yes_no (net_keep_alive (cfg_network c)),
          ''  No Delay: '' @ yes_no (net_no_delay (cfg_network c)),
          ''Thread Configuration:'',
          ''  Capture Priority: '' @ dec_int (capture_priority (cfg_thread c)),
          ''  Process Priority: '' @ dec_int (process_priority (cfg_thread c)),
          ''  Network Priority: '' @ dec_int (network_priority (cfg_thread c)),
          ''Log Configuration:'',
          ''  Level: '' @ dec_int (Config.log_level (cfg_log c)),
          ''  Console: '' @ yes_no (log_to_console (cfg_log c)),
          ''  File: '' @ yes_no (log_to_file (cfg_log c)),
          ''Run Time: '' @ dec_int (run_time_seconds c) @ '' seconds'',
          ''==========================================''])"

section \<open>Reading the output back\<close>

definition read_u :: "string \<Rightarrow> nat" where
  "read_u s = digits_value s 0"

text \<open>A decimal fraction with an optional sign.\<close>

definition read_fixed :: "string \<Rightarrow> real" where
  "read_fixed s =
     (let neg = (s \<noteq> [] \<and> hd s = CHR ''-''); s = (if neg then tl s else s);
          ip = takeWhile is_digit s; fp = takeWhile is_digit (tl (dropWhile is_digit s));
          v = real (digits_value ip 0) + real (digits_value fp 0) / 10 ^ length fp
      in if neg then - v else v)"

lemma dec_digits: "list_all is_digit (dec n)" "digits_value (dec n) 0 = n"
  using digits_value_dec [of n] by auto

lemma read_u_fmt: "cs = [] \<or> \<not> is_digit (hd cs) \<Longrightarrow> read_u (fmt_u x @ cs) = unat x"
  using dec_digits [of "unat x"]
  by (cases cs) (simp_all add: read_u_def fmt_u_def digits_value_append)

lemma length_dec: "n < 10 ^ Suc k \<Longrightarrow> length (dec n) \<le> Suc k"
proof (induction k arbitrary: n)
  case (Suc k)
  have "n div 10 < 10 ^ Suc k" using Suc.prems by (simp add: div_less_iff_less_mult)
  then show ?case using Suc.IH [of "n div 10"] by (subst dec.simps) auto
qed (simp add: dec.simps)

lemma digits_zeros: "digits_value (replicate j (CHR ''0'') @ cs) 0 = digits_value cs 0"
  by (induction j) (simp_all add: is_digit_def)

lemma pad0_digits:
  assumes "0 < k" "n < 10 ^ k"
  shows "length (pad0 k n) = k" "list_all is_digit (pad0 k n)" "digits_value (pad0 k n) 0 = n"
proof -
  obtain j where "k = Suc j" using assms(1) by (cases k) auto
  then show "length (pad0 k n) = k" using length_dec [of n j] assms(2) by (intro length_pad0) simp
  have "list_all is_digit (replicate i (CHR ''0''))" for i by (induction i) (simp_all add: is_digit_def)
  then show "list_all is_digit (pad0 k n)" using dec_digits(1) [of n] by (simp add: pad0_def)
  show "digits_value (pad0 k n) 0 = n" by (simp add: pad0_def digits_zeros dec_digits)
qed

lemma round_even_close: "0 \<le> x \<Longrightarrow> \<bar>real (round_even x) - x\<bar> \<le> 1 / 2"
proof -
  assume x: "0 \<le> x"
  define f where "f = nat \<lfloor>x\<rfloor>"
  have "real f = of_int \<lfloor>x\<rfloor>" using x by (simp add: f_def)
  then have "real f \<le> x" "x < real f + 1" by linarith+
  then show ?thesis unfolding round_even_def Let_def f_def [symmetric] by (auto simp: abs_le_iff)
qed

lemma take_digits:
  assumes "list_all is_digit ds" "cs = [] \<or> \<not> is_digit (hd cs)"
  shows "takeWhile is_digit (ds @ cs) = ds" "dropWhile is_digit (ds @ cs) = cs"
  using assms by (induction ds) (cases cs; simp)+

lemma read_fixed_digits:
  assumes k: "0 < k" "f < 10 ^ k" and cs: "cs = [] \<or> \<not> is_digit (hd cs)" and sg: "sg = ''-'' \<or> sg = []"
  shows "read_fixed (sg @ dec i @ ''.'' @ pad0 k f @ cs)
    = (if sg = ''-'' then -1 else 1) * (real i + real f / 10 ^ k)"
proof -
  note p = pad0_digits [OF k]
  have dot: "\<not> is_digit (CHR ''.'')" by (simp add: is_digit_def)
  obtain d ds where d: "d < 10" "dec i = digit d # ds" using digits_value_dec [of i] by (metis list.exhaust_sel)
  have ip: "takeWhile is_digit (dec i @ ''.'' @ pad0 k f @ cs) = dec i"
    "dropWhile is_digit (dec i @ ''.'' @ pad0 k f @ cs) = ''.'' @ pad0 k f @ cs"
    using take_digits [OF dec_digits(1), of "''.'' @ pad0 k f @ cs" i] dot by simp_all
  have fp: "takeWhile is_digit (pad0 k f @ cs) = pad0 k f" using take_digits(1) [OF p(2) cs] .
  have "hd (dec i @ ''.'' @ pad0 k f @ cs) \<noteq> CHR ''-''" using d digit_char [OF d(1)] by simp
  then show ?thesis using sg ip fp p dec_digits(2) [of i]
    by (auto simp: read_fixed_def Let_def)
qed

lemma fmt_fixed_close:
  assumes "0 < k" "cs = [] \<or> \<not> is_digit (hd cs)"
  shows "\<bar>read_fixed (fmt_fixed k x @ cs) - x\<bar> \<le> 1 / 2 / 10 ^ k"
proof -
  define n where "n = round_even (\<bar>x\<bar> * 10 ^ k)"
  have "\<bar>real n - \<bar>x\<bar> * 10 ^ k\<bar> \<le> 1 / 2" unfolding n_def by (rule round_even_close) simp
  then have "\<bar>real n / 10 ^ k - \<bar>x\<bar>\<bar> \<le> 1 / 2 / 10 ^ k"
    by (simp add: field_simps abs_le_iff)
  moreover have "real (n div 10 ^ k) + real (n mod 10 ^ k) / 10 ^ k = real n / 10 ^ k"
  proof -
    have "real (n div 10 ^ k * 10 ^ k + n mod 10 ^ k) = real (n div 10 ^ k) * 10 ^ k + real (n mod 10 ^ k)"
      unfolding of_nat_add of_nat_mult by simp
    then have "real n = real (n div 10 ^ k) * 10 ^ k + real (n mod 10 ^ k)" unfolding div_mult_mod_eq .
    then have "real n / 10 ^ k = (real (n div 10 ^ k) * 10 ^ k + real (n mod 10 ^ k)) / 10 ^ k" by (rule arg_cong)
    then show ?thesis by (simp add: add_divide_distrib)
  qed
  moreover have "read_fixed (fmt_fixed k x @ cs)
      = (if x < 0 then -1 else 1) * (real (n div 10 ^ k) + real (n mod 10 ^ k) / 10 ^ k)"
    using read_fixed_digits [OF assms(1) _ assms(2), of "n mod 10 ^ k" "if x < 0 then ''-'' else []" "n div 10 ^ k"]
    by (simp add: fmt_fixed_def Let_def n_def)
  ultimately show ?thesis by (auto simp: abs_if split: if_splits)
qed

section \<open>Properties\<close>

text \<open>
  The statistics report can be read back: the four counters are printed exactly, and each
  average is printed with an error of at most half a unit of its last decimal.
\<close>

theorem print_stats_readable:
  "read_u (drop (length ''Total Samples: '') (print_stats st ! 2)) = unat (total_samples st)
   \<and> read_u (drop (length ''Dropped Samples: '') (print_stats st ! 3)) = unat (dropped_samples st)
   \<and> read_u (drop (length ''Sent Bytes: '') (print_stats st ! 4)) = unat (sent_bytes st)
   \<and> read_u (drop (length ''Send Errors: '') (print_stats st ! 5)) = unat (send_errors st)
   \<and> \<bar>read_fixed (drop (length ''Average Sample Rate: '') (print_stats st ! 6)) - avg_sample_rate st\<bar> \<le> 1 / 200
   \<and> \<bar>read_fixed (drop (length ''Average Latency: '') (print_stats st ! 7)) - avg_latency_ms st\<bar> \<le> 1 / 2000
   \<and> \<bar>read_fixed (drop (length ''CPU Usage: '') (print_stats st ! 8)) - cpu_usage st\<bar> \<le> 1 / 200"
proof -
  have c: "\<not> is_digit (CHR '' '')" "\<not> is_digit (CHR ''%'')" by (simp_all add: is_digit_def)
  have u: "read_u (fmt_u x) = unat x" for x :: u64 using read_u_fmt [of "[]" x] by simp
  have "print_stats st ! 2 = ''Total Samples: '' @ fmt_u (total_samples st)"
    "print_stats st ! 3 = ''Dropped Samples: '' @ fmt_u (dropped_samples st)"
    "print_stats st ! 4 = ''Sent Bytes: '' @ fmt_u (sent_bytes st)"
    "print_stats st ! 5 = ''Send Errors: '' @ fmt_u (send_errors st)"
    "print_stats st ! 6 = ''Average Sample Rate: '' @ fmt_fixed 2 (avg_sample_rate st) @ '' Hz''"
    "print_stats st ! 7 = ''Average Latency: '' @ fmt_fixed 3 (avg_latency_ms st) @ '' ms''"
    "print_stats st ! 8 = ''CPU Usage: '' @ fmt_fixed 2 (cpu_usage st) @ ''%''"
    by (simp_all add: print_stats_def)
  then show ?thesis
    using u [of "total_samples st"] u [of "dropped_samples st"] u [of "sent_bytes st"] u [of "send_errors st"]
      fmt_fixed_close [of 2 "'' Hz''" "avg_sample_rate st"] fmt_fixed_close [of 3 "'' ms''" "avg_latency_ms st"]
      fmt_fixed_close [of 2 "''%''" "cpu_usage st"] c
    by (simp only: append_eq_conv_conj drop_append) simp
qed

end
