(* ===== verification/System_Run.thy ===== *)
theory System_Run
  imports Output
begin

text \<open>
  The running system: the wrapper loops of the three pipeline threads, which call the workers they
  were given (\<^verbatim>\<open>thread_wrapper\<close> of \<^verbatim>\<open>src/thread/thread_manager.c\<close>), and
  the thread of the ADC simulator, which calls the callback it was given, in any order, over any
  network and with any failing allocation. The theory shows that no such run has undefined
  behaviour and that every sample is accounted for.
\<close>

section \<open>Events\<close>

text \<open>
  What one pass through a wrapper loop sees of its environment: which allocations and thread
  creations succeed, the clock readings, the contents of the uninitialised sample array on the
  worker's stack, and the two readings of the cycle counter.
\<close>

record iter_env =
  ie_alloc_ok :: "nat \<Rightarrow> bool"
  ie_pthread1 :: bool
  ie_pthread2 :: bool
  ie_now1 :: u64
  ie_now2 :: u64
  ie_stack :: "adc_sample_t list"
  ie_now :: u64
  ie_start_cycles :: u64
  ie_end_cycles :: u64

datatype sys_event = Iterate nat iter_env | Adc_Sample adc_sample_t

text \<open>The function a worker pointer stands for; \<open>user\<close> are workers installed by someone else.\<close>

fun exec_worker ::
  "'n socket_api \<Rightarrow> (nat \<Rightarrow> data_block_t option) \<Rightarrow> (nat \<Rightarrow> 'n pipe_state \<Rightarrow> 'n pipe_state option) \<Rightarrow> iter_env
     \<Rightarrow> thread_worker_t \<Rightarrow> 'n pipe_state \<Rightarrow> 'n pipe_state option" where
  "exec_worker api malloc_block user e capture_worker (tm, h, pool, n) = do {
     (tm, h) \<leftarrow> capture_thread_worker (ie_alloc_ok e) (ie_pthread1 e) (ie_pthread2 e) (ie_now1 e) (ie_now2 e) (tm, h);
     Some (tm, h, pool, n)
   }"
| "exec_worker api malloc_block user e process_worker (tm, h, pool, n) = do {
     (tm, h) \<leftarrow> process_thread_worker (ie_stack e) (tm, h);
     Some (tm, h, pool, n)
   }"
| "exec_worker api malloc_block user e network_worker s =
     network_thread_worker api (ie_alloc_ok e) malloc_block (ie_stack e) (ie_now e) s"
| "exec_worker api malloc_block user e (user_worker k) s = user k s"

text \<open>
  One event: a pass through the loop of a thread's wrapper (its exit once \<^verbatim>\<open>running\<close> is
  cleared), or a sample of the simulator's thread, if there is one. The first component of the
  result is the list of samples the simulator has delivered.
\<close>

fun sys_exec ::
  "'n socket_api \<Rightarrow> (nat \<Rightarrow> data_block_t option) \<Rightarrow> (nat \<Rightarrow> 'n pipe_state \<Rightarrow> 'n pipe_state option)
     \<Rightarrow> sys_event \<Rightarrow> 'n pipe_state \<Rightarrow> (adc_sample_t list \<times> 'n pipe_state) option" where
  "sys_exec api malloc_block user (Iterate i e) (tm, x) =
     (if tm_running tm
      then map_option (Pair [])
        (wrapper_iteration (exec_worker api malloc_block user e) i (ie_start_cycles e) (ie_end_cycles e) (tm, x))
      else Some ([], wrapper_exit i tm, x))"
| "sys_exec api malloc_block user (Adc_Sample s) (tm, h, x) =
     (case tm_adc tm of None \<Rightarrow> Some ([], tm, h, x)
      | Some a \<Rightarrow>
          if \<not> adc_thread a then Some ([], tm, h, x)
          else (case adc_callback a of None \<Rightarrow> Some ([s], tm, h, x)
                | Some f \<Rightarrow> do {
                    (h, st) \<leftarrow> f (Some (h, tm_stats tm)) s;
                    Some ([s], tm\<lparr>tm_stats := st\<rparr>, h, x)
                  }))"

fun sys_run ::
  "'n socket_api \<Rightarrow> (nat \<Rightarrow> data_block_t option) \<Rightarrow> (nat \<Rightarrow> 'n pipe_state \<Rightarrow> 'n pipe_state option)
     \<Rightarrow> sys_event list \<Rightarrow> 'n pipe_state \<Rightarrow> (adc_sample_t list \<times> 'n pipe_state) option" where
  "sys_run api malloc_block user [] s = Some ([], s)"
| "sys_run api malloc_block user (ev # evs) s = do {
     (xs, s) \<leftarrow> sys_exec api malloc_block user ev s;
     (ys, s) \<leftarrow> sys_run api malloc_block user evs s;
     Some (xs @ ys, s)
   }"

fun event_ok :: "sys_event \<Rightarrow> bool" where
  "event_ok (Iterate i e) \<longleftrightarrow> i < THREAD_COUNT \<and> length (ie_stack e) = 256"
| "event_ok (Adc_Sample s) \<longleftrightarrow> True"

section \<open>Ring operations keep the heap's shape\<close>

definition same_blocks :: "heap \<Rightarrow> heap \<Rightarrow> bool" where
  "same_blocks h h' \<longleftrightarrow> h_live h' = h_live h \<and> h_calls h' = h_calls h \<and> h_managers h' = h_managers h
     \<and> (\<forall>a. map_option rb_block (h_rings h' a) = map_option rb_block (h_rings h a))"

lemma same_blocks_refl [simp]: "same_blocks h h"
  by (simp add: same_blocks_def)

lemma same_blocks_trans: "same_blocks h h' \<Longrightarrow> same_blocks h' h'' \<Longrightarrow> same_blocks h h''"
  by (simp add: same_blocks_def)

lemma same_blocks_update:
  "h_rings h a = Some r \<Longrightarrow> rb_block r' = rb_block r \<Longrightarrow> same_blocks h (h\<lparr>h_rings := (h_rings h)(a \<mapsto> r')\<rparr>)"
  by (simp add: same_blocks_def)

lemma same_blocks_ring:
  assumes "same_blocks h h'" "h_rings h' a = Some r'"
  obtains r where "h_rings h a = Some r" "rb_block r' = rb_block r"
proof -
  have "map_option rb_block (h_rings h' a) = map_option rb_block (h_rings h a)"
    using assms(1) by (simp add: same_blocks_def)
  then show ?thesis using assms(2) that by (cases "h_rings h a") auto
qed

lemma same_blocks_none: "same_blocks h h' \<Longrightarrow> h_rings h' a = None \<longleftrightarrow> h_rings h a = None"
  unfolding same_blocks_def by (metis map_option_is_None)

lemma heap_wf_same:
  assumes same: "same_blocks h h'" and wf: "heap_wf h"
  shows "heap_wf h'"
proof (rule heap_wfI)
  have eq: "h_live h' = h_live h" "h_calls h' = h_calls h" "h_managers h' = h_managers h"
    using same by (simp_all add: same_blocks_def)
  note none = same_blocks_none [OF same] and D = heap_wfD [OF wf]
  fix a b r r' m
  show "0 < a \<and> a \<le> h_calls h'" if "a \<in> h_live h'" using that D(1,2) by (simp add: eq)
  show "a \<in> h_live h'" if "h_managers h' a = Some m" using that D(8) by (simp add: eq)
  show "a \<in> h_live h' \<and> h_managers h' a = None \<and> rb_block r \<in> h_live h' \<and> h_rings h' (rb_block r) = None
      \<and> h_managers h' (rb_block r) = None" if r: "h_rings h' a = Some r"
  proof -
    obtain q where q: "h_rings h a = Some q" "rb_block r = rb_block q" by (rule same_blocks_ring [OF same r])
    then show ?thesis using D(3,4,5,6,7) [OF q(1)] by (simp add: eq none)
  qed
  show "a = b" if r: "h_rings h' a = Some r" "h_rings h' b = Some r'" "rb_block r = rb_block r'"
  proof -
    obtain q where q: "h_rings h a = Some q" "rb_block r = rb_block q" by (rule same_blocks_ring [OF same r(1)])
    obtain q' where q': "h_rings h b = Some q'" "rb_block r' = rb_block q'" by (rule same_blocks_ring [OF same r(2)])
    show ?thesis using D(9) [OF q(1) q'(1)] q(2) q'(2) r(3) by simp
  qed
qed

lemma ring_blocks_same: "same_blocks h h' \<Longrightarrow> ring_blocks h' a = ring_blocks h a"
proof -
  assume "same_blocks h h'"
  then have "map_option rb_block (h_rings h' a) = map_option rb_block (h_rings h a)" by (simp add: same_blocks_def)
  then show ?thesis by (cases "h_rings h a"; cases "h_rings h' a") (simp_all add: ring_blocks_def)
qed

lemma callback_blocks:
  "adc_sample_callback s cb (h, st) = Some (h', st') \<Longrightarrow> same_blocks h h'"
  by (auto simp: adc_sample_callback_def Let_def bind_eq_Some_conv ring_ops_block
      split: option.splits if_splits intro!: same_blocks_update)

lemma same_blocks_update2:
  assumes "h_rings h a = Some r" "rb_block r' = rb_block r" "((h_rings h)(a \<mapsto> r')) b = Some q" "rb_block q' = rb_block q"
  shows "same_blocks h (h\<lparr>h_rings := (h_rings h)(a \<mapsto> r', b \<mapsto> q')\<rparr>)"
  using same_blocks_trans [OF same_blocks_update [OF assms(1,2)] same_blocks_update [of _ b q q']] assms(3,4) by simp

section \<open>The invariant of a running system\<close>

text \<open>Everything but the memory balance: structures, rings and callback are in place.\<close>

definition room_or_null :: "data_block_t option \<Rightarrow> bool" where
  "room_or_null b = (case b of None \<Rightarrow> True | Some b \<Rightarrow> length (b_samples b) = unat SAMPLES_PER_BLOCK)"

definition pool_ok :: "block_pool \<Rightarrow> bool" where
  "pool_ok p \<longleftrightarrow> length (g_block_pool p) = BLOCK_POOL_SIZE
     \<and> (g_block_pool_ready p \<longrightarrow> list_all room_or_null (g_block_pool p))"

definition ring_callback :: "buffer_manager_t \<Rightarrow> (heap \<times> system_stats_t) option \<Rightarrow> adc_sample_t
    \<Rightarrow> (heap \<times> system_stats_t) option" where
  "ring_callback m = callback_fun \<lparr>cb_buffer = capture_to_process m, cb_stats = True\<rparr>"

definition adc_ok :: "buffer_manager_t \<Rightarrow> thread_manager \<Rightarrow> bool" where
  "adc_ok m tm \<longleftrightarrow> (\<forall>a. tm_adc tm = Some a \<longrightarrow> adc_callback a = Some (ring_callback m))"

definition tm_up :: "nat \<Rightarrow> thread_manager \<Rightarrow> bool" where
  "tm_up bm tm \<longleftrightarrow> tm_wf tm \<and> tm_running tm \<and> tm_buffer_manager tm = bm
     \<and> map ctx_worker (tm_contexts tm) = main_workers"

definition heap_up :: "nat \<Rightarrow> nat \<Rightarrow> buffer_manager_t \<Rightarrow> heap \<Rightarrow> bool" where
  "heap_up self bm m h \<longleftrightarrow> heap_wf h \<and> bm \<noteq> 0 \<and> h_managers h bm = Some m \<and> manager_ok h m
     \<and> distinct [capture_to_process m, process_to_network m, network_pool m]
     \<and> (\<forall>a\<in>manager_rings m. a \<noteq> 0 \<and> (\<exists>r. h_rings h a = Some r \<and> rb_wf r))
     \<and> self \<in> h_live h \<and> h_rings h self = None \<and> h_managers h self = None
     \<and> (\<forall>b r. h_rings h b = Some r \<longrightarrow> rb_block r \<noteq> self)"

text \<open>The blocks of the system and those of the objects the workers have created.\<close>

definition core_blocks :: "nat \<Rightarrow> nat \<Rightarrow> buffer_manager_t \<Rightarrow> heap \<Rightarrow> nat set" where
  "core_blocks self bm m h = insert self (insert bm (\<Union>a\<in>manager_rings m. ring_blocks h a))"

definition extras :: "thread_manager \<Rightarrow> nat set" where
  "extras tm = (case tm_adc tm of None \<Rightarrow> {} | Some a \<Rightarrow> {adc_self a})
     \<union> (case tm_tcp_client tm of None \<Rightarrow> {} | Some c \<Rightarrow> {tc_self c, send_buffer c})"

definition balance :: "nat set \<Rightarrow> nat \<Rightarrow> nat \<Rightarrow> buffer_manager_t \<Rightarrow> nat set \<Rightarrow> heap \<Rightarrow> bool" where
  "balance L self bm m X h \<longleftrightarrow> h_live h - core_blocks self bm m h = L \<union> X \<and> X \<inter> L = {}"

fun sys_inv :: "nat set \<Rightarrow> nat \<Rightarrow> buffer_manager_t \<Rightarrow> 'n pipe_state \<Rightarrow> bool" where
  "sys_inv L bm m (tm, h, pool, n) \<longleftrightarrow> tm_up bm tm \<and> heap_up (tm_self tm) bm m h \<and> adc_ok m tm \<and> pool_ok pool
     \<and> balance L (tm_self tm) bm m (extras tm) h"

lemma heap_up_owned: "heap_up (tm_self tm) bm m h \<Longrightarrow> owned h bm tm m"
  by (simp add: heap_up_def owned_def)

lemma heap_up_same:
  assumes same: "same_blocks h h'" and up: "heap_up self bm m h"
    and rings: "\<And>a r. a \<in> manager_rings m \<Longrightarrow> h_rings h' a = Some r \<Longrightarrow> rb_wf r"
  shows "heap_up self bm m h'"
proof -
  have wf: "heap_wf h'" using heap_wf_same [OF same] up by (simp add: heap_up_def)
  have ok: "manager_ok h' m" using up same_blocks_none [OF same] by (simp add: heap_up_def manager_ok_def)
  have r: "\<exists>r. h_rings h' a = Some r \<and> rb_wf r" if "a \<in> manager_rings m" for a
  proof -
    have "h_rings h a \<noteq> None" using up that by (auto simp: heap_up_def)
    then obtain r where "h_rings h' a = Some r" using same_blocks_none [OF same] by (cases "h_rings h' a") auto
    then show ?thesis using rings [OF that] by blast
  qed
  have blk: "rb_block r \<noteq> self" if "h_rings h' b = Some r" for b r
    using same_blocks_ring [OF same that] up unfolding heap_up_def by metis
  show ?thesis using up same same_blocks_none [OF same, of self] wf ok r blk unfolding heap_up_def
    by (simp add: same_blocks_def)
qed

lemma balance_same: "same_blocks h h' \<Longrightarrow> balance L self bm m X h' = balance L self bm m X h"
  using ring_blocks_same [of h h'] by (simp add: balance_def core_blocks_def same_blocks_def)

lemma core_live: "heap_up self bm m h \<Longrightarrow> core_blocks self bm m h \<subseteq> h_live h"
proof -
  assume up: "heap_up self bm m h"
  then have wf: "heap_wf h" by (simp add: heap_up_def)
  have "ring_blocks h a \<subseteq> h_live h" for a
    using heap_wfD(3,5) [OF wf, of a] by (auto simp: ring_blocks_def split: option.splits)
  then show ?thesis using up heap_wfD(8) [OF wf, of bm m] by (auto simp: core_blocks_def heap_up_def)
qed

lemma alloc_law:
  assumes up: "heap_up self bm m h" and bal: "balance L self bm m X h" and al: "heap_alloc ok h = (p, h')"
  shows "heap_up self bm m h'" "h_rings h' = h_rings h" "balance L self bm m (if p = 0 then X else insert p X) h'"
    "p \<noteq> 0 \<longrightarrow> p \<notin> X \<and> p \<in> h_live h' \<and> h_rings h' p = None \<and> h_managers h' p = None
       \<and> (\<forall>b r. h_rings h' b = Some r \<longrightarrow> rb_block r \<noteq> p)"
proof -
  have wf: "heap_wf h" using up by (simp add: heap_up_def)
  note a = heap_alloc_wf [OF wf al]
  show rings: "h_rings h' = h_rings h" by (rule a(2))
  have blocks: "ring_blocks h' = ring_blocks h" "core_blocks self bm m h' = core_blocks self bm m h"
    using rings by (simp_all add: core_blocks_def ring_blocks_def fun_eq_iff)
  show "heap_up self bm m h'" using up a unfolding heap_up_def manager_ok_def by auto
  have "core_blocks self bm m h \<subseteq> h_live h" by (rule core_live [OF up])
  then show "balance L self bm m (if p = 0 then X else insert p X) h'"
    using bal a(4) blocks(2) unfolding balance_def by auto
  show "p \<noteq> 0 \<longrightarrow> p \<notin> X \<and> p \<in> h_live h' \<and> h_rings h' p = None \<and> h_managers h' p = None
       \<and> (\<forall>b r. h_rings h' b = Some r \<longrightarrow> rb_block r \<noteq> p)"
    using a bal unfolding balance_def by auto
qed

section \<open>What becomes of the samples\<close>

text \<open>
  A chunk of samples the network worker took out of its ring: sent as a block, handed to a send that
  failed, or discarded because the pool had no block.
\<close>

datatype fate = Sent | Send_Failed | No_Block

definition chunk_samples :: "(fate \<times> adc_sample_t list) list \<Rightarrow> adc_sample_t list" where
  "chunk_samples ps = concat (map snd ps)"

definition chunk_bytes :: "(fate \<times> adc_sample_t list) list \<Rightarrow> nat" where
  "chunk_bytes ps = sum_list (map (\<lambda>p. if fst p = Sent then sizeof_data_block + length (snd p) * sizeof_adc_sample else 0) ps)"

definition chunk_errors :: "(fate \<times> adc_sample_t list) list \<Rightarrow> nat" where
  "chunk_errors ps = length (filter (\<lambda>p. fst p = Send_Failed) ps)"

text \<open>
  \<open>account m xs ps\<close> relates the states before and after some events that delivered the
  samples \<open>xs\<close> and took the chunks \<open>ps\<close>.
\<close>

fun account ::
  "buffer_manager_t \<Rightarrow> adc_sample_t list \<Rightarrow> (fate \<times> adc_sample_t list) list \<Rightarrow> 'n pipe_state \<Rightarrow> 'n pipe_state \<Rightarrow> bool" where
  "account m xs ps (tm, h, pool, n) (tm', h', pool', n') \<longleftrightarrow>
     subseq (chunk_samples ps @ in_flight m h') (in_flight m h @ xs)
     \<and> dropped_samples (tm_stats tm') = dropped_samples (tm_stats tm)
         + word_of_nat (length (in_flight m h @ xs) - length (chunk_samples ps @ in_flight m h'))
     \<and> sent_bytes (tm_stats tm') = sent_bytes (tm_stats tm) + word_of_nat (chunk_bytes ps)
     \<and> send_errors (tm_stats tm') = send_errors (tm_stats tm) + word_of_nat (chunk_errors ps)"

lemma chunk_simps [simp]:
  "chunk_samples [] = []" "chunk_bytes [] = 0" "chunk_errors [] = 0"
  "chunk_samples (ps @ qs) = chunk_samples ps @ chunk_samples qs"
  "chunk_bytes (ps @ qs) = chunk_bytes ps + chunk_bytes qs"
  "chunk_errors (ps @ qs) = chunk_errors ps + chunk_errors qs"
  by (simp_all add: chunk_samples_def chunk_bytes_def chunk_errors_def)

lemma account_idle:
  "h_rings h' = h_rings h \<Longrightarrow> tm_stats tm' = tm_stats tm \<Longrightarrow> account m [] [] (tm, h, pool, n) (tm', h', pool', n')"
  by (simp add: in_flight_def capture_queue_def network_queue_def)

lemma account_trans:
  assumes "account m xs ps s1 s2" "account m ys qs s2 s3"
  shows "account m (xs @ ys) (ps @ qs) s1 s3"
proof -
  obtain tm1 h1 p1 n1 tm2 h2 p2 n2 tm3 h3 p3 n3 where
    s: "s1 = (tm1, h1, p1, n1)" "s2 = (tm2, h2, p2, n2)" "s3 = (tm3, h3, p3, n3)" by (metis prod_cases4)
  let ?B = "chunk_samples ps" and ?C = "chunk_samples qs"
  let ?f1 = "in_flight m h1" and ?f2 = "in_flight m h2" and ?f3 = "in_flight m h3"
  have a: "subseq (?B @ ?f2) (?f1 @ xs)" and b: "subseq (?C @ ?f3) (?f2 @ ys)" using assms s by simp_all
  have "subseq (?B @ ?C @ ?f3) (?B @ ?f2 @ ys)" using b by (rule list_emb_append_mono [OF subseq_order.refl])
  also have "subseq (?B @ ?f2 @ ys) (?f1 @ xs @ ys)"
    using list_emb_append_mono [OF a subseq_order.refl [of ys]] by simp
  finally have sub: "subseq (?B @ ?C @ ?f3) (?f1 @ xs @ ys)" .
  have "(length (?f1 @ xs) - length (?B @ ?f2)) + (length (?f2 @ ys) - length (?C @ ?f3))
      = length (?f1 @ xs @ ys) - length (?B @ ?C @ ?f3)"
    using list_emb_length [OF a] list_emb_length [OF b] by simp
  then have "word_of_nat (length (?f1 @ xs) - length (?B @ ?f2)) + word_of_nat (length (?f2 @ ys) - length (?C @ ?f3))
      = (word_of_nat (length (?f1 @ xs @ ys) - length (?B @ ?C @ ?f3)) :: u64)"
    by (metis of_nat_add)
  then show ?thesis using assms sub unfolding s by (simp add: add.assoc)
qed

section \<open>The capture worker\<close>

lemma adc_start_keeps:
  "\<exists>a'. adc_simulator_start ok now (Some a) = (fst (adc_simulator_start ok now (Some a)), Some a')
     \<and> adc_self a' = adc_self a \<and> adc_callback a' = adc_callback a"
  by (simp add: adc_simulator_start_def Let_def)

lemma adc_start_some:
  "\<exists>a'. snd (adc_simulator_start ok now (Some a)) = Some a' \<and> adc_self a' = adc_self a
     \<and> adc_callback a' = adc_callback a"
  by (simp add: adc_simulator_start_def Let_def)

text \<open>The restart at the end of the worker keeps identity and callback of the simulator.\<close>

lemma adc_restart:
  "\<exists>a'. (if \<not> adc_simulator_is_running (Some a) then snd (adc_simulator_start ok now (Some a)) else Some a) = Some a'
     \<and> adc_self a' = adc_self a \<and> adc_callback a' = adc_callback a"
  using adc_start_some [of ok now a] by simp

lemma capture_law:
  assumes "tm_buffer_manager tm \<noteq> 0" "h_managers h (tm_buffer_manager tm) = Some m" "capture_to_process m \<noteq> 0"
  obtains (kept) a a' where "tm_adc tm = Some a" "adc_self a' = adc_self a" "adc_callback a' = adc_callback a"
      "capture_thread_worker alloc_ok ok1 ok2 now1 now2 (tm, h) = Some (tm\<lparr>tm_adc := Some a'\<rparr>, h)"
    | (failed) h' where "tm_adc tm = None" "heap_alloc alloc_ok h = (0, h')"
      "capture_thread_worker alloc_ok ok1 ok2 now1 now2 (tm, h) = Some (tm, h')"
    | (created) p h' a' where "tm_adc tm = None" "heap_alloc alloc_ok h = (p, h')" "p \<noteq> 0" "adc_self a' = p"
      "adc_callback a' = Some (ring_callback m)"
      "capture_thread_worker alloc_ok ok1 ok2 now1 now2 (tm, h) = Some (tm\<lparr>tm_adc := Some a'\<rparr>, h')"
proof (cases "tm_adc tm")
  case (Some a)
  obtain a' where a': "(if \<not> adc_simulator_is_running (Some a) then snd (adc_simulator_start ok2 now2 (Some a)) else Some a)
      = Some a'" "adc_self a' = adc_self a" "adc_callback a' = adc_callback a" using adc_restart by blast
  have "capture_thread_worker alloc_ok ok1 ok2 now1 now2 (tm, h) = Some (tm\<lparr>tm_adc := Some a'\<rparr>, h)"
    using assms Some a'(1)
    by (simp add: capture_thread_worker_def thread_manager_get_adc_def thread_manager_set_adc_def Let_def)
  with Some a' show ?thesis by (intro kept) simp_all
next
  case None
  obtain p h' where al: "heap_alloc alloc_ok h = (p, h')" by (cases "heap_alloc alloc_ok h")
  note defs = capture_thread_worker_def thread_manager_get_adc_def thread_manager_set_adc_def
    adc_simulator_create_def adc_config_get_default_def adc_simulator_set_callback_def
  show ?thesis
  proof (cases "p = 0")
    case True
    then have "capture_thread_worker alloc_ok ok1 ok2 now1 now2 (tm, h) = Some (tm, h')"
      using assms None al by (simp add: defs)
    with True None al show ?thesis by (intro failed) simp_all
  next
    case False
    define a0 where "a0 = \<lparr>adc_self = p, adc_config = zero_adc_config\<lparr>sample_rate := ADC_SAMPLE_RATE,
        resolution := ADC_RESOLUTION, channel_count := ADC_CHANNEL_COUNT, signal_freq := 1000, noise_level := 1 / 100,
        enable_trigger := False\<rparr>, adc_running = False, adc_sequence = 0, adc_start_time = 0,
        adc_callback = Some (ring_callback m), adc_thread = False\<rparr>"
    obtain e1 a1 where a1: "adc_simulator_start ok1 now1 (Some a0) = (e1, Some a1)" "adc_self a1 = p"
      "adc_callback a1 = Some (ring_callback m)" using adc_start_keeps [of ok1 now1 a0] by (auto simp: a0_def)
    obtain a' where a': "(if \<not> adc_simulator_is_running (Some a1) then snd (adc_simulator_start ok2 now2 (Some a1)) else Some a1)
      = Some a'" "adc_self a' = p" "adc_callback a' = Some (ring_callback m)" using adc_restart [of a1 ok2 now2] a1 by auto
    have "capture_thread_worker alloc_ok ok1 ok2 now1 now2 (tm, h) = Some (tm\<lparr>tm_adc := Some a'\<rparr>, h')"
      using assms None al False a1(1) a'(1) by (simp add: defs ring_callback_def a0_def)
    with None al False a' show ?thesis by (intro created) simp_all
  qed
qed

text \<open>Changes of the manager that the invariant does not see.\<close>

lemma tm_up_upd [simp]:
  "tm_up bm (tm\<lparr>tm_adc := x\<rparr>) = tm_up bm tm" "tm_up bm (tm\<lparr>tm_tcp_client := y\<rparr>) = tm_up bm tm"
  "tm_up bm (tm\<lparr>tm_stats := z\<rparr>) = tm_up bm tm"
  by (simp_all add: tm_up_def tm_wf_def)

lemma adc_ok_upd [simp]:
  "adc_ok m (tm\<lparr>tm_tcp_client := y\<rparr>) = adc_ok m tm" "adc_ok m (tm\<lparr>tm_stats := z\<rparr>) = adc_ok m tm"
  by (simp_all add: adc_ok_def)

lemma extras_upd [simp]: "extras (tm\<lparr>tm_stats := z\<rparr>) = extras tm"
  by (simp add: extras_def)

lemma heap_upD:
  assumes "heap_up self bm m h"
  shows "bm \<noteq> 0" "h_managers h bm = Some m" "capture_to_process m \<noteq> 0" "process_to_network m \<noteq> 0"
    "capture_to_process m \<noteq> process_to_network m"
    "\<exists>r. h_rings h (capture_to_process m) = Some r \<and> rb_wf r" "\<exists>r. h_rings h (process_to_network m) = Some r \<and> rb_wf r"
  using assms by (simp_all add: heap_up_def manager_rings_def)

lemma capture_sys:
  assumes "sys_inv L bm m (tm, h, pool, n)"
  shows "\<exists>tm' h'. capture_thread_worker alloc_ok ok1 ok2 now1 now2 (tm, h) = Some (tm', h')
    \<and> sys_inv L bm m (tm', h', pool, n) \<and> account m [] [] (tm, h, pool, n) (tm', h', pool, n)"
proof -
  have inv: "tm_up bm tm" "heap_up (tm_self tm) bm m h" "adc_ok m tm" "pool_ok pool"
    "balance L (tm_self tm) bm m (extras tm) h" using assms by simp_all
  have bm: "tm_buffer_manager tm = bm" using inv(1) by (simp add: tm_up_def)
  note up = heap_upD [OF inv(2)]
  have "tm_buffer_manager tm \<noteq> 0" "h_managers h (tm_buffer_manager tm) = Some m" using up bm by simp_all
  note law = capture_law [OF this up(3), of alloc_ok ok1 ok2 now1 now2]
  show ?thesis
  proof (cases rule: law)
    case (1 a a')
    note kept = this
    then have "extras (tm\<lparr>tm_adc := Some a'\<rparr>) = extras tm" "adc_ok m (tm\<lparr>tm_adc := Some a'\<rparr>)"
      using inv(3) by (simp_all add: extras_def adc_ok_def)
    then show ?thesis using kept(4) inv account_idle [of h h "tm\<lparr>tm_adc := Some a'\<rparr>" tm m pool n pool n] by simp
  next
    case (2 h')
    note failed = this
    note al = alloc_law [OF inv(2,5) failed(2)]
    show ?thesis using failed(3) inv al account_idle [OF al(2), of tm tm m pool n pool n] by simp
  next
    case (3 p h' a')
    note created = this
    note al = alloc_law [OF inv(2,5) created(2)]
    have "extras (tm\<lparr>tm_adc := Some a'\<rparr>) = insert p (extras tm)" "adc_ok m (tm\<lparr>tm_adc := Some a'\<rparr>)"
      using created(1,4,5) by (simp_all add: extras_def adc_ok_def)
    then show ?thesis using created(3,6) inv al account_idle [OF al(2), of "tm\<lparr>tm_adc := Some a'\<rparr>" tm m pool n pool n]
      by simp
  qed
qed

section \<open>The processing worker and the callback\<close>

lemma heap_up_rings:
  assumes up: "heap_up self bm m h" and same: "same_blocks h h'"
    and "\<And>a. a \<in> manager_rings m \<Longrightarrow> h_rings h' a = h_rings h a \<or> (\<exists>r. h_rings h' a = Some r \<and> rb_wf r)"
  shows "heap_up self bm m h'"
proof (rule heap_up_same [OF same up])
  fix a r assume a: "a \<in> manager_rings m" "h_rings h' a = Some r"
  then show "rb_wf r" using assms(3) [OF a(1)] up by (auto simp: heap_up_def)
qed

lemma process_sys:
  assumes "sys_inv L bm m (tm, h, pool, n)" and len: "length xs = 256"
  shows "\<exists>tm' h'. process_thread_worker xs (tm, h) = Some (tm', h')
    \<and> sys_inv L bm m (tm', h', pool, n) \<and> account m [] [] (tm, h, pool, n) (tm', h', pool, n)"
proof -
  let ?a = "capture_to_process m" and ?b = "process_to_network m"
  have inv: "tm_up bm tm" "heap_up (tm_self tm) bm m h" "adc_ok m tm" "pool_ok pool"
    "balance L (tm_self tm) bm m (extras tm) h" using assms by simp_all
  have bm: "tm_buffer_manager tm = bm" using inv(1) by (simp add: tm_up_def)
  note up = heap_upD [OF inv(2)]
  obtain r1 r2 where r: "h_rings h ?a = Some r1" "rb_wf r1" "h_rings h ?b = Some r2" "rb_wf r2" using up(6,7) by blast
  define q where "q = min 256 (length (rb_contents r1))"
  define k where "k = min q (rb_bound r2 - length (rb_contents r2))"
  have kq: "k \<le> q" "q \<le> length (rb_contents r1)"
    unfolding k_def by (rule min.cobounded1) (unfold q_def, rule min.cobounded2)
  have ptr: "0 < tm_buffer_manager tm" "h_managers h (tm_buffer_manager tm) = Some m" "0 < ?a" "0 < ?b"
    using up bm by simp_all
  obtain r1' r2' where w: "process_thread_worker xs (tm, h) =
      Some (if k < q then tm\<lparr>tm_stats := (tm_stats tm)\<lparr>dropped_samples :=
                 dropped_samples (tm_stats tm) + word_of_nat (q - k)\<rparr>\<rparr> else tm,
            h\<lparr>h_rings := (h_rings h)(?a \<mapsto> r1', ?b \<mapsto> r2')\<rparr>)"
    "rb_wf r1'" "rb_wf r2'" "rb_contents r1' = drop q (rb_contents r1)"
    "rb_contents r2' = rb_contents r2 @ take k (rb_contents r1)" "rb_block r1' = rb_block r1" "rb_block r2' = rb_block r2"
    using process_thread_worker_law [OF ptr up(5) r len q_def k_def] by blast
  let ?h = "h\<lparr>h_rings := (h_rings h)(?a \<mapsto> r1', ?b \<mapsto> r2')\<rparr>"
  have same: "same_blocks h ?h"
    by (rule same_blocks_update2 [OF r(1) w(6) _ w(7)]) (use r(3) up(5) in simp)
  have hu: "heap_up (tm_self tm) bm m ?h"
    by (rule heap_up_rings [OF inv(2) same]) (use w(2,3) up(5) in auto)
  have sub: "subseq (rb_contents r2 @ take k (rb_contents r1) @ drop q (rb_contents r1)) (rb_contents r2 @ rb_contents r1)"
    by (intro list_emb_append_mono subseq_take_drop kq) simp
  have lost: "length (rb_contents r1) - (k + (length (rb_contents r1) - q)) = q - k" using kq by simp
  have fl: "in_flight m ?h = rb_contents r2 @ take k (rb_contents r1) @ drop q (rb_contents r1)"
    "in_flight m h = rb_contents r2 @ rb_contents r1"
    using r w(4,5) up(5) by (simp_all add: in_flight_def capture_queue_def network_queue_def)
  show ?thesis using w(1) inv hu sub lost fl kq balance_same [OF same, of L "tm_self tm" bm m "extras tm"]
    by (cases "k < q") (simp_all del: length_rb_contents)
qed

lemma sample_sys:
  assumes "sys_inv L bm m (tm, h, pool, n)"
  shows "\<exists>h' st. ring_callback m (Some (h, tm_stats tm)) x = Some (h', st)
    \<and> sys_inv L bm m (tm\<lparr>tm_stats := st\<rparr>, h', pool, n)
    \<and> account m [x] [] (tm, h, pool, n) (tm\<lparr>tm_stats := st\<rparr>, h', pool, n)"
proof -
  let ?a = "capture_to_process m" and ?b = "process_to_network m"
  have inv: "tm_up bm tm" "heap_up (tm_self tm) bm m h" "adc_ok m tm" "pool_ok pool"
    "balance L (tm_self tm) bm m (extras tm) h" using assms by simp_all
  note up = heap_upD [OF inv(2)]
  obtain r1 r2 where r: "h_rings h ?a = Some r1" "rb_wf r1" "h_rings h ?b = Some r2" "rb_wf r2" using up(6,7) by blast
  have a: "0 < ?a" using up(3) by simp
  let ?room = "length (rb_contents r1) < rb_bound r1"
  let ?st = "if ?room then (tm_stats tm)\<lparr>total_samples := total_samples (tm_stats tm) + 1\<rparr>
             else (tm_stats tm)\<lparr>dropped_samples := dropped_samples (tm_stats tm) + 1\<rparr>"
  obtain r' where r': "adc_sample_callback x (Some \<lparr>cb_buffer = ?a, cb_stats = True\<rparr>) (h, tm_stats tm)
      = Some (h\<lparr>h_rings := (h_rings h)(?a \<mapsto> r')\<rparr>, ?st)"
    "rb_wf r'" "rb_contents r' = rb_contents r1 @ (if ?room then [x] else [])"
    using adc_sample_callback_law [OF r(1,2) a, of x "tm_stats tm"] by blast
  let ?h = "h\<lparr>h_rings := (h_rings h)(?a \<mapsto> r')\<rparr>"
  have same: "same_blocks h ?h" by (rule callback_blocks [OF r'(1)])
  have hu: "heap_up (tm_self tm) bm m ?h" by (rule heap_up_rings [OF inv(2) same]) (use r'(2) in auto)
  have "ring_callback m (Some (h, tm_stats tm)) x = Some (?h, ?st)"
    using r'(1) by (simp add: ring_callback_def callback_fun_def)
  moreover have "in_flight m ?h = in_flight m h @ (if ?room then [x] else [])"
    using r r'(3) up(5) by (simp add: in_flight_def capture_queue_def network_queue_def)
  moreover have "subseq (in_flight m h) (in_flight m h @ [x])" by (rule prefix_imp_subseq) simp
  ultimately show ?thesis using inv hu balance_same [OF same, of L "tm_self tm" bm m "extras tm"]
    by (cases ?room) (simp_all del: length_rb_contents)
qed

section \<open>The network worker\<close>

lemma free_law:
  assumes up: "heap_up self bm m h" and bal: "balance L self bm m (insert p X) h" and p: "p \<notin> X"
    and plain: "p \<in> h_live h" "h_rings h p = None" "h_managers h p = None" "\<forall>b r. h_rings h b = Some r \<longrightarrow> rb_block r \<noteq> p"
  shows "\<exists>h'. heap_free h p = Some h' \<and> heap_up self bm m h' \<and> h_rings h' = h_rings h \<and> balance L self bm m X h'"
proof -
  have wf: "heap_wf h" using up by (simp add: heap_up_def)
  obtain h' where h': "heap_free h p = Some h'" "heap_wf h'" "h_live h' = h_live h - {p}" "h_rings h' = h_rings h"
    "h_managers h' = h_managers h" using heap_free_plain [OF wf plain] by blast
  have core: "core_blocks self bm m h' = core_blocks self bm m h"
    using h'(4) by (simp add: core_blocks_def ring_blocks_def)
  have notin: "p \<notin> core_blocks self bm m h" using bal unfolding balance_def by blast
  have "p \<notin> L" using bal by (simp add: balance_def)
  then have "balance L self bm m X h'" using bal p notin h'(3) core unfolding balance_def by auto
  moreover have "self \<noteq> p" using notin by (auto simp: core_blocks_def)
  then have "heap_up self bm m h'" using up h' unfolding heap_up_def manager_ok_def by simp
  ultimately show ?thesis using h'(1,4) by blast
qed

lemma tcp_create_law:
  assumes up: "heap_up self bm m h" and bal: "balance L self bm m X h"
  shows "\<exists>client h'. tcp_client_create alloc_ok h (Some config) = Some (client, h') \<and> heap_up self bm m h'
    \<and> h_rings h' = h_rings h \<and> (case client of None \<Rightarrow> balance L self bm m X h'
         | Some c \<Rightarrow> balance L self bm m (insert (tc_self c) (insert (send_buffer c) X)) h')"
proof -
  obtain p h1 where a1: "heap_alloc alloc_ok h = (p, h1)" by (cases "heap_alloc alloc_ok h")
  note l1 = alloc_law [OF up bal a1]
  show ?thesis
  proof (cases "p = 0")
    case True
    then show ?thesis using a1 l1 by (simp add: tcp_client_create_def)
  next
    case p0: False
    then have bal1: "balance L self bm m (insert p X) h1" using l1(3) by simp
    obtain b h2 where a2: "heap_alloc alloc_ok h1 = (b, h2)" by (cases "heap_alloc alloc_ok h1")
    note l2 = alloc_law [OF l1(1) bal1 a2]
    show ?thesis
    proof (cases "b = 0")
      case True
      have "p \<in> h_live h2 \<and> h_managers h2 p = None"
        using l1(4) p0 True heap_alloc_wf [OF _ a2] l1(1) by (auto simp: heap_up_def)
      then obtain h3 where "heap_free h2 p = Some h3" "heap_up self bm m h3" "h_rings h3 = h_rings h2" "balance L self bm m X h3"
        using free_law [OF l2(1), of L p X] l2(2,3) l1(4) p0 True by auto
      then show ?thesis using p0 True a1 a2 l1(2) l2(2) by (simp add: tcp_client_create_def)
    next
      case False
      then show ?thesis using p0 a1 a2 l1(2) l2 by (simp add: tcp_client_create_def insert_commute)
    qed
  qed
qed

lemma tcp_connect_keeps:
  assumes "tcp_client_connect api (Some c) n = (err, client, n')"
  obtains c' where "client = Some c'" "tc_self c' = tc_self c" "send_buffer c' = send_buffer c"
    "err = ADC_OK \<longrightarrow> connected c'"
  using assms by (auto simp: tcp_client_connect_def Let_def split: prod.splits if_splits)

lemma get_block_ok:
  assumes "pool_ok p" "\<forall>i. room_or_null (malloc_block i)"
  obtains idx p' where "get_block_from_pool malloc_block p = (idx, p')" "idx < BLOCK_POOL_SIZE" "pool_ok p'"
    "room_or_null (g_block_pool p' ! idx)"
proof -
  obtain idx p' where g: "get_block_from_pool malloc_block p = (idx, p')" by (metis surj_pair)
  have "unat (x mod 16) < 16" for x :: u32 by (simp add: unat_mod)
  then have i: "idx < BLOCK_POOL_SIZE"
    using g by (auto simp: get_block_from_pool_def BLOCK_POOL_SIZE_def Let_def)
  have p': "pool_ok p'" "g_block_pool_ready p'"
    using g assms by (auto simp: get_block_from_pool_def init_block_pool_def pool_ok_def list_all_iff
        Let_def split: if_splits)
  then have "room_or_null (g_block_pool p' ! idx)" using i by (simp add: pool_ok_def list_all_length)
  then show ?thesis using that [OF g i p'(1)] by blast
qed

lemma pool_ok_update:
  assumes "pool_ok p" "length (b_samples b) = unat SAMPLES_PER_BLOCK"
  shows "pool_ok (p\<lparr>g_block_pool := (g_block_pool p)[i := Some b]\<rparr>)"
  using assms set_update_subset_insert [of "g_block_pool p" i "Some b"]
  by (auto simp: pool_ok_def list_all_iff room_or_null_def)

text \<open>What the send path does to ring, pool, client and counters, whatever the network and the allocator do.\<close>

definition fate_count :: "fate \<Rightarrow> nat \<Rightarrow> system_stats_t \<Rightarrow> system_stats_t" where
  "fate_count f k st = (case f of
       Sent \<Rightarrow> st\<lparr>sent_bytes := sent_bytes st + word_of_nat (sizeof_data_block + k * sizeof_adc_sample)\<rparr>
     | Send_Failed \<Rightarrow> st\<lparr>send_errors := send_errors st + 1\<rparr>
     | No_Block \<Rightarrow> st)"

lemma count_send_fate:
  assumes "q \<le> 256"
  shows "count_send st err (word_of_nat q) = fate_count (if err = ADC_OK then Sent else Send_Failed) q st"
proof -
  have "(ucast (word_of_nat q :: u32) :: u64) = word_of_nat q"
    using assms by (simp add: ucast_unat unat_of_nat)
  then show ?thesis by (simp add: count_send_def fate_count_def)
qed

lemma fill_and_send:
  assumes lb: "length (b_samples b) = unat SAMPLES_PER_BLOCK" and xs: "length xs = q" "q \<le> 256"
    and c: "connected c" and send: "posix_send api wire"
  obtains b' err c' n' where "fill_block b (word_of_nat q) now (xs @ ys) = Some b'"
    "length (b_samples b') = unat SAMPLES_PER_BLOCK"
    "tcp_client_send_data_block api (Some c) (Some b') n = Some (err, Some c', n')"
    "tc_self c' = tc_self c" "send_buffer c' = send_buffer c"
proof -
  have uq: "unat (word_of_nat q :: u32) = q" using xs(2) by (simp add: unat_of_nat)
  have ql: "q \<le> length (b_samples b)" using xs(2) lb by (simp add: SAMPLES_PER_BLOCK_def)
  let ?b = "(new_block now xs)\<lparr>b_samples := xs @ drop q (b_samples b)\<rparr>"
  have fill: "fill_block b (word_of_nat q) now (xs @ ys) = Some ?b"
    using xs(1) ql uq by (simp add: fill_block_def mem_read_in mem_write_in new_block_def)
  have cnt: "unat (b_sample_count ?b) \<le> length (b_samples ?b)" "unat (b_sample_count ?b) < 2 ^ 26"
    using xs uq by (simp_all add: new_block_def)
  obtain err c' n' where s: "tcp_client_send_data_block api (Some c) (Some ?b) n = Some (err, Some c', n')"
    "send_result wire c (block_bytes (sent_block ?b)) n err c' n'"
    using send_block_law [OF send c cnt, of n] by blast
  then have "tc_self c' = tc_self c" "send_buffer c' = send_buffer c" by (auto simp: send_result_def)
  moreover have "length (b_samples ?b) = unat SAMPLES_PER_BLOCK" using xs(1) ql lb by simp
  ultimately show ?thesis using that fill s(1) by blast
qed

lemma send_samples_any:
  assumes r: "h_rings h a = Some r" "rb_wf r" and pool: "pool_ok pool" "\<forall>i. room_or_null (malloc_block i)"
    and len: "length samples = unat SAMPLES_PER_BLOCK" and c: "tm_tcp_client tm = Some c" "connected c"
    and send: "posix_send api wire" and q: "q = min (unat SAMPLES_PER_BLOCK) (length (rb_contents r))"
  shows "\<exists>r' pool' c' n' f. rb_wf r' \<and> rb_block r' = rb_block r \<and> rb_contents r' = drop q (rb_contents r) \<and> pool_ok pool'
    \<and> tc_self c' = tc_self c \<and> send_buffer c' = send_buffer c
    \<and> send_samples api malloc_block samples now a (tm, h, pool, n)
        = Some (tm\<lparr>tm_tcp_client := Some c', tm_stats := if q = 0 then tm_stats tm else fate_count f q (tm_stats tm)\<rparr>,
                h\<lparr>h_rings := (h_rings h)(a \<mapsto> r')\<rparr>, pool', n')"
proof -
  let ?xs = "take q (rb_contents r)" and ?out = "take q (rb_contents r) @ drop q samples"
  have ql: "q \<le> length samples" "q \<le> 256" "length ?xs = q"
    using q len by (auto simp: SAMPLES_PER_BLOCK_def)
  obtain r' where r': "ring_buffer_pop_batch (Some r) (Some samples) SAMPLES_PER_BLOCK (Some 0)
      = Some (0 < q, Some r', Some ?out, Some (word_of_nat q))"
    "rb_wf r'" "rb_contents r' = drop q (rb_contents r)"
    using rbq.pop_batch_law [OF r(2) q ql(1), of "Some 0"] by auto
  note blk = ring_ops_block(2) [OF r'(1)]
  have self: "tm\<lparr>tm_tcp_client := Some c\<rparr> = tm" using c(1) by (cases tm) simp
  have uq: "unat (word_of_nat q :: u32) = q" using ql(2) by (simp add: unat_of_nat)
  let ?h = "h\<lparr>h_rings := (h_rings h)(a \<mapsto> r')\<rparr>"
  show ?thesis
  proof (cases "q = 0")
    case True
    have "send_samples api malloc_block samples now a (tm, h, pool, n) = Some (tm, ?h, pool, n)"
      using r r'(1) True by (simp add: send_samples_def Let_def)
    then show ?thesis using r' blk pool True self by (intro exI [of _ r'] exI [of _ pool] exI [of _ c] exI [of _ n]) simp
  next
    case q0: False
    then have pos: "(0 :: u32) < word_of_nat q" using uq by (metis unat_0 word_gt_0)
    obtain i p1 where g: "get_block_from_pool malloc_block pool = (i, p1)" "pool_ok p1" "room_or_null (g_block_pool p1 ! i)"
      by (rule get_block_ok [OF pool])
    show ?thesis
    proof (cases "g_block_pool p1 ! i")
      case None
      then have "send_samples api malloc_block samples now a (tm, h, pool, n) = Some (tm, ?h, p1, n)"
        using r r'(1) g(1) q0 pos by (simp add: send_samples_def Let_def)
      then show ?thesis using r' blk g(2) self
        by (intro exI [of _ r'] exI [of _ p1] exI [of _ c] exI [of _ n] exI [of _ No_Block]) (simp add: fate_count_def)
    next
      case (Some b)
      then have lb: "length (b_samples b) = unat SAMPLES_PER_BLOCK" using g(3) by (simp add: room_or_null_def)
      obtain b' err c' n' where s: "fill_block b (word_of_nat q) now ?out = Some b'"
        "length (b_samples b') = unat SAMPLES_PER_BLOCK"
        "tcp_client_send_data_block api (Some c) (Some b') n = Some (err, Some c', n')"
        "tc_self c' = tc_self c" "send_buffer c' = send_buffer c" by (rule fill_and_send [OF lb ql(3,2) c(2) send])
      note p2 = pool_ok_update [OF g(2) s(2), of i]
      have "send_samples api malloc_block samples now a (tm, h, pool, n)
          = Some (tm\<lparr>tm_tcp_client := Some c', tm_stats := count_send (tm_stats tm) err (word_of_nat q)\<rparr>, ?h,
                  p1\<lparr>g_block_pool := (g_block_pool p1)[i := Some b']\<rparr>, n')"
        using r r'(1) g(1) q0 pos Some s(1,3) c(1) by (simp add: send_samples_def Let_def)
      then show ?thesis using r' blk p2 s(4,5) q0 count_send_fate [OF ql(2), of "tm_stats tm" err]
        by (intro exI [of _ r'] exI [of _ "p1\<lparr>g_block_pool := (g_block_pool p1)[i := Some b']\<rparr>"] exI [of _ c']
            exI [of _ n'] exI [of _ "if err = ADC_OK then Sent else Send_Failed"]) simp
    qed
  qed
qed

lemma account_chunk:
  assumes st: "tm_stats tm' = (if q = 0 then tm_stats tm else fate_count f q (tm_stats tm))"
    and r: "h_rings h (process_to_network m) = Some r" "rb_contents r' = drop q (rb_contents r)"
    and q: "q \<le> length (rb_contents r)" and ne: "capture_to_process m \<noteq> process_to_network m"
    and h': "h_rings h' = (h_rings h)(process_to_network m \<mapsto> r')"
  shows "account m [] (if q = 0 then [] else [(f, take q (rb_contents r))]) (tm, h, pool, n) (tm', h', pool', n')"
proof -
  have fl: "in_flight m h = rb_contents r @ capture_queue m h" "in_flight m h' = drop q (rb_contents r) @ capture_queue m h"
    using r ne h' by (simp_all add: in_flight_def network_queue_def capture_queue_def)
  have "subseq (take q (rb_contents r) @ drop q (rb_contents r) @ capture_queue m h) (rb_contents r @ capture_queue m h)"
    by (metis append_assoc append_take_drop_id subseq_order.refl)
  then show ?thesis using st q fl
    by (cases f) (auto simp: chunk_samples_def chunk_bytes_def chunk_errors_def fate_count_def min_absorb2 simp del: length_rb_contents)
qed

lemma send_sys:
  assumes inv: "sys_inv L bm m (tm, h, pool, n)" and c: "tm_tcp_client tm = Some c" "connected c"
    and send: "posix_send api wire" and mb: "\<forall>i. room_or_null (malloc_block i)" and len: "length xs = 256"
  shows "\<exists>s' ps. send_samples api malloc_block xs now (process_to_network m) (tm, h, pool, n) = Some s'
    \<and> sys_inv L bm m s' \<and> account m [] ps (tm, h, pool, n) s'"
proof -
  let ?b = "process_to_network m"
  have i: "tm_up bm tm" "heap_up (tm_self tm) bm m h" "adc_ok m tm" "pool_ok pool"
    "balance L (tm_self tm) bm m (extras tm) h" using inv by simp_all
  note up = heap_upD [OF i(2)]
  obtain r where r: "h_rings h ?b = Some r" "rb_wf r" using up(7) by blast
  define q where "q = min (unat SAMPLES_PER_BLOCK) (length (rb_contents r))"
  have len': "length xs = unat SAMPLES_PER_BLOCK" using len by (simp add: block_room_spb)
  obtain r' pool' c' n' f where s: "rb_wf r'" "rb_block r' = rb_block r" "rb_contents r' = drop q (rb_contents r)" "pool_ok pool'"
    "tc_self c' = tc_self c" "send_buffer c' = send_buffer c"
    "send_samples api malloc_block xs now ?b (tm, h, pool, n)
      = Some (tm\<lparr>tm_tcp_client := Some c', tm_stats := if q = 0 then tm_stats tm else fate_count f q (tm_stats tm)\<rparr>,
              h\<lparr>h_rings := (h_rings h)(?b \<mapsto> r')\<rparr>, pool', n')"
    using send_samples_any [where malloc_block = malloc_block, OF r i(4) mb len' c send q_def] by blast
  let ?tm = "tm\<lparr>tm_tcp_client := Some c', tm_stats := if q = 0 then tm_stats tm else fate_count f q (tm_stats tm)\<rparr>"
  let ?h = "h\<lparr>h_rings := (h_rings h)(?b \<mapsto> r')\<rparr>"
  have same: "same_blocks h ?h" by (rule same_blocks_update [OF r(1) s(2)])
  have hu: "heap_up (tm_self tm) bm m ?h" by (rule heap_up_rings [OF i(2) same]) (use s(1) in auto)
  have "extras ?tm = extras tm" using c(1) s(5,6) by (simp add: extras_def)
  then have "sys_inv L bm m (?tm, ?h, pool', n')"
    using i hu s(4) balance_same [OF same, of L "tm_self tm" bm m "extras tm"] by simp
  moreover have "account m [] (if q = 0 then [] else [(f, take q (rb_contents r))]) (tm, h, pool, n) (?tm, ?h, pool', n')"
    by (rule account_chunk [OF _ r(1) s(3) _ up(5)]) (simp_all add: q_def del: length_rb_contents)
  ultimately show ?thesis using s(7) by blast
qed

lemma sys_inv_client:
  assumes "sys_inv L bm m (tm, h, pool, n)" "tm_tcp_client tm = Some c" "tc_self c' = tc_self c" "send_buffer c' = send_buffer c"
  shows "sys_inv L bm m (tm\<lparr>tm_tcp_client := Some c'\<rparr>, h, pool, n')"
proof -
  have "extras (tm\<lparr>tm_tcp_client := Some c'\<rparr>) = extras tm" using assms(2-4) by (simp add: extras_def)
  then show ?thesis using assms(1) by simp
qed

text \<open>With a client, connected or not.\<close>

definition client_round ::
  "'n socket_api \<Rightarrow> (nat \<Rightarrow> data_block_t option) \<Rightarrow> adc_sample_t list \<Rightarrow> u64 \<Rightarrow> buffer_manager_t \<Rightarrow> tcp_client
     \<Rightarrow> 'n pipe_state \<Rightarrow> 'n pipe_state option" where
  "client_round api malloc_block xs now m c = (\<lambda>(tm, h, pool, n).
     if tcp_client_is_connected (Some c) then send_samples api malloc_block xs now (process_to_network m) (tm, h, pool, n)
     else (case tcp_client_connect api (Some c) n of (err, client, n) \<Rightarrow>
             let tm = tm\<lparr>tm_tcp_client := client\<rparr> in
             if err \<noteq> ADC_OK then Some (tm, h, pool, n)
             else send_samples api malloc_block xs now (process_to_network m) (tm, h, pool, n)))"

lemma network_with_client:
  assumes inv: "sys_inv L bm m (tm, h, pool, n)" and c: "tm_tcp_client tm = Some c"
    and send: "posix_send api wire" and mb: "\<forall>i. room_or_null (malloc_block i)" and len: "length xs = 256"
  shows "\<exists>s' ps. client_round api malloc_block xs now m c (tm, h, pool, n) = Some s'
    \<and> sys_inv L bm m s' \<and> account m [] ps (tm, h, pool, n) s'"
proof (cases "connected c")
  case True
  then show ?thesis using send_sys [OF inv c _ send mb len] by (simp add: client_round_def tcp_client_is_connected_def)
next
  case False
  obtain err client n' where con: "tcp_client_connect api (Some c) n = (err, client, n')" by (metis prod_cases3)
  obtain c' where c': "client = Some c'" "tc_self c' = tc_self c" "send_buffer c' = send_buffer c" "err = ADC_OK \<longrightarrow> connected c'"
    by (rule tcp_connect_keeps [OF con])
  let ?tm = "tm\<lparr>tm_tcp_client := Some c'\<rparr>"
  have inv': "sys_inv L bm m (?tm, h, pool, n')" by (rule sys_inv_client [OF inv c c'(2,3)])
  have idle: "account m [] [] (tm, h, pool, n) (?tm, h, pool, n')" by (rule account_idle) simp_all
  show ?thesis
  proof (cases "err = ADC_OK")
    case True
    then obtain s' ps where "send_samples api malloc_block xs now (process_to_network m) (?tm, h, pool, n') = Some s'"
      "sys_inv L bm m s'" "account m [] ps (?tm, h, pool, n') s'"
      using send_sys [OF inv' _ _ send mb len, of c' now] c'(4) by auto
    then show ?thesis using False True con c'(1) account_trans [OF idle, of "[]" ps s']
      by (auto simp: client_round_def tcp_client_is_connected_def)
  next
    case not_ok: False
    then show ?thesis using False con c'(1) inv' idle by (auto simp: client_round_def tcp_client_is_connected_def simp del: account.simps sys_inv.simps)
  qed
qed

lemma network_new_client:
  assumes inv: "sys_inv L bm m (tm, h, pool, n)" and none: "tm_tcp_client tm = None"
    and send: "posix_send api wire" and mb: "\<forall>i. room_or_null (malloc_block i)" and len: "length xs = 256"
  shows "\<exists>s' ps. network_thread_worker api alloc_ok malloc_block xs now (tm, h, pool, n) = Some s'
    \<and> sys_inv L bm m s' \<and> account m [] ps (tm, h, pool, n) s'"
proof -
  have i: "tm_up bm tm" "heap_up (tm_self tm) bm m h" "adc_ok m tm" "pool_ok pool"
    "balance L (tm_self tm) bm m (extras tm) h" using inv by simp_all
  have bm: "tm_buffer_manager tm = bm" using i(1) by (simp add: tm_up_def)
  note up = heap_upD [OF i(2)]
  obtain cfg where cfg: "tcp_config_get_default (Some zero_config) = Some cfg" by (simp add: tcp_config_get_default_def)
  obtain client h' where cr: "tcp_client_create alloc_ok h (Some cfg) = Some (client, h')" "heap_up (tm_self tm) bm m h'"
    "h_rings h' = h_rings h" "case client of None \<Rightarrow> balance L (tm_self tm) bm m (extras tm) h'
       | Some c \<Rightarrow> balance L (tm_self tm) bm m (insert (tc_self c) (insert (send_buffer c) (extras tm))) h'"
    using tcp_create_law [OF i(2,5), of alloc_ok cfg] by blast
  note def = network_thread_worker_def thread_manager_get_tcp_client_def thread_manager_set_tcp_client_def
  show ?thesis
  proof (cases client)
    case None
    have "tm\<lparr>tm_tcp_client := None\<rparr> = tm" using none by (cases tm) simp
    then have "network_thread_worker api alloc_ok malloc_block xs now (tm, h, pool, n) = Some (tm, h', pool, n)"
      using None none cr(1) cfg up bm by (simp add: def)
    moreover have "sys_inv L bm m (tm, h', pool, n)" using i cr(2,4) None by simp
    ultimately show ?thesis using account_idle [OF cr(3), of tm tm m pool n pool n] by blast
  next
    case (Some c)
    let ?tm = "tm\<lparr>tm_tcp_client := Some c\<rparr>"
    have "extras ?tm = insert (tc_self c) (insert (send_buffer c) (extras tm))" using none by (auto simp: extras_def)
    then have inv': "sys_inv L bm m (?tm, h', pool, n)" using i cr(2,4) Some by simp
    obtain s' ps where s: "client_round api malloc_block xs now m c (?tm, h', pool, n) = Some s'"
      "sys_inv L bm m s'" "account m [] ps (?tm, h', pool, n) s'"
      using network_with_client [OF inv' _ send mb len, of c now] by auto
    have "network_thread_worker api alloc_ok malloc_block xs now (tm, h, pool, n) = Some s'"
      using none Some cr(1) cfg up bm s(1) by (simp add: def client_round_def)
    moreover have "account m [] [] (tm, h, pool, n) (?tm, h', pool, n)" by (rule account_idle [OF cr(3)]) simp
    from account_trans [OF this s(3)] have "account m [] ps (tm, h, pool, n) s'" by simp
    ultimately show ?thesis using s(2) by blast
  qed
qed

lemma network_sys:
  assumes inv: "sys_inv L bm m (tm, h, pool, n)"
    and send: "posix_send api wire" and mb: "\<forall>i. room_or_null (malloc_block i)" and len: "length xs = 256"
  shows "\<exists>s' ps. network_thread_worker api alloc_ok malloc_block xs now (tm, h, pool, n) = Some s'
    \<and> sys_inv L bm m s' \<and> account m [] ps (tm, h, pool, n) s'"
proof (cases "tm_tcp_client tm")
  case None
  then show ?thesis by (rule network_new_client [OF inv _ send mb len])
next
  case (Some c)
  have i: "tm_up bm tm" "heap_up (tm_self tm) bm m h" using inv by simp_all
  have bm: "tm_buffer_manager tm = bm" using i(1) by (simp add: tm_up_def)
  note up = heap_upD [OF i(2)]
  have self: "tm\<lparr>tm_tcp_client := Some c\<rparr> = tm" using Some by (cases tm) simp
  obtain s' ps where s: "client_round api malloc_block xs now m c (tm, h, pool, n) = Some s'"
    "sys_inv L bm m s'" "account m [] ps (tm, h, pool, n) s'"
    using network_with_client [OF inv Some send mb len, of now] by auto
  have "network_thread_worker api alloc_ok malloc_block xs now (tm, h, pool, n) = Some s'"
    using Some up bm s(1)
    by (simp add: network_thread_worker_def thread_manager_get_tcp_client_def thread_manager_set_tcp_client_def client_round_def self
        split: if_splits)
  then show ?thesis using s(2,3) by blast
qed

section \<open>Events\<close>

lemma exec_worker_sys:
  assumes inv: "sys_inv L bm m s" and w: "w \<in> {capture_worker, process_worker, network_worker}"
    and send: "posix_send api wire" and mb: "\<forall>i. room_or_null (malloc_block i)" and len: "length (ie_stack e) = 256"
  shows "\<exists>s' ps. exec_worker api malloc_block user e w s = Some s' \<and> sys_inv L bm m s' \<and> account m [] ps s s'"
proof -
  obtain tm h pool n where s: "s = (tm, h, pool, n)" by (metis prod_cases4)
  note inv' = inv [unfolded s]
  consider "w = capture_worker" | "w = process_worker" | "w = network_worker" using w by blast
  then show ?thesis
  proof cases
    case 1
    obtain tm' h' where "capture_thread_worker (ie_alloc_ok e) (ie_pthread1 e) (ie_pthread2 e) (ie_now1 e) (ie_now2 e) (tm, h)
        = Some (tm', h')" "sys_inv L bm m (tm', h', pool, n)" "account m [] [] (tm, h, pool, n) (tm', h', pool, n)"
      using capture_sys [OF inv'] by blast
    then show ?thesis unfolding 1 s by (intro exI [of _ "(tm', h', pool, n)"] exI [of _ "[]"]) simp
  next
    case 2
    obtain tm' h' where "process_thread_worker (ie_stack e) (tm, h) = Some (tm', h')"
      "sys_inv L bm m (tm', h', pool, n)" "account m [] [] (tm, h, pool, n) (tm', h', pool, n)"
      using process_sys [OF inv' len] by blast
    then show ?thesis unfolding 2 s by (intro exI [of _ "(tm', h', pool, n)"] exI [of _ "[]"]) simp
  next
    case 3
    then show ?thesis unfolding s using network_sys [OF inv' send mb len] by simp
  qed
qed

lemma sys_inv_thread_stats:
  "sys_inv L bm m (tm, x) \<Longrightarrow> sys_inv L bm m (tm\<lparr>tm_thread_stats := (tm_thread_stats tm)[i := y]\<rparr>, x)"
  by (cases x) (simp add: tm_up_def tm_wf_def adc_ok_def extras_def)

lemma account_thread_stats: "account m xs ps s (tm\<lparr>tm_thread_stats := y\<rparr>, x) = account m xs ps s (tm, x)"
  by (cases s; cases x) simp

lemma account_refl: "account m [] [] s s"
  by (cases s) simp

lemma iterate_sys:
  assumes inv: "sys_inv L bm m (tm, x)" and i: "i < THREAD_COUNT"
    and send: "posix_send api wire" and mb: "\<forall>i. room_or_null (malloc_block i)" and len: "length (ie_stack e) = 256"
  shows "\<exists>s' ps. wrapper_iteration (exec_worker api malloc_block user e) i c0 c1 (tm, x) = Some s'
    \<and> sys_inv L bm m s' \<and> account m [] ps (tm, x) s'"
proof (cases "tm_paused tm \<or> tm_states tm ! i \<noteq> THREAD_STATE_RUNNING")
  case True
  then have "wrapper_iteration (exec_worker api malloc_block user e) i c0 c1 (tm, x) = Some (tm, x)"
    by (auto simp: wrapper_iteration_def)
  then show ?thesis using inv account_refl by blast
next
  case False
  have wf: "length (tm_contexts tm) = THREAD_COUNT" "map ctx_worker (tm_contexts tm) = main_workers"
    using inv by (cases x; simp add: tm_up_def tm_wf_def)+
  then have "ctx_worker (tm_contexts tm ! i) = main_workers ! i" using i by (metis nth_map)
  moreover have "i = 0 \<or> i = 1 \<or> i = 2" using i by (auto simp: THREAD_COUNT_def)
  ultimately obtain w where w: "ctx_worker (tm_contexts tm ! i) = Some w" "w \<in> {capture_worker, process_worker, network_worker}"
    by (auto simp: main_workers_def)
  obtain tm' x' ps where s: "exec_worker api malloc_block user e w (tm, x) = Some (tm', x')" "sys_inv L bm m (tm', x')"
    "account m [] ps (tm, x) (tm', x')"
    using exec_worker_sys [OF inv w(2) send mb len, of user] by (metis surj_pair)
  then show ?thesis using False w(1) sys_inv_thread_stats [OF s(2)]
    by (simp add: wrapper_iteration_def Let_def account_thread_stats del: sys_inv.simps account.simps) blast
qed

lemma sys_exec_law:
  assumes inv: "sys_inv L bm m s" and ok: "event_ok ev"
    and send: "posix_send api wire" and mb: "\<forall>i. room_or_null (malloc_block i)"
  shows "\<exists>xs s' ps. sys_exec api malloc_block user ev s = Some (xs, s') \<and> sys_inv L bm m s' \<and> account m xs ps s s'"
proof -
  obtain tm h pool n where s: "s = (tm, h, pool, n)" by (metis prod_cases4)
  note inv' = inv [unfolded s]
  have run: "tm_running tm" using inv' by (simp add: tm_up_def)
  show ?thesis
  proof (cases ev)
    case (Iterate i e)
    obtain s' ps where "wrapper_iteration (exec_worker api malloc_block user e) i (ie_start_cycles e) (ie_end_cycles e)
        (tm, h, pool, n) = Some s'" "sys_inv L bm m s'" "account m [] ps (tm, h, pool, n) s'"
      using iterate_sys [OF inv' _ send mb, of i e user "ie_start_cycles e" "ie_end_cycles e"] ok unfolding Iterate
      by (auto simp del: sys_inv.simps account.simps)
    then show ?thesis using run unfolding s Iterate by (auto simp del: sys_inv.simps account.simps)
  next
    case (Adc_Sample x)
    note idle = account_refl [of m "(tm, h, pool, n)"]
    show ?thesis
    proof (cases "tm_adc tm")
      case None
      then have "sys_exec api malloc_block user ev s = Some ([], s)" unfolding s Adc_Sample by simp
      then show ?thesis using inv account_refl by blast
    next
      case (Some a)
      then have cb: "adc_callback a = Some (ring_callback m)" using inv' by (simp add: adc_ok_def)
      obtain h' st where cb': "ring_callback m (Some (h, tm_stats tm)) x = Some (h', st)"
        "sys_inv L bm m (tm\<lparr>tm_stats := st\<rparr>, h', pool, n)"
        "account m [x] [] (tm, h, pool, n) (tm\<lparr>tm_stats := st\<rparr>, h', pool, n)"
        using sample_sys [OF inv', of x] by blast
      show ?thesis
      proof (cases "adc_thread a")
        case True
        then have "sys_exec api malloc_block user ev s = Some ([x], tm\<lparr>tm_stats := st\<rparr>, h', pool, n)"
          using Some cb cb'(1) unfolding s Adc_Sample by simp
        then show ?thesis using cb'(2,3) unfolding s by blast
      next
        case False
        then have "sys_exec api malloc_block user ev s = Some ([], s)" using Some unfolding s Adc_Sample by simp
        then show ?thesis using inv account_refl by blast
      qed
    qed
  qed
qed

lemma sys_run_law:
  assumes send: "posix_send api wire" and mb: "\<forall>i. room_or_null (malloc_block i)"
  shows "sys_inv L bm m s \<Longrightarrow> list_all event_ok evs \<Longrightarrow>
    \<exists>xs s' ps. sys_run api malloc_block user evs s = Some (xs, s') \<and> sys_inv L bm m s' \<and> account m xs ps s s'"
proof (induction evs arbitrary: s)
  case Nil
  then show ?case using account_refl by (metis sys_run.simps(1))
next
  case (Cons ev evs)
  obtain xs s1 ps where 1: "sys_exec api malloc_block user ev s = Some (xs, s1)" "sys_inv L bm m s1" "account m xs ps s s1"
    using sys_exec_law [OF Cons.prems(1) _ send mb, of ev user] Cons.prems(2) by auto
  obtain ys s2 qs where 2: "sys_run api malloc_block user evs s1 = Some (ys, s2)" "sys_inv L bm m s2" "account m ys qs s1 s2"
    using Cons.IH [OF 1(2)] Cons.prems(2) by auto
  have "sys_run api malloc_block user (ev # evs) s = Some (xs @ ys, s2)" using 1(1) 2(1) by simp
  then show ?case using 2(2) account_trans [OF 1(3) 2(3)] by blast
qed

text \<open>A system that has just come up satisfies the invariant.\<close>

lemma system_up_inv:
  assumes up: "system_up h0 h bm t m" and pool: "pool_ok pool"
  shows "sys_inv (h_live h0) bm m (t, h, pool, n)"
proof -
  have own: "owned h bm t m" "tm_wf t" "tm_running t" "tm_buffer_manager t = bm" "bm \<noteq> 0" "tm_adc t = None"
    "tm_tcp_client t = None" "map ctx_worker (tm_contexts t) = main_workers"
    "distinct [capture_to_process m, process_to_network m, network_pool m]"
    "\<forall>a\<in>manager_rings m. a \<noteq> 0 \<and> empty_ring_at h (2 ^ 14) a"
    "h_live h - {tm_self t} - (\<Union>a\<in>manager_rings m. ring_blocks h a) - {bm} = h_live h0"
    using up unfolding system_up_def by blast+
  have rings: "\<exists>r. h_rings h a = Some r \<and> rb_wf r" if "a \<in> manager_rings m" for a
    using own(10) that by (auto simp: empty_ring_at_def split: option.splits)
  have "heap_up (tm_self t) bm m h"
    using own rings unfolding heap_up_def owned_def by blast
  moreover have "balance (h_live h0) (tm_self t) bm m {} h"
    using own(11) unfolding balance_def core_blocks_def by auto
  moreover have "extras t = {}" using own(6,7) by (simp add: extras_def)
  ultimately show ?thesis using own pool by (simp add: tm_up_def adc_ok_def)
qed

end
