(* ===== verification/Ring_Tests.thy ===== *)
theory Ring_Tests
  imports System_Run Ring_Properties
begin

text \<open>
  The unit tests of the ring buffer, \<^verbatim>\<open>tests/test_ring_buffer.c\<close>, run on the model. A test
  either ends, or stops at the line of the first assertion that fails; undefined behaviour is
  \<^term>\<open>None\<close>. Arrays and variables that a test does not initialise hold arbitrary values, the
  parameter \<open>junk\<close>. Progress messages are left out, and so is \<^verbatim>\<open>test_performance\<close>, which
  asserts nothing but the allocation.
\<close>

section \<open>The tests\<close>

type_synonym 'a test = "(nat + 'a) option"

definition assert_at :: "nat \<Rightarrow> bool \<Rightarrow> 'a test \<Rightarrow> 'a test" where
  "assert_at line b k = (if b then k else Some (Inl line))"

lemma assert_true [simp]: "assert_at line True k = k"
  by (simp add: assert_at_def)

text \<open>Create a ring, run the body of a test on it and destroy the ring.\<close>

definition with_ring ::
  "(nat \<Rightarrow> bool) \<Rightarrow> (nat \<Rightarrow> adc_sample_t) \<Rightarrow> nat \<Rightarrow> u32 \<Rightarrow> (ring_buffer_t option \<Rightarrow> ring_buffer_t option test) \<Rightarrow> heap \<Rightarrow> heap test" where
  "with_ring alloc_ok junk line capacity body h = do {
     (rb, h) \<leftarrow> ring_buffer_create alloc_ok junk h capacity;
     assert_at line (rb \<noteq> 0) (do {
       r \<leftarrow> h_rings h rb;
       res \<leftarrow> body (Some r);
       case res of Inl l \<Rightarrow> Some (Inl l)
       | Inr rb' \<Rightarrow> do {
           r \<leftarrow> rb';
           h \<leftarrow> ring_buffer_destroy (h\<lparr>h_rings := (h_rings h)(rb \<mapsto> r)\<rparr>) rb;
           Some (Inr h)
         }
     })
   }"

text \<open>A loop that pushes samples with the given sequence numbers and counts the successes.\<close>

fun push_sequences :: "adc_sample_t \<Rightarrow> nat list \<Rightarrow> ring_buffer_t option \<Rightarrow> (nat \<times> ring_buffer_t option) option" where
  "push_sequences s [] rb = Some (0, rb)"
| "push_sequences s (i # is) rb = do {
     (ok, rb) \<leftarrow> ring_buffer_push rb (Some (s\<lparr>s_sequence := word_of_nat i\<rparr>));
     (k, rb) \<leftarrow> push_sequences s is rb;
     Some (if ok then k + 1 else k, rb)
   }"

definition basic_sample :: adc_sample_t where
  "basic_sample = \<lparr>s_timestamp = 1000, s_value = 12345, s_sequence = 1, s_channel = 0, s_flags = 0\<rparr>"

definition basic_body :: "adc_sample_t \<Rightarrow> ring_buffer_t option \<Rightarrow> ring_buffer_t option test" where
  "basic_body junk rb =
     assert_at 29 (ring_buffer_is_empty rb) (assert_at 30 (ring_buffer_count rb = 0) (do {
       (ok, rb) \<leftarrow> ring_buffer_push rb (Some basic_sample);
       assert_at 42 ok (assert_at 43 (\<not> ring_buffer_is_empty rb) (assert_at 44 (ring_buffer_count rb = 1) (do {
         (ok, rb, popped) \<leftarrow> ring_buffer_pop rb (Some junk);
         popped \<leftarrow> popped;
         assert_at 49 ok (assert_at 50 (s_timestamp popped = s_timestamp basic_sample)
         (assert_at 51 (s_value popped = s_value basic_sample) (assert_at 52 (s_sequence popped = s_sequence basic_sample)
         (assert_at 53 (ring_buffer_is_empty rb) (do {
           (_, rb) \<leftarrow> push_sequences basic_sample [0..<10] rb;
           assert_at 61 (ring_buffer_count rb = 10) (
             let rb = ring_buffer_clear rb
             in assert_at 63 (ring_buffer_is_empty rb) (Some (Inr rb)))
         })))))
       })))
     }))"

definition test_basic_operations :: "(nat \<Rightarrow> bool) \<Rightarrow> (nat \<Rightarrow> adc_sample_t) \<Rightarrow> adc_sample_t \<Rightarrow> heap \<Rightarrow> heap test" where
  "test_basic_operations alloc_ok fresh junk = with_ring alloc_ok fresh 25 1024 (basic_body junk)"

definition batch_samples :: "(nat \<Rightarrow> adc_sample_t) \<Rightarrow> adc_sample_t list" where
  "batch_samples junk = map (\<lambda>i. (junk i)\<lparr>s_sequence := word_of_nat i, s_value := word_of_nat (i * 100)\<rparr>) [0..<100]"

fun verify_batch :: "adc_sample_t list \<Rightarrow> nat list \<Rightarrow> 'a test \<Rightarrow> 'a test" where
  "verify_batch popped [] k = k"
| "verify_batch popped (i # is) k =
     assert_at 100 (s_sequence (popped ! i) = word_of_nat i)
       (assert_at 101 (s_value (popped ! i) = word_of_nat (i * 100)) (verify_batch popped is k))"

definition batch_body :: "(nat \<Rightarrow> adc_sample_t) \<Rightarrow> ring_buffer_t option \<Rightarrow> ring_buffer_t option test" where
  "batch_body junk rb = do {
     (_, rb, pushed) \<leftarrow> ring_buffer_push_batch rb (Some (batch_samples junk)) 100 (Some 0);
     assert_at 87 (pushed = Some 100) (assert_at 88 (ring_buffer_count rb = 100) (do {
       (_, rb, popped, popped_count) \<leftarrow> ring_buffer_pop_batch rb (Some (map junk [0..<50])) 50 (Some 0);
       popped \<leftarrow> popped;
       assert_at 95 (popped_count = Some 50) (assert_at 96 (ring_buffer_count rb = 50)
         (verify_batch popped [0..<50] (Some (Inr rb))))
     }))
   }"

definition test_batch_operations :: "(nat \<Rightarrow> bool) \<Rightarrow> (nat \<Rightarrow> adc_sample_t) \<Rightarrow> (nat \<Rightarrow> adc_sample_t) \<Rightarrow> heap \<Rightarrow> heap test" where
  "test_batch_operations alloc_ok fresh junk = with_ring alloc_ok fresh 75 1024 (batch_body junk)"

definition full_body :: "adc_sample_t \<Rightarrow> ring_buffer_t option \<Rightarrow> ring_buffer_t option test" where
  "full_body junk rb = do {
     (pushed, rb) \<leftarrow> push_sequences junk [0..<20] rb;
     r \<leftarrow> rb;
     assert_at 131 (int pushed = sint (rb_capacity r) - 1)
       (assert_at 132 (rb_dropped r = word_of_int (20 - int pushed)) (Some (Inr rb)))
   }"

definition test_buffer_full :: "(nat \<Rightarrow> bool) \<Rightarrow> (nat \<Rightarrow> adc_sample_t) \<Rightarrow> adc_sample_t \<Rightarrow> heap \<Rightarrow> heap test" where
  "test_buffer_full alloc_ok fresh junk = with_ring alloc_ok fresh 115 16 (full_body junk)"

definition wrap_body :: "(nat \<Rightarrow> adc_sample_t) \<Rightarrow> ring_buffer_t option \<Rightarrow> ring_buffer_t option test" where
  "wrap_body junk rb = do {
     r \<leftarrow> rb;
     assert_at 144 (rb_capacity r = 4) (do {
       let samples = map (\<lambda>i. (junk i)\<lparr>s_sequence := word_of_nat i, s_value := word_of_nat (i + 10)\<rparr>) [0..<4];
       (ok, rb, pushed) \<leftarrow> ring_buffer_push_batch rb (Some samples) 3 (Some 0);
       assert_at 153 ok (assert_at 154 (pushed = Some 3) (do {
         (ok, rb, popped, popped_count) \<leftarrow> ring_buffer_pop_batch rb (Some (map junk [0..<2])) 2 (Some 0);
         popped \<leftarrow> popped;
         assert_at 158 ok (assert_at 159 (popped_count = Some 2) (assert_at 160 (s_sequence (popped ! 0) = 0)
         (assert_at 161 (s_sequence (popped ! 1) = 1) (do {
           let samples = samples[0 := (samples ! 0)\<lparr>s_sequence := 100\<rparr>, 1 := (samples ! 1)\<lparr>s_sequence := 101\<rparr>];
           (ok, rb, pushed) \<leftarrow> ring_buffer_push_batch rb (Some samples) 2 pushed;
           assert_at 165 ok (assert_at 166 (pushed = Some 2) (do {
             (ok, rb, wrapped, popped_count) \<leftarrow> ring_buffer_pop_batch rb (Some (map junk [0..<3])) 3 popped_count;
             wrapped \<leftarrow> wrapped;
             assert_at 169 ok (assert_at 170 (popped_count = Some 3) (assert_at 171 (s_sequence (wrapped ! 0) = 2)
             (assert_at 172 (s_sequence (wrapped ! 1) = 100) (assert_at 173 (s_sequence (wrapped ! 2) = 101)
               (Some (Inr rb))))))
           }))
         }))))
       }))
     })
   }"

definition test_capacity_and_wraparound ::
  "(nat \<Rightarrow> bool) \<Rightarrow> (nat \<Rightarrow> adc_sample_t) \<Rightarrow> (nat \<Rightarrow> adc_sample_t) \<Rightarrow> heap \<Rightarrow> heap test" where
  "test_capacity_and_wraparound alloc_ok fresh junk = with_ring alloc_ok fresh 143 3 (wrap_body junk)"

text \<open>
  The check at the end of \<^verbatim>\<open>test_multithreaded\<close>, in a state of the concurrent model:
  successful pushes, successful pops and what is left.
\<close>

definition data_consistency :: "spsc \<Rightarrow> i64" where
  "data_consistency s = word_of_nat (length (sent s)) - word_of_nat (length (got s)) - ucast (ring_buffer_count (Some (ring s)))"

section \<open>Lemmas\<close>

text \<open>The state in which \<open>ring_buffer_create\<close> leaves a ring of \<open>2 ^ k\<close> slots.\<close>

definition newly_made :: "nat \<Rightarrow> ring_buffer_t \<Rightarrow> bool" where
  "newly_made k r \<longleftrightarrow> rb_wf r \<and> rb_contents r = [] \<and> rb_capacity r = 2 ^ k \<and> rb_dropped r = 0"

lemma observers:
  assumes "rb_wf r"
  shows "ring_buffer_is_empty (Some r) \<longleftrightarrow> rb_contents r = []" "ring_buffer_count (Some r) = word_of_nat (length (rb_contents r))"
proof -
  show "ring_buffer_is_empty (Some r) \<longleftrightarrow> rb_contents r = []"
    using rb_empty_iff [OF assms] by (simp add: ring_buffer_is_empty_def flip: length_0_conv)
  have "word_of_nat (unat (ring_buffer_count (Some r))) = (word_of_nat (rb_len r) :: u32)" using unat_count [OF assms] by simp
  then show "ring_buffer_count (Some r) = word_of_nat (length (rb_contents r))" by simp
qed

lemma pop_block: "ring_buffer_pop (Some r) p = Some (ok, Some r', q) \<Longrightarrow> rb_block r' = rb_block r"
  by (auto simp: ring_buffer_pop_def Let_def bind_eq_Some_conv split: option.splits if_splits)

lemma with_ring_law:
  assumes wf: "heap_wf h" and c: "1 \<le> k" "k \<le> 31" "ring_capacity c = Some (2 ^ k)"
    and body: "\<And>r. newly_made k r \<Longrightarrow> \<exists>r'. body (Some r) = Some (Inr (Some r')) \<and> rb_block r' = rb_block r"
  shows "\<exists>h'. with_ring (\<lambda>_. True) fresh line c body h = Some (Inr h') \<and> heap_wf h' \<and> h_live h' = h_live h"
proof -
  obtain a h1 where a: "ring_buffer_create (\<lambda>_. True) fresh h c = Some (a, h1)" "heap_wf h1"
    "a \<noteq> 0 \<Longrightarrow> fresh_in h h1 a (2 ^ k)" by (rule ring_buffer_create_law [OF wf c, of "\<lambda>_. True" fresh]) blast
  have a0: "a \<noteq> 0" using a(1) c(3) by (auto simp: ring_buffer_create_def heap_alloc_def Let_def)
  then obtain r where r: "h_rings h1 = (h_rings h)(a \<mapsto> r)" "newly_made k r" "h_live h1 = insert a (insert (rb_block r) (h_live h))"
    "a \<notin> h_live h" "rb_block r \<notin> h_live h"
    using a(3) unfolding fresh_in_def newly_made_def by blast
  obtain r' where r': "body (Some r) = Some (Inr (Some r'))" "rb_block r' = rb_block r" using body [OF r(2)] by blast
  let ?h2 = "h1\<lparr>h_rings := (h_rings h1)(a \<mapsto> r')\<rparr>"
  have "h_rings h1 a = Some r" using r(1) by simp
  then have "heap_wf ?h2" using r'(2) by (intro heap_wf_same [OF same_blocks_update a(2)])
  from ring_buffer_destroy_law [OF this, of a r'] obtain h3 where
    h3: "ring_buffer_destroy ?h2 a = Some h3" "heap_wf h3" "h_live h3 = h_live ?h2 - {a, rb_block r'}" by auto
  have "h_live h3 = h_live h" using h3(3) r(3-5) r'(2) by auto
  then show ?thesis using a(1) a0 r(1) r'(1) h3(1,2) by (simp add: with_ring_def)
qed

lemma newly_made_bound: "newly_made k r \<Longrightarrow> rb_bound r = unat (2 ^ k :: u32) - 1"
  by (simp add: newly_made_def rb_bound_def rb_size_def)

lemma push_sequences_law:
  assumes "rb_wf r"
  shows "\<exists>r'. push_sequences s is (Some r) = Some (min (length is) (rb_bound r - length (rb_contents r)), Some r')
    \<and> rb_wf r' \<and> rb_bound r' = rb_bound r \<and> rb_capacity r' = rb_capacity r \<and> rb_block r' = rb_block r
    \<and> length (rb_contents r') = min (length (rb_contents r) + length is) (rb_bound r)
    \<and> rb_dropped r' = rb_dropped r + word_of_nat (length is - (rb_bound r - length (rb_contents r)))"
  using assms
proof (induction "is" arbitrary: r)
  case Nil
  then show ?case using rbq.items_bound [of r] by simp
next
  case (Cons i "is")
  let ?x = "s\<lparr>s_sequence := word_of_nat i\<rparr>" and ?n = "length (rb_contents r)"
  obtain r1 where r1: "ring_buffer_push (Some r) (Some ?x) = Some (?n < rb_bound r, Some r1)" "rb_wf r1" "rb_bound r1 = rb_bound r"
    "rb_contents r1 = rb_contents r @ (if ?n < rb_bound r then [?x] else [])"
    "rb_dropped r1 = rb_dropped r + (if ?n < rb_bound r then 0 else 1)"
    using rbq.push_law [OF Cons.prems, of ?x] by blast
  have len: "length (rb_contents r1) = ?n + (if ?n < rb_bound r then 1 else 0)" unfolding r1(4) by simp
  have keep: "rb_block r1 = rb_block r" "rb_capacity r1 = rb_capacity r"
    using r1(1) by (auto simp: ring_buffer_push_def Let_def bind_eq_Some_conv split: if_splits)
  from Cons.IH [OF r1(2)] obtain r2 where
    r2: "push_sequences s is (Some r1) = Some (min (length is) (rb_bound r - length (rb_contents r1)), Some r2)"
    "rb_wf r2" "rb_bound r2 = rb_bound r" "rb_capacity r2 = rb_capacity r" "rb_block r2 = rb_block r"
    "length (rb_contents r2) = min (length (rb_contents r1) + length is) (rb_bound r)"
    "rb_dropped r2 = rb_dropped r1 + word_of_nat (length is - (rb_bound r - length (rb_contents r1)))"
    unfolding r1(3) keep by blast
  have bound: "?n \<le> rb_bound r" using rbq.items_bound [OF Cons.prems] .
  show ?case
  proof (cases "?n < rb_bound r")
    case True
    then show ?thesis using r1(1,5) r2 len by (intro exI [of _ r2]) (auto simp: Suc_diff_Suc simp del: length_rb_contents)
  next
    case False
    then show ?thesis using r1(1,5) r2 len bound
      by (intro exI [of _ r2]) (auto simp: add.commute add.left_commute simp del: length_rb_contents)
  qed
qed

lemma basic_body_passes:
  assumes "newly_made 10 r"
  shows "\<exists>r'. basic_body junk (Some r) = Some (Inr (Some r')) \<and> rb_block r' = rb_block r"
proof -
  have r: "rb_wf r" "rb_contents r = []" "rb_bound r = 1023" using assms newly_made_bound [OF assms] by (simp_all add: newly_made_def)
  obtain r1 where r1: "ring_buffer_push (Some r) (Some basic_sample) = Some (True, Some r1)" "rb_wf r1" "rb_bound r1 = 1023"
    "rb_contents r1 = [basic_sample]" using rbq.push_law [OF r(1), of basic_sample] r(2,3) by auto
  obtain r2 where r2: "ring_buffer_pop (Some r1) (Some junk) = Some (True, Some r2, Some basic_sample)" "rb_wf r2"
    "rb_bound r2 = 1023" "rb_contents r2 = []" using rbq.pop_law [OF r1(2), of junk] r1(3,4) by auto
  obtain k r3 where r3: "push_sequences basic_sample [0..<10] (Some r2) = Some (k, Some r3)" "rb_wf r3" "length (rb_contents r3) = 10"
    "rb_block r3 = rb_block r2" using push_sequences_law [OF r2(2), of basic_sample "[0..<10]"] r2(3,4) by auto
  have "rb_block r3 = rb_block r" using r3(4) ring_ops_block(1) [OF r1(1)] pop_block [OF r2(1)] by simp
  then show ?thesis
    using r r1 r2 r3 observers [OF r(1)] observers [OF r1(2)] observers [OF r2(2)] observers [OF r3(2)]
    by (simp add: basic_body_def ring_buffer_clear_def ring_buffer_is_empty_def del: length_rb_contents upt_rec_numeral)
qed

lemma verify_batch_passes:
  "(\<And>i. i \<in> set is \<Longrightarrow> s_sequence (popped ! i) = word_of_nat i \<and> s_value (popped ! i) = word_of_nat (i * 100))
   \<Longrightarrow> verify_batch popped is k = k"
  by (induction "is") simp_all

lemma batch_body_passes:
  assumes "newly_made 10 r"
  shows "\<exists>r'. batch_body junk (Some r) = Some (Inr (Some r')) \<and> rb_block r' = rb_block r"
proof -
  have r: "rb_wf r" "rb_contents r = []" "rb_bound r = 1023" using assms newly_made_bound [OF assms] by (simp_all add: newly_made_def)
  have len: "length (batch_samples junk) = 100" by (simp add: batch_samples_def)
  obtain ok r1 where r1: "ring_buffer_push_batch (Some r) (Some (batch_samples junk)) 100 (Some 0) = Some (ok, Some r1, Some 100)"
    "rb_wf r1" "rb_contents r1 = batch_samples junk"
    using rbq.push_batch_law [OF r(1) refl, of 100 "batch_samples junk" "Some 0"] r(2,3) len by auto
  have "min (unat (50 :: u32)) (length (rb_contents r1)) = 50" using r1(3) len by (simp del: length_rb_contents)
  from rbq.pop_batch_law [OF r1(2) this [symmetric], of "map junk [0..<50]" "Some 0"]
  obtain r2 where r2: "ring_buffer_pop_batch (Some r1) (Some (map junk [0..<50])) 50 (Some 0)
      = Some (True, Some r2, Some (take 50 (batch_samples junk)), Some 50)"
    "rb_wf r2" "rb_contents r2 = drop 50 (batch_samples junk)"
    using r1(3) by (auto simp del: upt_rec_numeral)
  have "verify_batch (take 50 (batch_samples junk)) [0..<50] k = k" for k :: "ring_buffer_t option test"
    by (rule verify_batch_passes) (simp add: batch_samples_def del: upt_rec_numeral)
  moreover have "rb_block r2 = rb_block r" using ring_ops_block(2) [OF r2(1)] ring_ops_block(3) [OF r1(1)] by simp
  ultimately show ?thesis
    using r1 r2 len observers(2) [OF r1(2)] observers(2) [OF r2(2)]
    by (simp add: batch_body_def del: length_rb_contents upt_rec_numeral)
qed

lemma full_body_passes:
  assumes "newly_made 4 r"
  shows "\<exists>r'. full_body junk (Some r) = Some (Inr (Some r')) \<and> rb_block r' = rb_block r"
proof -
  have r: "rb_wf r" "rb_contents r = []" "rb_bound r = 15" "rb_capacity r = 16" "rb_dropped r = 0"
    using assms newly_made_bound [OF assms] by (simp_all add: newly_made_def)
  obtain r1 where r1: "push_sequences junk [0..<20] (Some r) = Some (15, Some r1)" "rb_capacity r1 = 16" "rb_block r1 = rb_block r"
    "rb_dropped r1 = 5"
    using push_sequences_law [OF r(1), of junk "[0..<20]"] r(2-5) by (auto simp del: upt_rec_numeral)
  then show ?thesis by (simp add: full_body_def del: upt_rec_numeral)
qed

text \<open>A batch that fits, and a batch pop into an array of exactly its size.\<close>

lemma push_fits:
  assumes "rb_wf r" "length (rb_contents r) + unat n \<le> rb_bound r" "unat n \<le> length xs" "0 < n"
  obtains r' where "ring_buffer_push_batch (Some r) (Some xs) n (Some q) = Some (True, Some r', Some n)" "rb_wf r'"
    "rb_bound r' = rb_bound r" "rb_contents r' = rb_contents r @ take (unat n) xs" "rb_block r' = rb_block r"
proof -
  have m: "unat n = min (unat n) (rb_bound r - length (rb_contents r))" using assms(2) by simp
  from rbq.push_batch_law [OF assms(1) m assms(3), of "Some q"] obtain r' where
    r': "ring_buffer_push_batch (Some r) (Some xs) n (Some q) = Some (True, Some r', Some n)" "rb_wf r'"
    "rb_bound r' = rb_bound r" "rb_contents r' = rb_contents r @ take (unat n) xs" using assms(4) by auto
  then show ?thesis using that ring_ops_block(3) [OF r'(1)] by blast
qed

lemma pop_exact:
  assumes "rb_wf r" "unat n \<le> length (rb_contents r)" "unat n = length xs" "0 < n"
  obtains r' where "ring_buffer_pop_batch (Some r) (Some xs) n (Some q) = Some (True, Some r', Some (take (unat n) (rb_contents r)), Some n)"
    "rb_wf r'" "rb_bound r' = rb_bound r" "rb_contents r' = drop (unat n) (rb_contents r)" "rb_block r' = rb_block r"
proof -
  have m: "unat n = min (unat n) (length (rb_contents r))" "unat n \<le> length xs" "drop (unat n) xs = []"
    using assms(2,3) by simp_all
  have "0 < unat n" using assms(4) by (simp add: word_less_nat_alt)
  with rbq.pop_batch_law [OF assms(1) m(1,2), of "Some q"] m(3) obtain r' where
    r': "ring_buffer_pop_batch (Some r) (Some xs) n (Some q) = Some (True, Some r', Some (take (unat n) (rb_contents r)), Some n)"
    "rb_wf r'" "rb_bound r' = rb_bound r" "rb_contents r' = drop (unat n) (rb_contents r)" by auto
  then show ?thesis using that ring_ops_block(2) [OF r'(1)] by blast
qed

lemma wrap_body_passes:
  assumes "newly_made 2 r"
  shows "\<exists>r'. wrap_body junk (Some r) = Some (Inr (Some r')) \<and> rb_block r' = rb_block r"
proof -
  have r: "rb_wf r" "rb_contents r = []" "rb_bound r = 3" "rb_capacity r = 4"
    using assms newly_made_bound [OF assms] by (simp_all add: newly_made_def)
  let ?s = "\<lambda>i. (junk i)\<lparr>s_sequence := word_of_nat i, s_value := word_of_nat (i + 10)\<rparr>"
  let ?xs = "map ?s [0..<4]" and ?junk = "\<lambda>n. map junk [0..<n]"
  let ?ys = "?xs[0 := (?xs ! 0)\<lparr>s_sequence := 100\<rparr>, 1 := (?xs ! 1)\<lparr>s_sequence := 101\<rparr>]"
  define a b c where abc: "a = ?s 0" "b = ?s 1" "c = ?s 2"
  have xs: "?xs = [a, b, c, ?s 3]" unfolding abc by (simp add: upt_rec eval_nat_numeral)
  then have ys: "?ys = [a\<lparr>s_sequence := 100\<rparr>, b\<lparr>s_sequence := 101\<rparr>, c, ?s 3]" by simp
  obtain r1 where r1: "ring_buffer_push_batch (Some r) (Some ?xs) 3 (Some 0) = Some (True, Some r1, Some 3)" "rb_wf r1"
    "rb_bound r1 = rb_bound r" "rb_contents r1 = rb_contents r @ take (unat (3 :: u32)) ?xs" "rb_block r1 = rb_block r"
    by (rule push_fits [OF r(1), of 3 ?xs 0]) (simp_all add: r(2,3) del: length_rb_contents)
  have c1: "rb_contents r1 = [a, b, c]" unfolding r1(4) xs r(2) by simp
  obtain r2 where r2: "ring_buffer_pop_batch (Some r1) (Some (?junk 2)) 2 (Some 0)
      = Some (True, Some r2, Some (take (unat (2 :: u32)) (rb_contents r1)), Some 2)"
    "rb_wf r2" "rb_bound r2 = rb_bound r1" "rb_contents r2 = drop (unat (2 :: u32)) (rb_contents r1)" "rb_block r2 = rb_block r1"
    by (rule pop_exact [OF r1(2), of 2 "?junk 2" 0]) (simp_all add: c1 del: length_rb_contents)
  have c2: "rb_contents r2 = [c]" unfolding r2(4) c1 by simp
  obtain r3 where r3: "ring_buffer_push_batch (Some r2) (Some ?ys) 2 (Some 3) = Some (True, Some r3, Some 2)" "rb_wf r3"
    "rb_bound r3 = rb_bound r2" "rb_contents r3 = rb_contents r2 @ take (unat (2 :: u32)) ?ys" "rb_block r3 = rb_block r2"
    by (rule push_fits [OF r2(2), of 2 ?ys 3]) (simp_all add: c2 r1(3) r2(3) r(3) del: length_rb_contents)
  have c3: "rb_contents r3 = [c, a\<lparr>s_sequence := 100\<rparr>, b\<lparr>s_sequence := 101\<rparr>]" unfolding r3(4) ys c2 by simp
  obtain r4 where r4: "ring_buffer_pop_batch (Some r3) (Some (?junk 3)) 3 (Some 2)
      = Some (True, Some r4, Some (take (unat (3 :: u32)) (rb_contents r3)), Some 3)" "rb_block r4 = rb_block r3"
    by (rule pop_exact [OF r3(2), of 3 "?junk 3" 2]) (simp_all add: c3 del: length_rb_contents)
  have s: "s_sequence a = 0" "s_sequence b = 1" "s_sequence c = 2" by (simp_all add: abc)
  have blk: "rb_block r4 = rb_block r" using r1(5) r2(5) r3(5) r4(2) by simp
  show ?thesis
    using r(4) r1(1) r2(1) r3(1) r4(1) blk s unfolding c1 c3
    by (simp add: wrap_body_def Let_def del: upt_rec_numeral)
qed

lemma test_capacities:
  "ring_capacity 1024 = Some (2 ^ 10)" "ring_capacity 16 = Some (2 ^ 4)" "ring_capacity 3 = Some (2 ^ 2)"
proof -
  have "(1024 :: u32) AND 1023 = 0" "(16 :: u32) AND 15 = 0" by (simp_all flip: unat_eq_zero)
  then show "ring_capacity 1024 = Some (2 ^ 10)" "ring_capacity 16 = Some (2 ^ 4)" by (simp_all add: ring_capacity_def)
  have "(3 :: u32) AND 2 \<noteq> 0" by simp
  then show "ring_capacity 3 = Some (2 ^ 2)" by (simp add: ring_capacity_def next_power.simps)
qed

lemma quiet_consistent:
  assumes "reach r s" "rb_wf r" "rb_contents r = []"
  shows "data_consistency s = 0"
proof -
  have inv: "rb_wf (ring s)" "got s @ rb_contents (ring s) = sent s"
    using reach_inv [OF assms] by (simp_all add: spsc_inv_def)
  have "unat (ring_buffer_count (Some (ring s))) = length (rb_contents (ring s))" using unat_count [OF inv(1)] by simp
  then have "(ucast (ring_buffer_count (Some (ring s))) :: i64) = word_of_nat (length (rb_contents (ring s)))"
    by (simp only: ucast_unat)
  moreover have "length (sent s) = length (got s) + length (rb_contents (ring s))"
    unfolding inv(2) [symmetric] by simp
  ultimately show ?thesis by (simp add: data_consistency_def del: length_rb_contents)
qed

section \<open>Properties\<close>

text \<open>
  C35. The unit tests of the ring buffer pass: whatever fresh memory and uninitialised variables
  contain, with allocations that succeed each of the four tests runs to its end without undefined
  behaviour and without a failing assertion, and leaves exactly the memory allocated that was
  allocated before. The consistency check of the multi-threaded test holds in every reachable
  state of the concurrent model.
\<close>

theorem ring_unit_tests_pass:
  assumes "heap_wf h"
  shows "(\<exists>h'. test_basic_operations (\<lambda>_. True) fresh junk1 h = Some (Inr h') \<and> h_live h' = h_live h)
    \<and> (\<exists>h'. test_batch_operations (\<lambda>_. True) fresh junk h = Some (Inr h') \<and> h_live h' = h_live h)
    \<and> (\<exists>h'. test_buffer_full (\<lambda>_. True) fresh junk1 h = Some (Inr h') \<and> h_live h' = h_live h)
    \<and> (\<exists>h'. test_capacity_and_wraparound (\<lambda>_. True) fresh junk h = Some (Inr h') \<and> h_live h' = h_live h)
    \<and> (\<forall>r s. reach r s \<and> rb_wf r \<and> rb_contents r = [] \<longrightarrow> data_consistency s = 0)"
proof (intro conjI allI impI)
  show "\<exists>h'. test_basic_operations (\<lambda>_. True) fresh junk1 h = Some (Inr h') \<and> h_live h' = h_live h"
    using with_ring_law [where body = "basic_body junk1" and fresh = fresh and line = 25,
        OF assms _ _ test_capacities(1) basic_body_passes]
    by (auto simp: test_basic_operations_def)
  show "\<exists>h'. test_batch_operations (\<lambda>_. True) fresh junk h = Some (Inr h') \<and> h_live h' = h_live h"
    using with_ring_law [where body = "batch_body junk" and fresh = fresh and line = 75,
        OF assms _ _ test_capacities(1) batch_body_passes]
    by (auto simp: test_batch_operations_def)
  show "\<exists>h'. test_buffer_full (\<lambda>_. True) fresh junk1 h = Some (Inr h') \<and> h_live h' = h_live h"
    using with_ring_law [where body = "full_body junk1" and fresh = fresh and line = 115,
        OF assms _ _ test_capacities(2) full_body_passes]
    by (auto simp: test_buffer_full_def)
  show "\<exists>h'. test_capacity_and_wraparound (\<lambda>_. True) fresh junk h = Some (Inr h') \<and> h_live h' = h_live h"
    using with_ring_law [where body = "wrap_body junk" and fresh = fresh and line = 143,
        OF assms _ _ test_capacities(3) wrap_body_passes]
    by (auto simp: test_capacity_and_wraparound_def)
qed (use quiet_consistent in blast)

theorem ring_unit_tests_pass_witness:
  "(\<exists>h'. test_basic_operations (\<lambda>_. True) (\<lambda>_. blank_sample) blank_sample empty_heap = Some (Inr h') \<and> h_live h' = {})
   \<and> (\<exists>h'. test_buffer_full (\<lambda>_. True) (\<lambda>_. blank_sample) blank_sample empty_heap = Some (Inr h') \<and> h_live h' = {})
   \<and> data_consistency demo_run = 0"
proof -
  have e: "h_live empty_heap = {}" "reach fresh_ring demo_run \<and> rb_wf fresh_ring \<and> rb_contents fresh_ring = []"
    using demo_reach demo_contents(3) by (simp_all add: empty_heap_def)
  note t = ring_unit_tests_pass [OF empty_heap_wf, of "\<lambda>_. blank_sample" blank_sample "\<lambda>_. blank_sample"]
  from t [THEN conjunct2, THEN conjunct2, THEN conjunct2, THEN conjunct2, rule_format, OF e(2)] t show ?thesis by (simp add: e(1))
qed

end
