(* ===== verification/Host_Receiver.thy ===== *)
theory Host_Receiver
  imports Adc_Types
begin

text \<open>
  The receive loop of the host side, \<^verbatim>\<open>tests/test_server.c\<close>: how it splits what
  \<^verbatim>\<open>recv\<close> delivers into data blocks and what it counts.

  Socket set-up and printing are in \<open>Test_Server\<close>; \<open>sv_seen\<close> is a history variable with the blocks
  accepted so far, \<open>sv_printed\<close> those handed to \<^verbatim>\<open>print_data_block\<close>. Offsets
  and block sizes are below \<open>2 ^ 37\<close> here (the buffer has \<open>2 ^ 20\<close> bytes and a block at
  most \<open>24 + 16 * 2 ^ 32\<close>), so the 64-bit arithmetic of the source does not wrap and they are
  natural numbers.
\<close>

section \<open>The loop\<close>

record server =
  total_bytes :: u64
  total_blocks :: u64
  sv_seen :: "data_block_t list"
  sv_printed :: "data_block_t list"

definition sv_count :: "data_block_t \<Rightarrow> server \<Rightarrow> server" where
  "sv_count b sv =
     (let sv = sv\<lparr>total_blocks := total_blocks sv + 1, sv_seen := sv_seen sv @ [b]\<rparr>
      in if total_blocks sv mod 100 = 0 then sv\<lparr>sv_printed := sv_printed sv @ [b]\<rparr> else sv)"

text \<open>\<open>buf\<close> holds the \<^verbatim>\<open>received\<close> bytes that the last call stored.\<close>

function parse_blocks :: "u8 list \<Rightarrow> nat \<Rightarrow> server \<Rightarrow> server" where
  "parse_blocks buf offset sv =
     (if length buf < offset + sizeof_data_block then sv
      else let block = block_of_bytes (drop offset buf) in
        if b_magic block \<noteq> DATA_BLOCK_MAGIC then parse_blocks buf (offset + 4) sv
        else let block_size = sizeof_data_block + unat (b_sample_count block) * sizeof_adc_sample in
          if length buf < offset + block_size then sv
          else parse_blocks buf (offset + block_size) (sv_count block sv))"
  by pat_completeness auto
termination
  by (relation "measure (\<lambda>(buf, offset, sv). Suc (length buf) - offset)") (auto simp: sizeof_data_block_def)

declare parse_blocks.simps [simp del]

datatype recv_result = Received "u8 list" | Would_Block | Recv_Failed

text \<open>A run of the loop over the results of successive calls; it stops at a failure, at the end of the stream, or with the list (a signal).\<close>

fun receive_loop :: "recv_result list \<Rightarrow> server \<Rightarrow> server" where
  "receive_loop [] sv = sv"
| "receive_loop (Would_Block # rs) sv = receive_loop rs sv"
| "receive_loop (Recv_Failed # rs) sv = sv"
| "receive_loop (Received bs # rs) sv =
     (if bs = [] then sv
      else receive_loop rs (parse_blocks bs 0 (sv\<lparr>total_bytes := total_bytes sv + word_of_nat (length bs)\<rparr>)))"

section \<open>Accepting blocks\<close>

definition wire_block :: "data_block_t \<Rightarrow> bool" where
  "wire_block b \<longleftrightarrow> b_magic b = DATA_BLOCK_MAGIC \<and> unat (b_sample_count b) = length (b_samples b)"

lemma parse_step:
  assumes "wire_block b"
  shows "parse_blocks (pre @ block_bytes b @ rest) (length pre) sv
    = parse_blocks ((pre @ block_bytes b) @ rest) (length (pre @ block_bytes b)) (sv_count b sv)"
  using assms block_roundtrip [of b rest]
  by (subst parse_blocks.simps) (simp add: wire_block_def length_block_bytes Let_def)

lemma parse_all:
  assumes "list_all wire_block bs"
  shows "parse_blocks (pre @ concat (map block_bytes bs) @ rest) (length pre) sv
    = parse_blocks ((pre @ concat (map block_bytes bs)) @ rest) (length (pre @ concat (map block_bytes bs)))
        (fold sv_count bs sv)"
  using assms
proof (induction bs arbitrary: pre sv)
  case Nil
  then show ?case by simp
next
  case (Cons b bs)
  then show ?case
    using parse_step [of b pre "concat (map block_bytes bs) @ rest" sv] Cons.IH [of "pre @ block_bytes b"]
    by simp
qed

lemma fold_sv_count:
  "sv_seen (fold sv_count bs sv) = sv_seen sv @ bs"
  "total_blocks (fold sv_count bs sv) = total_blocks sv + word_of_nat (length bs)"
  "total_bytes (fold sv_count bs sv) = total_bytes sv"
  by (induction bs arbitrary: sv) (simp_all add: sv_count_def Let_def)

lemma receive_one:
  "bs \<noteq> [] \<Longrightarrow> receive_loop [Received bs] sv
     = parse_blocks bs 0 (sv\<lparr>total_bytes := total_bytes sv + word_of_nat (length bs)\<rparr>)"
  by simp

lemma parse_stop: "length buf < offset + 24 \<Longrightarrow> parse_blocks buf offset sv = sv"
  by (simp add: parse_blocks.simps sizeof_data_block_def)

lemma parse_skip:
  "offset + 24 \<le> length buf \<Longrightarrow> word_of_nat (le_dec (take 4 (drop offset buf))) \<noteq> DATA_BLOCK_MAGIC
   \<Longrightarrow> parse_blocks buf offset sv = parse_blocks buf (offset + 4) sv"
  by (subst parse_blocks.simps) (simp add: sizeof_data_block_def block_of_bytes_def Let_def)

lemma le_enc_unfold:
  "le_enc 2 x = [word_of_nat x, word_of_nat (x div 256)]"
  "le_enc 4 x = le_enc 2 x @ le_enc 2 (x div 256 div 256)"
  "le_enc 8 x = le_enc 4 x @ le_enc 4 (x div 256 div 256 div 256 div 256)"
proof -
  have n: "2 = Suc (Suc 0)" "4 = Suc (Suc (Suc (Suc 0)))" "8 = Suc (Suc (Suc (Suc (Suc (Suc (Suc (Suc 0)))))))"
    by simp_all
  show "le_enc 2 x = [word_of_nat x, word_of_nat (x div 256)]"
    "le_enc 4 x = le_enc 2 x @ le_enc 2 (x div 256 div 256)"
    "le_enc 8 x = le_enc 4 x @ le_enc 4 (x div 256 div 256 div 256 div 256)"
    by (simp_all only: n le_enc.simps append.simps)
qed

lemma receive_each:
  assumes "list_all wire_block bs"
  shows "sv_seen (receive_loop (map (\<lambda>b. Received (block_bytes b)) bs) sv) = sv_seen sv @ bs
    \<and> total_blocks (receive_loop (map (\<lambda>b. Received (block_bytes b)) bs) sv) = total_blocks sv + word_of_nat (length bs)"
  using assms
proof (induction bs arbitrary: sv)
  case Nil
  then show ?case by simp
next
  case (Cons b bs)
  have "block_bytes b \<noteq> []" using length_block_bytes [of b] by (auto simp: sizeof_data_block_def)
  moreover have "parse_blocks (block_bytes b) 0 s = sv_count b s" for s
    using parse_step [of b "[]" "[]" s] parse_stop [of "block_bytes b" "length (block_bytes b)"] Cons.prems by simp
  ultimately show ?case using Cons by (simp add: sv_count_def Let_def)
qed

text \<open>What the header says is visible in any prefix that contains it.\<close>

lemma block_prefix_header:
  assumes "24 \<le> k"
  shows "b_magic (block_of_bytes (take k (block_bytes b) )) = b_magic b"
    "b_sample_count (block_of_bytes (take k (block_bytes b))) = b_sample_count b"
proof -
  obtain j where k: "k = 24 + j" using assms le_Suc_ex by blast
  have "take k (block_bytes b) = le_enc 4 (unat (b_magic b)) @ le_enc 4 (unat (b_version b))
     @ le_enc 4 (unat (b_sequence b)) @ le_enc 4 (unat (b_sample_count b))
     @ le_enc 8 (unat (b_timestamp b)) @ take j (concat (map sample_bytes (b_samples b)))"
    by (simp add: block_bytes_def k)
  then show "b_magic (block_of_bytes (take k (block_bytes b))) = b_magic b"
    "b_sample_count (block_of_bytes (take k (block_bytes b))) = b_sample_count b"
    by (simp_all add: block_of_bytes_def Let_def)
qed

lemma parse_incomplete:
  assumes "wire_block b" "k < length (block_bytes b)"
  shows "parse_blocks (pre @ take k (block_bytes b)) (length pre) sv = sv"
proof (cases "k < 24")
  case True
  then show ?thesis by (subst parse_blocks.simps) (simp add: sizeof_data_block_def)
next
  case False
  then show ?thesis using assms block_prefix_header [of k b]
    by (subst parse_blocks.simps) (simp add: wire_block_def length_block_bytes Let_def)
qed

section \<open>Properties\<close>

text \<open>
  C15. When one call of \<^verbatim>\<open>recv\<close> delivers whole blocks, possibly followed by the beginning
  of a further one, the receive loop ends and accepts exactly the whole blocks, in order, with every
  field and sample as sent, and counts them and the bytes.
\<close>

theorem receiver_accepts_blocks:
  assumes "list_all wire_block bs" "wire_block b" "k < length (block_bytes b)" "bs \<noteq> []"
  shows "let sv' = receive_loop [Received (concat (map block_bytes bs) @ take k (block_bytes b))] sv in
      sv_seen sv' = sv_seen sv @ bs \<and> total_blocks sv' = total_blocks sv + word_of_nat (length bs)
    \<and> total_bytes sv' = total_bytes sv + word_of_nat (length (concat (map block_bytes bs)) + k)"
proof -
  let ?all = "concat (map block_bytes bs)"
  have "block_bytes x \<noteq> []" for x using length_block_bytes [of x] by (auto simp: sizeof_data_block_def)
  then have "?all @ take k (block_bytes b) \<noteq> []" using assms(4) by (cases bs) auto
  note one = receive_one [OF this]
  have "parse_blocks (?all @ take k (block_bytes b)) 0 s = fold sv_count bs s" for s
    using parse_all [OF assms(1), of "[]" "take k (block_bytes b)" s] parse_incomplete [OF assms(2,3), of ?all]
    by simp
  moreover have "length (take k (block_bytes b)) = k" using assms(3) by simp
  ultimately show ?thesis unfolding one Let_def by (simp add: fold_sv_count)
qed

definition host_block :: data_block_t where
  "host_block = \<lparr>b_magic = DATA_BLOCK_MAGIC, b_version = 1, b_sequence = 0, b_sample_count = 1, b_timestamp = 5,
     b_samples = [\<lparr>s_timestamp = 1, s_value = 2, s_sequence = 3, s_channel = 0, s_flags = 0\<rparr>]\<rparr>"

definition idle_server :: server where
  "idle_server = \<lparr>total_bytes = 0, total_blocks = 0, sv_seen = [], sv_printed = []\<rparr>"

theorem receiver_accepts_blocks_witness:
  "sv_seen (receive_loop [Received (block_bytes host_block @ take 30 (block_bytes host_block))] idle_server) = [host_block]"
proof -
  have w: "wire_block host_block" "30 < length (block_bytes host_block)"
    unfolding length_block_bytes
    by (simp_all add: wire_block_def host_block_def sizeof_data_block_def sizeof_adc_sample_def)
  from receiver_accepts_blocks [OF _ w, of "[host_block]" idle_server] w show ?thesis
    by (simp add: Let_def idle_server_def del: receive_loop.simps)
qed

text \<open>
  C16. The receive loop does not reassemble: the incomplete block at the end of a delivery is
  forgotten, although a comment in the loop says that it waits for more data. For every valid block
  and every split of its bytes, the first part alone adds no block, and there is a block that is
  counted when its 40 bytes arrive together and never counted when they arrive in two parts.
\<close>

theorem receiver_loses_split_blocks:
  assumes "wire_block b" "0 < k" "k < length (block_bytes b)"
  shows "sv_seen (receive_loop [Received (take k (block_bytes b))] sv) = sv_seen sv
   \<and> sv_seen (receive_loop [Received (block_bytes host_block)] idle_server) = [host_block]
   \<and> sv_seen (receive_loop [Received (take 10 (block_bytes host_block)), Received (drop 10 (block_bytes host_block))]
        idle_server) = []"
proof (intro conjI)
  have "take k (block_bytes b) \<noteq> []" using assms by auto
  with assms show "sv_seen (receive_loop [Received (take k (block_bytes b))] sv) = sv_seen sv"
    using parse_incomplete [of b k "[]"] by simp
next
  have "wire_block host_block" by (simp add: wire_block_def host_block_def)
  moreover have "block_bytes host_block \<noteq> []" using length_block_bytes [of host_block] by (auto simp: sizeof_data_block_def)
  ultimately show "sv_seen (receive_loop [Received (block_bytes host_block)] idle_server) = [host_block]"
    using parse_step [of host_block "[]" "[]"]
    by (simp add: parse_blocks.simps [of _ "length _"] sv_count_def idle_server_def Let_def sizeof_data_block_def)
next
  have p: "block_bytes host_block = [122, 218, 192, 173, 1, 0, 0, 0, 0, 0, 0, 0, 1, 0, 0, 0, 5, 0, 0, 0, 0, 0, 0, 0,
      1, 0, 0, 0, 2, 0, 0, 0, 3, 0, 0, 0, 0, 0, 0, 0]"
    by (simp add: host_block_def block_bytes_def sample_bytes_def DATA_BLOCK_MAGIC_def le_enc_unfold)
  show "sv_seen (receive_loop [Received (take 10 (block_bytes host_block)), Received (drop 10 (block_bytes host_block))]
        idle_server) = []"
    unfolding p
    by (simp add: parse_stop parse_skip idle_server_def DATA_BLOCK_MAGIC_def)
qed

theorem receiver_loses_split_blocks_witness:
  "sv_seen (receive_loop [Received (take 30 (block_bytes host_block))] idle_server) = []
   \<and> sv_seen (receive_loop [Received (take 10 (block_bytes host_block)), Received (drop 10 (block_bytes host_block))]
        idle_server) = []"
proof -
  have "wire_block host_block" "(0::nat) < 30" "30 < length (block_bytes host_block)"
    unfolding length_block_bytes
    by (simp_all add: wire_block_def host_block_def sizeof_data_block_def sizeof_adc_sample_def)
  from receiver_loses_split_blocks [OF this, of idle_server] show ?thesis
    by (simp add: idle_server_def del: receive_loop.simps)
qed

end
