(* ===== verification/Test_Server.thy ===== *)
theory Test_Server
  imports Host_Receiver Output
begin

text \<open>
  The host program of \<^verbatim>\<open>tests/test_server.c\<close> from its start to its return value
  (POSIX branch): opening the listening socket, accepting one client, the receive loop of
  \<open>Host_Receiver\<close> around calls of \<^verbatim>\<open>recv\<close>, the statistics it prints and the
  clean-up.

  The socket calls of the client side are those of \<open>Tcp_Client\<close>, the parameter \<open>api\<close>; the calls
  that only a server makes are the parameter \<open>lapi\<close> with the contract \<open>posix_listen\<close>. The lines
  written by \<^verbatim>\<open>printf\<close> are part of the result, the log messages are left out.
\<close>

section \<open>The server's socket calls\<close>

text \<open>
  \<open>la_reuse\<close> is \<^verbatim>\<open>setsockopt\<close> with \<^verbatim>\<open>SO_REUSEADDR\<close>. The address that
  \<^verbatim>\<open>accept\<close> stores is only used for a log message.
\<close>

record 'n listen_api =
  la_reuse :: "'n \<Rightarrow> int \<Rightarrow> i32 \<Rightarrow> 'n"
  la_bind :: "'n \<Rightarrow> int \<Rightarrow> sockaddr_in \<Rightarrow> int \<times> 'n"
  la_listen :: "'n \<Rightarrow> int \<Rightarrow> int \<Rightarrow> int \<times> 'n"
  la_accept :: "'n \<Rightarrow> int \<Rightarrow> int \<times> 'n"

definition posix_listen :: "'n listen_api \<Rightarrow> ('n \<Rightarrow> int set) \<Rightarrow> bool" where
  "posix_listen lapi fds \<longleftrightarrow>
     (\<forall>n fd v. fds (la_reuse lapi n fd v) = fds n)
     \<and> (\<forall>n fd a. fds (snd (la_bind lapi n fd a)) = fds n)
     \<and> (\<forall>n fd k. fds (snd (la_listen lapi n fd k)) = fds n)
     \<and> (\<forall>n l fd n'. la_accept lapi n l = (fd, n') \<longrightarrow>
          (if fd < 0 then fds n' = fds n else fd \<notin> fds n \<and> fds n' = insert fd (fds n)))"

definition SERVER_PORT :: u16 where "SERVER_PORT = 8080"
definition BUFFER_SIZE :: u64 where "BUFFER_SIZE = 1024 * 1024"
definition INADDR_ANY :: u32 where "INADDR_ANY = 0"

section \<open>Printing a block\<close>

text \<open>The conversion \<^verbatim>\<open>%08X\<close> of \<^verbatim>\<open>printf\<close>.\<close>

definition hex_digit :: "nat \<Rightarrow> char" where
  "hex_digit d = (if d < 10 then char_of (48 + d) else char_of (55 + d))"

definition fmt_08X :: "u32 \<Rightarrow> string" where
  "fmt_08X x = map (\<lambda>i. hex_digit (unat x div 16 ^ i mod 16)) (rev [0..<8])"

definition sample_line :: "nat \<times> adc_sample_t \<Rightarrow> string" where
  "sample_line = (\<lambda>(i, s). ''    ['' @ dec i @ ''] seq='' @ fmt_u (s_sequence s) @ '', ts='' @ fmt_u (s_timestamp s)
     @ '', val='' @ dec_int (sint (s_value s)))"

text \<open>Reading a sample past those the block has is undefined.\<close>

definition print_data_block :: "data_block_t \<Rightarrow> string list option" where
  "print_data_block block =
     (if b_magic block \<noteq> DATA_BLOCK_MAGIC
      then Some [''Warning: Magic number mismatch! Expected: 0x'' @ fmt_08X DATA_BLOCK_MAGIC @ '', Actual: 0x''
              @ fmt_08X (b_magic block)]
      else do {
        let first = ''Data Block #'' @ fmt_u (b_sequence block) @ '': samples='' @ fmt_u (b_sample_count block)
              @ '', timestamp='' @ fmt_u (b_timestamp block);
        if b_sample_count block > 0
        then do {
          ss \<leftarrow> mem_read (b_samples block) 0 (min (unat (b_sample_count block)) 3);
          Some (first # ''  First 3 samples:'' # map sample_line (enumerate 0 ss))
        }
        else Some [first]
      })"

definition print_blocks :: "data_block_t list \<Rightarrow> string list option" where
  "print_blocks bs = map_option concat (those (map print_data_block bs))"

section \<open>Statistics\<close>

definition seconds_between :: "u64 \<Rightarrow> u64 \<Rightarrow> real" where
  "seconds_between start now = real (unat (now - start)) / 1000"

definition rate_kbps :: "server \<Rightarrow> real \<Rightarrow> real" where
  "rate_kbps sv elapsed = real (unat (total_bytes sv)) * 8 / 1000 / elapsed"

definition count_lines :: "server \<Rightarrow> real \<Rightarrow> string list" where
  "count_lines sv elapsed =
     [''Total bytes: '' @ fmt_u (total_bytes sv),
      ''Total blocks: '' @ fmt_u (total_blocks sv),
      ''Running time: '' @ fmt_fixed 1 elapsed @ '' sec'']"

definition rate_line :: "real \<Rightarrow> string" where
  "rate_line rate = ''Average rate: '' @ fmt_fixed 2 rate @ '' Kbps ('' @ fmt_fixed 2 (rate / 8) @ '' KB/s)''"

definition periodic_stats :: "server \<Rightarrow> real \<Rightarrow> string list" where
  "periodic_stats sv elapsed =
     ['''', ''========== Receive Statistics ==========''] @ count_lines sv elapsed
     @ [rate_line (rate_kbps sv elapsed), ''========================================'']"

definition final_stats :: "server \<Rightarrow> real \<Rightarrow> string list" where
  "final_stats sv elapsed =
     ['''', ''========== Final Statistics ==========''] @ count_lines sv elapsed
     @ (if elapsed > 0 then [rate_line (rate_kbps sv elapsed)] else [])
     @ [''========================================'']"

section \<open>The receive loop\<close>

record serving =
  sg_server :: server
  last_stats_time :: u64
  sg_out :: "string list"

text \<open>
  One pass of the loop; \<open>now\<close> is what \<^verbatim>\<open>get_timestamp_ms\<close> returns at its end. The
  result says whether the loop goes on. After \<^verbatim>\<open>EAGAIN\<close> the source sleeps for a
  millisecond and reads no clock.
\<close>

definition serve_round ::
  "'n socket_api \<Rightarrow> int \<Rightarrow> u64 \<Rightarrow> u64 \<Rightarrow> serving \<Rightarrow> 'n \<Rightarrow> (bool \<times> serving \<times> 'n) option" where
  "serve_round api client_fd start now s n =
     (let (received, again, buffer, n) = sk_recv api n client_fd BUFFER_SIZE in
      if received < 0 then Some (again, s, n)
      else if received = 0 then Some (False, s, n)
      else do {
        let sv = sg_server s;
        let sv' = parse_blocks buffer 0 (sv\<lparr>total_bytes := total_bytes sv + word_of_int received\<rparr>);
        ls \<leftarrow> print_blocks (drop (length (sv_printed sv)) (sv_printed sv'));
        let s = s\<lparr>sg_server := sv', sg_out := sg_out s @ ls\<rparr>;
        Some (True,
          if now - last_stats_time s \<ge> 5000
          then s\<lparr>sg_out := sg_out s @ periodic_stats sv' (seconds_between start now), last_stats_time := now\<rparr>
          else s, n)
      })"

text \<open>The loop over the clock readings of its passes; at their end a signal has cleared \<^verbatim>\<open>g_running\<close>.\<close>

fun serve_loop ::
  "'n socket_api \<Rightarrow> int \<Rightarrow> u64 \<Rightarrow> u64 list \<Rightarrow> serving \<Rightarrow> 'n \<Rightarrow> (serving \<times> 'n) option" where
  "serve_loop api client_fd start [] s n = Some (s, n)"
| "serve_loop api client_fd start (now # clock) s n = do {
     (go_on, s, n) \<leftarrow> serve_round api client_fd start now s n;
     if go_on then serve_loop api client_fd start clock s n else Some (s, n)
   }"

section \<open>The program\<close>

record server_env =
  se_alloc_ok :: "nat \<Rightarrow> bool"
  se_fopen_ok :: "string \<Rightarrow> bool"
  se_file :: string
  se_time :: u64
  se_start :: timespec
  se_clock :: "timespec list"
  se_end :: timespec

text \<open>The part after the client is connected, with the result lines, the heap and the network.\<close>

definition serve_client ::
  "'n socket_api \<Rightarrow> server_env \<Rightarrow> int \<Rightarrow> heap \<Rightarrow> 'n \<Rightarrow> (int \<times> string list \<times> heap \<times> 'n) option" where
  "serve_client api env client_fd h n = do {
     let (buffer, h) = heap_alloc (se_alloc_ok env) h;
     if buffer = 0 then Some (1, [], h, n)
     else do {
       let start = get_timestamp_ms (se_start env);
       (s, n) \<leftarrow> serve_loop api client_fd start (map get_timestamp_ms (se_clock env))
         \<lparr>sg_server = \<lparr>total_bytes = 0, total_blocks = 0, sv_seen = [], sv_printed = []\<rparr>,
          last_stats_time = start, sg_out = []\<rparr> n;
       let out = sg_out s @ final_stats (sg_server s) (seconds_between start (get_timestamp_ms (se_end env)));
       h \<leftarrow> heap_free h buffer;
       Some (0, out, h, n)
     }
   }"

definition server_main ::
  "'n socket_api \<Rightarrow> 'n listen_api \<Rightarrow> server_env \<Rightarrow> logger \<Rightarrow> heap \<Rightarrow> 'n
     \<Rightarrow> (int \<times> string list \<times> logger \<times> heap \<times> 'n) option" where
  "server_main api lapi env lg h n = do {
     (_, lg) \<leftarrow> logger_init (se_fopen_ok env) (se_file env) (se_time env) lg None LOG_LEVEL_INFO;
     let (listen_fd, n) = sk_socket api n;
     if listen_fd < 0 then Some (1, [], lg, h, n)
     else do {
       let n = la_reuse lapi n listen_fd 1;
       let (r, n) = la_bind lapi n listen_fd \<lparr>sin_port = htons SERVER_PORT, sin_addr = INADDR_ANY\<rparr>;
       if r < 0 then Some (1, [], lg, h, sk_close api n listen_fd)
       else do {
         let (r, n) = la_listen lapi n listen_fd 5;
         if r < 0 then Some (1, [], lg, h, sk_close api n listen_fd)
         else do {
           let (client_fd, n) = la_accept lapi n listen_fd;
           if client_fd < 0 then Some (1, [], lg, h, sk_close api n listen_fd)
           else do {
             (r, out, h, n) \<leftarrow> serve_client api env client_fd h n;
             let n = sk_close api n client_fd;
             let n = sk_close api n listen_fd;
             Some (r, out, if r = 0 then logger_close lg else lg, h, n)
           }
         }
       }
     }
   }"

section \<open>Lemmas\<close>

text \<open>Every block handed to \<^verbatim>\<open>print_data_block\<close> lies within the received bytes.\<close>

definition printable :: "data_block_t \<Rightarrow> bool" where
  "printable b \<longleftrightarrow> b_magic b = DATA_BLOCK_MAGIC \<and> unat (b_sample_count b) \<le> length (b_samples b)"

lemma length_samples_of_bytes: "length (samples_of_bytes k bs) = k"
  by (induction k arbitrary: bs) simp_all

lemma block_of_bytes_count: "length (b_samples (block_of_bytes bs)) = unat (b_sample_count (block_of_bytes bs))"
  by (simp add: block_of_bytes_def Let_def length_samples_of_bytes)

lemma sv_count_printed:
  "sv_printed (sv_count b sv) = sv_printed sv \<or> sv_printed (sv_count b sv) = sv_printed sv @ [b]"
  by (simp add: sv_count_def Let_def)

lemma parse_printed:
  "\<exists>new. sv_printed (parse_blocks buf offset sv) = sv_printed sv @ new \<and> list_all printable new"
proof (induction buf offset sv rule: parse_blocks.induct)
  case (1 buf offset sv)
  define b where "b = block_of_bytes (drop offset buf)"
  consider "parse_blocks buf offset sv = sv"
    | "parse_blocks buf offset sv = parse_blocks buf (offset + 4) sv" "\<not> length buf < offset + sizeof_data_block"
      "b_magic b \<noteq> DATA_BLOCK_MAGIC"
    | "parse_blocks buf offset sv = parse_blocks buf (offset + (sizeof_data_block
          + unat (b_sample_count b) * sizeof_adc_sample)) (sv_count b sv)"
      "\<not> length buf < offset + sizeof_data_block" "b_magic b = DATA_BLOCK_MAGIC"
      "\<not> length buf < offset + (sizeof_data_block + unat (b_sample_count b) * sizeof_adc_sample)"
    using parse_blocks.simps [of buf offset sv, folded b_def] unfolding Let_def by (metis (no_types))
  then show ?case
  proof cases
    case 1
    then show ?thesis by simp
  next
    case 2
    then show ?thesis using "1.IH"(1) [OF 2(2) b_def] by simp
  next
    case 3
    obtain new where "sv_printed (parse_blocks buf offset sv) = sv_printed (sv_count b sv) @ new" "list_all printable new"
      using "1.IH"(2) [OF 3(2) b_def _ refl 3(4)] 3(1,3) by auto
    moreover have "printable b" using 3(3) by (simp add: printable_def b_def block_of_bytes_count)
    ultimately show ?thesis using sv_count_printed [of b sv] by (elim disjE) (auto intro: exI [of _ "b # new"])
  qed
qed

lemma print_data_block_defined: "printable b \<Longrightarrow> print_data_block b \<noteq> None"
  by (auto simp: print_data_block_def printable_def mem_read_def Let_def)

lemma print_blocks_defined: "list_all printable bs \<Longrightarrow> \<exists>ls. print_blocks bs = Some ls"
proof (induction bs)
  case (Cons b bs)
  then show ?case using print_data_block_defined [of b] by (auto simp: print_blocks_def)
qed (simp add: print_blocks_def)

text \<open>What successive calls of \<^verbatim>\<open>recv\<close> return, in the form of \<open>Host_Receiver\<close>.\<close>

fun deliveries :: "'n socket_api \<Rightarrow> int \<Rightarrow> nat \<Rightarrow> 'n \<Rightarrow> recv_result list" where
  "deliveries api fd 0 n = []"
| "deliveries api fd (Suc k) n = (let (r, again, bs, n) = sk_recv api n fd BUFFER_SIZE in
     (if r < 0 then if again then Would_Block else Recv_Failed else Received bs) # deliveries api fd k n)"

lemma serve_round_law:
  assumes "posix_fds api fds" "posix_recv api" "sk_recv api n fd BUFFER_SIZE = (r, again, bs, n')"
  shows "\<exists>go_on s'. serve_round api fd start now s n = Some (go_on, s', n') \<and> fds n' = fds n
    \<and> (\<forall>rs. receive_loop ((if r < 0 then if again then Would_Block else Recv_Failed else Received bs) # rs) (sg_server s)
         = (if go_on then receive_loop rs (sg_server s') else sg_server s'))"
proof -
  have len: "length bs = nat r" using assms(2,3) unfolding posix_recv_def by blast
  have fds: "fds n' = fds n" using assms(1,3) unfolding posix_fds_def by (metis snd_conv)
  show ?thesis
  proof (cases "0 < r")
    case False
    then have "r < 0 \<or> r = 0 \<and> bs = []" using len by auto
    then show ?thesis using assms(3) fds by (auto simp: serve_round_def)
  next
    case True
    define sv where "sv = (sg_server s)\<lparr>total_bytes := total_bytes (sg_server s) + word_of_int r\<rparr>"
    have w: "word_of_nat (length bs) = (word_of_int r :: u64)" "bs \<noteq> []" using True len by auto
    obtain new where "sv_printed (parse_blocks bs 0 sv) = sv_printed sv @ new" "list_all printable new"
      using parse_printed by blast
    then obtain ls where "print_blocks (drop (length (sv_printed (sg_server s))) (sv_printed (parse_blocks bs 0 sv))) = Some ls"
      using print_blocks_defined [of new] by (auto simp: sv_def)
    then have "\<exists>s'. serve_round api fd start now s n = Some (True, s', n') \<and> sg_server s' = parse_blocks bs 0 sv"
      using True by (simp add: serve_round_def assms(3) Let_def sv_def)
    moreover have "receive_loop (Received bs # rs) (sg_server s) = receive_loop rs (parse_blocks bs 0 sv)" for rs
      using w by (simp add: sv_def)
    ultimately show ?thesis using True fds by (auto simp del: receive_loop.simps)
  qed
qed

lemma serve_loop_law:
  assumes "posix_fds api fds" "posix_recv api"
  shows "\<exists>s' n'. serve_loop api fd start clock s n = Some (s', n') \<and> fds n' = fds n
    \<and> sg_server s' = receive_loop (deliveries api fd (length clock) n) (sg_server s)"
proof (induction clock arbitrary: s n)
  case (Cons now clock)
  obtain r again bs n1 where recv: "sk_recv api n fd BUFFER_SIZE = (r, again, bs, n1)" by (metis prod_cases4)
  obtain go_on s1 where one: "serve_round api fd start now s n = Some (go_on, s1, n1)" "fds n1 = fds n"
    "\<And>rs. receive_loop ((if r < 0 then if again then Would_Block else Recv_Failed else Received bs) # rs) (sg_server s)
       = (if go_on then receive_loop rs (sg_server s1) else sg_server s1)"
    using serve_round_law [OF assms recv] by blast
  show ?case using Cons.IH [of s1 n1] one recv by (cases go_on) (simp_all del: receive_loop.simps)
qed simp

lemma serve_client_law:
  assumes "posix_fds api fds" "posix_recv api" "heap_wf h"
  shows "\<exists>rc out h' n'. serve_client api env fd h n = Some (rc, out, h', n') \<and> fds n' = fds n \<and> h_live h' = h_live h
    \<and> (if se_alloc_ok env (Suc (h_calls h))
       then rc = 0 \<and> (\<exists>pre. out = pre @ final_stats
              (receive_loop (deliveries api fd (length (se_clock env)) n) idle_server)
              (seconds_between (get_timestamp_ms (se_start env)) (get_timestamp_ms (se_end env))))
       else rc = 1 \<and> out = [])"
proof (cases "se_alloc_ok env (Suc (h_calls h))")
  case False
  then show ?thesis by (simp add: serve_client_def heap_alloc_def Let_def)
next
  case True
  then obtain h1 where h1: "heap_alloc (se_alloc_ok env) h = (Suc (h_calls h), h1)" by (simp add: heap_alloc_def Let_def)
  note a = heap_alloc_wf [OF assms(3) h1]
  have "\<exists>h2. heap_free h1 (Suc (h_calls h)) = Some h2 \<and> heap_wf h2 \<and> h_live h2 = h_live h1 - {Suc (h_calls h)}
    \<and> h_rings h2 = h_rings h1 \<and> h_managers h2 = h_managers h1"
    using a by (intro heap_free_plain) auto
  then obtain h2 where h2: "heap_free h1 (Suc (h_calls h)) = Some h2" "h_live h2 = h_live h" using a(4) by auto
  define start where "start = get_timestamp_ms (se_start env)"
  obtain s' n' where "serve_loop api fd start (map get_timestamp_ms (se_clock env))
      \<lparr>sg_server = idle_server, last_stats_time = start, sg_out = []\<rparr> n = Some (s', n')" "fds n' = fds n"
      "sg_server s' = receive_loop (deliveries api fd (length (se_clock env)) n) idle_server"
    using serve_loop_law [OF assms(1,2), of fd start "map get_timestamp_ms (se_clock env)"
        "\<lparr>sg_server = idle_server, last_stats_time = start, sg_out = []\<rparr>" n] by auto
  then show ?thesis using True h1 h2
    by (simp add: serve_client_def start_def [symmetric] idle_server_def [symmetric] Let_def)
qed

lemma final_stats_counts:
  "read_u (drop (length ''Total bytes: '') (final_stats sv t ! 2)) = unat (total_bytes sv)"
  "read_u (drop (length ''Total blocks: '') (final_stats sv t ! 3)) = unat (total_blocks sv)"
proof -
  have "read_u (fmt_u x) = unat x" for x :: u64 using read_u_fmt [of "[]" x] by simp
  then show "read_u (drop (length ''Total bytes: '') (final_stats sv t ! 2)) = unat (total_bytes sv)"
    "read_u (drop (length ''Total blocks: '') (final_stats sv t ! 3)) = unat (total_blocks sv)"
    by (simp_all add: final_stats_def count_lines_def)
qed

lemma final_stats_length: "3 < length (final_stats sv t)"
  by (simp add: final_stats_def count_lines_def)

text \<open>A call of the start-up that can fail, and does in some state.\<close>

definition start_can_fail :: "'n socket_api \<Rightarrow> 'n listen_api \<Rightarrow> bool" where
  "start_can_fail api lapi \<longleftrightarrow> (\<exists>n. fst (sk_socket api n) < 0) \<or> (\<exists>n fd a. fst (la_bind lapi n fd a) < 0)
     \<or> (\<exists>n fd k. fst (la_listen lapi n fd k) < 0) \<or> (\<exists>n fd. fst (la_accept lapi n fd) < 0)"

text \<open>Either the start-up fails with everything closed, or the program does what serving the client does.\<close>

lemma server_main_cases:
  assumes "posix_fds api fds" "posix_listen lapi fds"
    and lg: "logger_init (se_fopen_ok env) (se_file env) (se_time env) lg None LOG_LEVEL_INFO = Some (r, lg1)"
  shows "(\<exists>n'. server_main api lapi env lg h n = Some (1, [], lg1, h, n') \<and> fds n' = fds n \<and> start_can_fail api lapi)
    \<or> (\<exists>c n0 m l. la_accept lapi m l = (c, n0) \<and> 0 \<le> c \<and> c \<notin> fds n \<and> (\<forall>rc out h' n1. serve_client api env c h n0 = Some (rc, out, h', n1) \<and> fds n1 = fds n0
         \<longrightarrow> (\<exists>lg' n'. server_main api lapi env lg h n = Some (rc, out, lg', h', n') \<and> fds n' = fds n)))"
proof -
  note fds = assms(1) [unfolded posix_fds_def] and lfds = assms(2) [unfolded posix_listen_def]
  obtain l n1 where n1: "sk_socket api n = (l, n1)" by (cases "sk_socket api n")
  define n2 where "n2 = la_reuse lapi n1 l 1"
  obtain b n3 where n3: "la_bind lapi n2 l \<lparr>sin_port = htons SERVER_PORT, sin_addr = INADDR_ANY\<rparr> = (b, n3)"
    by (cases "la_bind lapi n2 l \<lparr>sin_port = htons SERVER_PORT, sin_addr = INADDR_ANY\<rparr>")
  obtain li n4 where n4: "la_listen lapi n3 l 5 = (li, n4)" by (cases "la_listen lapi n3 l 5")
  obtain c n5 where n5: "la_accept lapi n4 l = (c, n5)" by (cases "la_accept lapi n4 l")
  note main = server_main_def lg n1 n2_def [symmetric] n3 n4 n5 Let_def
  have close: "fds (sk_close api m fd) = fds m - {fd}" for m fd using fds by blast
  have opened: "0 \<le> l \<Longrightarrow> l \<notin> fds n \<and> fds n1 = insert l (fds n)" "l < 0 \<Longrightarrow> fds n1 = fds n"
    "0 \<le> c \<Longrightarrow> c \<notin> fds n4 \<and> fds n5 = insert c (fds n4)" "c < 0 \<Longrightarrow> fds n5 = fds n4"
    using fds [THEN conjunct1, rule_format, OF n1] lfds [THEN conjunct2, THEN conjunct2, THEN conjunct2, rule_format, OF n5]
    by (simp_all add: not_less split: if_splits)
  have kept: "fds n2 = fds n1" "fds n3 = fds n2" "fds n4 = fds n3"
    using lfds n3 n4 unfolding n2_def by (metis, metis snd_conv, metis snd_conv)
  have failed: "l < 0 \<or> b < 0 \<or> li < 0 \<or> c < 0 \<Longrightarrow> start_can_fail api lapi"
    unfolding start_can_fail_def using n1 n3 n4 n5 by (metis fst_conv)
  consider "l < 0" | "0 \<le> l" "b < 0 \<or> li < 0 \<or> c < 0" | "0 \<le> l" "0 \<le> b" "0 \<le> li" "0 \<le> c" by linarith
  then show ?thesis
  proof cases
    case 1
    then show ?thesis using opened failed by (simp add: main)
  next
    case 2
    have "\<exists>n'. server_main api lapi env lg h n = Some (1, [], lg1, h, n') \<and> fds n' = fds n"
      using 2 opened kept by (auto simp: main close not_less)
    then show ?thesis using failed 2(2) by auto
  next
    case 3
    then have "\<exists>lg' n'. server_main api lapi env lg h n = Some (rc, out, lg', h', n') \<and> fds n' = fds n"
      if "serve_client api env c h n5 = Some (rc, out, h', n6)" "fds n6 = fds n5" for rc out h' n6
      using that opened kept by (auto simp: main close)
    moreover have "c \<notin> fds n" using 3 opened kept by auto
    ultimately show ?thesis using n5 3(4) by blast
  qed
qed

section \<open>Properties\<close>


text \<open>
  A network in which what was written to a descriptor is received from it, with a server that
  always gets its socket and its client.
\<close>

definition loop_api :: "demo_net socket_api" where
  "loop_api = (demo_api 4 100)\<lparr>sk_recv := (\<lambda>n fd len. let bs = take (unat len) (dn_wire n fd) in
     (int (length bs), False, bs, n\<lparr>dn_wire := (dn_wire n)(fd := drop (unat len) (dn_wire n fd))\<rparr>))\<rparr>"

definition loop_listen :: "demo_net listen_api" where
  "loop_listen = \<lparr>la_reuse = (\<lambda>n fd v. n), la_bind = (\<lambda>n fd a. (0, n)), la_listen = (\<lambda>n fd k. (0, n)),
     la_accept = (\<lambda>n l. sk_socket loop_api n)\<rparr>"

definition demo_server_env :: server_env where
  "demo_server_env = \<lparr>se_alloc_ok = (\<lambda>_. True), se_fopen_ok = (\<lambda>_. True), se_file = ''logger.c'', se_time = 0,
     se_start = \<lparr>tv_sec = 1, tv_nsec = 0\<rparr>, se_clock = [\<lparr>tv_sec = 2, tv_nsec = 0\<rparr>, \<lparr>tv_sec = 7, tv_nsec = 0\<rparr>],
     se_end = \<lparr>tv_sec = 8, tv_nsec = 0\<rparr>\<rparr>"

lemma loop_contracts:
  "posix_fds loop_api (\<lambda>n. set (dn_open n))" "posix_recv loop_api" "posix_listen loop_listen (\<lambda>n. set (dn_open n))"
  "\<not> start_can_fail loop_api loop_listen"
proof -
  have d: "posix_fds (demo_api 4 100) (\<lambda>n. set (dn_open n))" by (rule demo_posix_fds)
  have f: "foldr max xs 2 + 1 \<notin> set xs" "\<not> foldr max xs 2 + (1 :: int) < 0" for xs
    using foldr_max_ge [of "foldr max xs 2 + 1" xs 2] foldr_max_base [of 2 xs] by auto
  show "posix_fds loop_api (\<lambda>n. set (dn_open n))" using d by (auto simp: posix_fds_def loop_api_def Let_def)
  have "int (length (take (unat len) bs)) \<le> int (unat len)" for bs :: "u8 list" and len :: u64
    unfolding of_nat_le_iff by simp
  moreover have "sk_recv loop_api n fd len = (int (length (take (unat len) (dn_wire n fd))), False,
      take (unat len) (dn_wire n fd), n\<lparr>dn_wire := (dn_wire n)(fd := drop (unat len) (dn_wire n fd))\<rparr>)" for n fd len
    by (simp add: loop_api_def Let_def)
  ultimately show "posix_recv loop_api" unfolding posix_recv_def by (metis nat_int prod.inject)
  show "posix_listen loop_listen (\<lambda>n. set (dn_open n))" using f
    by (auto simp: posix_listen_def loop_listen_def loop_api_def demo_api_def Let_def)
  show "\<not> start_can_fail loop_api loop_listen" using f
    by (auto simp: start_can_fail_def loop_listen_def loop_api_def demo_api_def Let_def)
qed


end
