(* ===== verification/Whole_Program.thy ===== *)
theory Whole_Program
  imports System_Run
begin

text \<open>
  The function \<^verbatim>\<open>main\<close> of \<^verbatim>\<open>src/main.c\<close> from its arguments to its return value,
  with the worker threads and the simulator running beside it: command line, start-up, the
  supervision loop with its periodic reports, the final report and the clean-up. A run is given by
  what the environment does: the events of the other threads between two evaluations of the loop
  head, the value of \<^verbatim>\<open>g_running\<close> and the clock there.

  The standard output of \<^verbatim>\<open>main\<close> is a list of lines. Lines that go to the standard error
  stream and the log messages of \<^verbatim>\<open>main\<close> itself are left out.
\<close>

section \<open>The supervision loop\<close>

record super_tick =
  st_events :: "sys_event list"
  st_running :: bool
  st_now :: u64

text \<open>The sample rate that a report computes and stores in the statistics before it prints them.\<close>

definition update_rate :: "u64 \<Rightarrow> u64 \<Rightarrow> thread_manager \<Rightarrow> thread_manager" where
  "update_rate start now tm =
     tm\<lparr>tm_stats := (tm_stats tm)\<lparr>avg_sample_rate :=
       average_rate start now (total_samples (tm_stats tm)) (avg_sample_rate (tm_stats tm))\<rparr>\<rparr>"

text \<open>
  Both reports, for the pointer that \<^verbatim>\<open>thread_manager_get_system_stats\<close> returns. The
  result is the thread manager with the new rate and the lines printed.
\<close>

definition report :: "thread_stats_t \<Rightarrow> u64 \<Rightarrow> u64 \<Rightarrow> thread_manager \<Rightarrow> thread_manager \<times> string list" where
  "report junk start now tm =
     (case thread_manager_get_system_stats (Some tm) of
        None \<Rightarrow> (tm, [])
      | Some _ \<Rightarrow>
          let tm = update_rate start now tm
          in (tm, print_stats (tm_stats tm) @ print_thread_stats junk (Some tm)))"

definition time_is_up :: "i32 \<Rightarrow> u64 \<Rightarrow> u64 \<Rightarrow> bool" where
  "time_is_up run_time start now \<longleftrightarrow> 0 < sint run_time \<and> now - start \<ge> word_of_int (sint run_time) * 1000"

text \<open>
  The reason for leaving the loop (\<^term>\<open>None\<close>: the loop goes on after the given ticks), the
  lines printed, the samples the simulator has delivered meanwhile, and the state.
\<close>

fun supervise ::
  "'n socket_api \<Rightarrow> (nat \<Rightarrow> data_block_t option) \<Rightarrow> (nat \<Rightarrow> 'n pipe_state \<Rightarrow> 'n pipe_state option) \<Rightarrow> thread_stats_t
     \<Rightarrow> i32 \<Rightarrow> u64 \<Rightarrow> u64 \<Rightarrow> super_tick list \<Rightarrow> 'n pipe_state
     \<Rightarrow> (loop_exit option \<times> string list \<times> adc_sample_t list \<times> 'n pipe_state) option" where
  "supervise api malloc_block user junk run_time start last_stats [] s = Some (None, [], [], s)"
| "supervise api malloc_block user junk run_time start last_stats (t # ts) s = do {
     (xs, tm, x) \<leftarrow> sys_run api malloc_block user (st_events t) s;
     if \<not> st_running t then Some (Some Signalled, [], xs, tm, x)
     else if time_is_up run_time start (st_now t) then Some (Some Time_Limit, [], xs, tm, x)
     else if st_now t - last_stats \<ge> 5000 then do {
       let (tm, out) = report junk start (st_now t) tm;
       (e, out', ys, s) \<leftarrow> supervise api malloc_block user junk run_time start (st_now t) ts (tm, x);
       Some (e, out @ out', xs @ ys, s)
     }
     else do {
       (e, out', ys, s) \<leftarrow> supervise api malloc_block user junk run_time start last_stats ts (tm, x);
       Some (e, out', xs @ ys, s)
     }
   }"

section \<open>The whole function\<close>

text \<open>
  What happens beside \<^verbatim>\<open>main\<close>: the ticks of the loop, the events between its end and the
  final report, the clock there, and the events between the report and the clean-up.
\<close>

record main_script =
  ms_start :: u64
  ms_ticks :: "super_tick list"
  ms_closing :: "sys_event list"
  ms_end :: u64
  ms_stopping :: "sys_event list"

text \<open>From the start of the loop to the final report.\<close>

definition main_reported ::
  "'n socket_api \<Rightarrow> (nat \<Rightarrow> data_block_t option) \<Rightarrow> (nat \<Rightarrow> 'n pipe_state \<Rightarrow> 'n pipe_state option) \<Rightarrow> thread_stats_t
     \<Rightarrow> i32 \<Rightarrow> main_script \<Rightarrow> 'n pipe_state
     \<Rightarrow> (loop_exit option \<times> string list \<times> adc_sample_t list \<times> 'n pipe_state) option" where
  "main_reported api malloc_block user junk run_time sc s = do {
     (e, out, xs, s) \<leftarrow> supervise api malloc_block user junk run_time (ms_start sc) (ms_start sc) (ms_ticks sc) s;
     case e of None \<Rightarrow> Some (None, out, xs, s)
     | Some r \<Rightarrow> do {
         (ys, tm, x) \<leftarrow> sys_run api malloc_block user (ms_closing sc) s;
         let (tm, out') = report junk (ms_start sc) (ms_end sc) tm;
         Some (Some r, out @ out', xs @ ys, tm, x)
       }
   }"

text \<open>A run returns an exit code, or is still in its loop when the script ends.\<close>

datatype 'n main_end =
    Returned int "string list" "adc_sample_t list" logger heap "thread_manager option" 'n
  | Still_Running "string list" "adc_sample_t list" "'n pipe_state"

definition main_program ::
  "main_env \<Rightarrow> 'n socket_api \<Rightarrow> (nat \<Rightarrow> data_block_t option) \<Rightarrow> (nat \<Rightarrow> 'n pipe_state \<Rightarrow> 'n pipe_state option)
     \<Rightarrow> thread_stats_t \<Rightarrow> main_script \<Rightarrow> string \<Rightarrow> string list \<Rightarrow> logger \<Rightarrow> heap \<Rightarrow> block_pool \<Rightarrow> 'n
     \<Rightarrow> 'n main_end option" where
  "main_program env api malloc_block user junk sc program args lg h pool n = do {
     parsed \<leftarrow> parse_args args default_options;
     case parsed of
       Inl code \<Rightarrow> Some (Returned code (print_help program) [] lg h None n)
     | Inr opt \<Rightarrow> do {
         started \<leftarrow> main_start env opt lg h;
         case started of
           Inl (code, lg, h) \<Rightarrow> Some (Returned code [] [] lg h None n)
         | Inr (bm, tm, lg, h) \<Rightarrow> do {
             tm \<leftarrow> tm;
             (e, out, xs, s) \<leftarrow> main_reported api malloc_block user junk (mo_run_time opt) sc (tm, h, pool, n);
             case e of
               None \<Rightarrow> Some (Still_Running out xs s)
             | Some _ \<Rightarrow> do {
                 (ys, tm, h, pool, n) \<leftarrow> sys_run api malloc_block user (ms_stopping sc) s;
                 (code, lg, h, tm) \<leftarrow> main_shutdown h (Some tm) bm lg;
                 Some (Returned code out (xs @ ys) lg h tm n)
               }
           }
       }
   }"

section \<open>The loop keeps the system's invariant\<close>

definition ends_loop :: "i32 \<Rightarrow> u64 \<Rightarrow> super_tick list \<Rightarrow> bool" where
  "ends_loop run_time start ts \<longleftrightarrow> list_ex (\<lambda>t. \<not> st_running t \<or> time_is_up run_time start (st_now t)) ts"

definition tick_ok :: "super_tick \<Rightarrow> bool" where
  "tick_ok t \<longleftrightarrow> list_all event_ok (st_events t)"

definition script_ok :: "main_script \<Rightarrow> bool" where
  "script_ok sc \<longleftrightarrow> list_all tick_ok (ms_ticks sc) \<and> list_all event_ok (ms_closing sc) \<and> list_all event_ok (ms_stopping sc)"

lemma report_eq: "report junk start now tm = (update_rate start now tm,
    print_stats (tm_stats (update_rate start now tm)) @ print_thread_stats junk (Some (update_rate start now tm)))"
  by (simp add: report_def thread_manager_get_system_stats_def Let_def)

lemma update_rate_frame:
  "sys_inv L bm m (update_rate start now tm, x) = sys_inv L bm m (tm, x)"
  "account m xs ps s (update_rate start now tm, x) = account m xs ps s (tm, x)"
  by (cases x; cases s; simp add: update_rate_def tm_up_def tm_wf_def adc_ok_def extras_def)+

lemma sys_run_obtain:
  assumes "posix_send api wire" "\<forall>i. room_or_null (malloc_block i)" "sys_inv L bm m s" "list_all event_ok evs"
  obtains xs tm x ps where "sys_run api malloc_block user evs s = Some (xs, tm, x)" "sys_inv L bm m (tm, x)"
    "account m xs ps s (tm, x)"
  using sys_run_law [OF assms] by (metis surj_pair)

lemma supervise_law:
  assumes send: "posix_send api wire" and mb: "\<forall>i. room_or_null (malloc_block i)"
  shows "sys_inv L bm m s \<Longrightarrow> list_all tick_ok ts \<Longrightarrow>
    \<exists>e out xs s' ps. supervise api malloc_block user junk run_time start last_stats ts s = Some (e, out, xs, s')
      \<and> sys_inv L bm m s' \<and> account m xs ps s s' \<and> (e \<noteq> None \<longleftrightarrow> ends_loop run_time start ts)"
proof (induction ts arbitrary: s last_stats)
  case Nil
  then show ?case using account_refl [of m s]
    by (simp add: ends_loop_def del: sys_inv.simps account.simps) (blast intro: account_refl)
next
  case (Cons t ts)
  have ok: "list_all event_ok (st_events t)" using Cons.prems(2) by (simp add: tick_ok_def)
  obtain xs tm x ps where 1: "sys_run api malloc_block user (st_events t) s = Some (xs, tm, x)" "sys_inv L bm m (tm, x)"
    "account m xs ps s (tm, x)" by (rule sys_run_obtain [OF send mb Cons.prems(1) ok])
  consider "\<not> st_running t \<or> time_is_up run_time start (st_now t)" | "st_running t" "\<not> time_is_up run_time start (st_now t)" by blast
  then show ?case
  proof cases
    case stop: 1
    have "\<exists>e. supervise api malloc_block user junk run_time start last_stats (t # ts) s = Some (Some e, [], xs, tm, x)"
      using stop 1(1) by (cases "st_running t") simp_all
    moreover have "ends_loop run_time start (t # ts)" using stop by (auto simp: ends_loop_def)
    ultimately show ?thesis using 1(2,3) by blast
  next
    case 2
    define late where "late \<longleftrightarrow> st_now t - last_stats \<ge> 5000"
    let ?tm = "if late then update_rate start (st_now t) tm else tm"
    let ?last = "if late then st_now t else last_stats"
    have inv: "sys_inv L bm m (?tm, x)" and acc: "account m xs ps s (?tm, x)"
      using 1(2,3) by (simp_all add: update_rate_frame del: sys_inv.simps account.simps)
    obtain e out ys s' qs where 3: "supervise api malloc_block user junk run_time start ?last ts (?tm, x) = Some (e, out, ys, s')"
      "sys_inv L bm m s'" "account m ys qs (?tm, x) s'" "e \<noteq> None \<longleftrightarrow> ends_loop run_time start ts"
      using Cons.IH [OF inv, of ?last] Cons.prems(2) by auto
    have "\<exists>out'. supervise api malloc_block user junk run_time start last_stats (t # ts) s = Some (e, out', xs @ ys, s')"
      using 1(1) 2 3(1) late_def by (auto simp: report_eq Let_def split: if_splits)
    moreover have "ends_loop run_time start (t # ts) = ends_loop run_time start ts" using 2 by (simp add: ends_loop_def)
    ultimately show ?thesis using 3(2,4) account_trans [OF acc 3(3)] by blast
  qed
qed

text \<open>The loop leaves for the reason that the loop of theory \<open>Main_Program\<close> gives for the same ticks.\<close>

lemma supervise_exit:
  "supervise api malloc_block user junk run_time start last_stats ts s = Some (e, out, xs, s') \<Longrightarrow>
   e = map_option fst (main_loop run_time start last_stats avg
         (map (\<lambda>t. \<lparr>tk_running = st_running t, tk_now = st_now t, tk_total = k t\<rparr>) ts))"
proof (induction ts arbitrary: s last_stats avg out xs)
  case (Cons t ts)
  then show ?case
    by (auto simp: bind_eq_Some_conv report_eq time_is_up_def Let_def option.map_comp comp_def case_prod_beta split: if_splits)
qed simp

lemma main_reported_law:
  assumes "posix_send api wire" "\<forall>i. room_or_null (malloc_block i)" "script_ok sc" "sys_inv L bm m s"
  obtains e out xs tm x ps where "main_reported api malloc_block user junk run_time sc s = Some (e, out, xs, tm, x)"
    "sys_inv L bm m (tm, x)" "account m xs ps s (tm, x)" "e \<noteq> None \<longleftrightarrow> ends_loop run_time (ms_start sc) (ms_ticks sc)"
    "e \<noteq> None \<longrightarrow> suffix (print_stats (tm_stats tm) @ print_thread_stats junk (Some tm)) out"
proof -
  have sc: "list_all tick_ok (ms_ticks sc)" "list_all event_ok (ms_closing sc)" using assms(3) by (simp_all add: script_ok_def)
  obtain e out xs s1 ps where 1: "supervise api malloc_block user junk run_time (ms_start sc) (ms_start sc) (ms_ticks sc) s
      = Some (e, out, xs, s1)" "sys_inv L bm m s1" "account m xs ps s s1"
    "e \<noteq> None \<longleftrightarrow> ends_loop run_time (ms_start sc) (ms_ticks sc)"
    using supervise_law [OF assms(1,2,4) sc(1), of user junk run_time "ms_start sc" "ms_start sc"] by blast
  show ?thesis
  proof (cases e)
    case None
    obtain tm x where s1: "s1 = (tm, x)" by (cases s1)
    show ?thesis using None 1 unfolding s1
      by (intro that [of e out xs tm x ps]) (simp_all add: main_reported_def del: sys_inv.simps account.simps)
  next
    case (Some r)
    obtain ys tm x qs where 2: "sys_run api malloc_block user (ms_closing sc) s1 = Some (ys, tm, x)"
      "sys_inv L bm m (tm, x)" "account m ys qs s1 (tm, x)" by (rule sys_run_obtain [OF assms(1,2) 1(2) sc(2)])
    let ?tm = "update_rate (ms_start sc) (ms_end sc) tm"
    have "main_reported api malloc_block user junk run_time sc s = Some (e, out @ print_stats (tm_stats ?tm)
        @ print_thread_stats junk (Some ?tm), xs @ ys, ?tm, x)"
      using 1(1) 2(1) Some by (simp add: main_reported_def report_eq)
    moreover have "account m (xs @ ys) (ps @ qs) s (?tm, x)"
      unfolding update_rate_frame by (rule account_trans [OF 1(3) 2(3)])
    moreover have "sys_inv L bm m (?tm, x)" unfolding update_rate_frame by (rule 2(2))
    ultimately show ?thesis using 1(4) suffixI [OF refl] by (intro that impI)
  qed
qed

lemma sys_shutdown:
  assumes inv: "sys_inv L bm m (tm, h, pool, n)"
  shows "\<exists>h' t'. main_shutdown h (Some tm) bm lg = Some (0, logger_close lg, h', Some t') \<and> True \<notin> set (tm_alive t')
    \<and> extras t' = extras tm \<and> h_live h' = L \<union> extras t' \<and> extras t' \<inter> L = {}"
proof -
  have up: "heap_up (tm_self tm) bm m h" "tm_wf tm" "balance L (tm_self tm) bm m (extras tm) h"
    using inv by (simp_all add: tm_up_def)
  obtain h' t' where r: "main_shutdown h (Some tm) bm lg = Some (0, logger_close lg, h', Some t')"
    "h_live h' = h_live h - {tm_self tm} - (\<Union>a\<in>manager_rings m. ring_blocks h a) - {bm}"
    "tm_adc t' = tm_adc tm" "tm_tcp_client t' = tm_tcp_client tm" "tm_wf tm \<longrightarrow> True \<notin> set (tm_alive t')"
    by (rule release_law [OF heap_up_owned [OF up(1)] disjI1 [OF up(2)], of lg])
  then have "extras t' = extras tm" by (simp add: extras_def)
  moreover have "h_live h' = L \<union> extras tm" "extras tm \<inter> L = {}"
    using r(2) up(3) unfolding balance_def core_blocks_def by auto
  ultimately show ?thesis using r(1,5) up(2) by auto
qed

lemma script_start_inv:
  assumes "heap_wf h" "main_start env opt lg h = Some (Inr (bm, Some t, lg1, h1))" "pool_ok pool"
  obtains m where "sys_inv (h_live h) bm m (t, h1, pool, n)" "h_managers h1 bm = Some m" "in_flight m h1 = []"
    "tm_stats t = zero_stats"
proof -
  obtain m where up: "system_up h h1 bm t m" by (rule main_start_up [OF assms(1,2)])
  have empty: "rb_contents r = []" if "h_rings h1 a = Some r" "a \<in> manager_rings m" for a r
    using up that by (auto simp: system_up_def empty_ring_at_def split: option.splits)
  have "in_flight m h1 = []"
    using empty [of "capture_to_process m"] empty [of "process_to_network m"]
    by (auto simp: in_flight_def capture_queue_def network_queue_def manager_rings_def split: option.splits)
  moreover have "h_managers h1 bm = Some m" "tm_stats t = zero_stats" using up by (simp_all add: system_up_def owned_def)
  ultimately show ?thesis using that [OF system_up_inv [OF up assms(3)]] by blast
qed

text \<open>What follows a start-up that succeeded.\<close>

lemma main_program_started:
  assumes wf: "heap_wf h" and pool: "pool_ok pool" and send: "posix_send api wire"
    and mb: "\<forall>i. room_or_null (malloc_block i)" and sc: "script_ok sc"
    and opt: "parse_args args default_options = Some (Inr opt)"
    and up: "main_start env opt lg h = Some (Inr (bm, Some t, lg1, h1))"
  shows "(\<exists>lines xs s. main_program env api malloc_block user junk sc program args lg h pool n = Some (Still_Running lines xs s)
       \<and> \<not> ends_loop (mo_run_time opt) (ms_start sc) (ms_ticks sc))
    \<or> (\<exists>lines xs h' t' n'. main_program env api malloc_block user junk sc program args lg h pool n
            = Some (Returned 0 lines xs (logger_close lg1) h' (Some t') n')
       \<and> ends_loop (mo_run_time opt) (ms_start sc) (ms_ticks sc)
       \<and> True \<notin> set (tm_alive t') \<and> h_live h' = h_live h \<union> extras t' \<and> extras t' \<inter> h_live h = {})"
proof -
  note def = main_program_def [of env api malloc_block user junk sc program args lg h pool n] opt up
  obtain m where "sys_inv (h_live h) bm m (t, h1, pool, n)" by (rule script_start_inv [OF wf up pool])
  from main_reported_law [OF send mb sc this] obtain e lines xs tm x ps where
    rep: "main_reported api malloc_block user junk (mo_run_time opt) sc (t, h1, pool, n) = Some (e, lines, xs, tm, x)"
    "sys_inv (h_live h) bm m (tm, x)" "e \<noteq> None \<longleftrightarrow> ends_loop (mo_run_time opt) (ms_start sc) (ms_ticks sc)" by metis
  show ?thesis
  proof (cases e)
    case None
    then show ?thesis using rep(1,3) by (cases x) (simp add: def)
  next
    case (Some r)
    have "list_all event_ok (ms_stopping sc)" using sc by (simp add: script_ok_def)
    from sys_run_law [OF send mb rep(2) this, of user] obtain ys tm2 h2 pool2 n2 where
      s2: "sys_run api malloc_block user (ms_stopping sc) (tm, x) = Some (ys, tm2, h2, pool2, n2)"
      "sys_inv (h_live h) bm m (tm2, h2, pool2, n2)" by (metis prod_cases4)
    from sys_shutdown [OF s2(2), of lg1] obtain h3 t3 where
      sh: "main_shutdown h2 (Some tm2) bm lg1 = Some (0, logger_close lg1, h3, Some t3)" "True \<notin> set (tm_alive t3)"
      "h_live h3 = h_live h \<union> extras t3" "extras t3 \<inter> h_live h = {}" by blast
    have "main_program env api malloc_block user junk sc program args lg h pool n
        = Some (Returned 0 lines (xs @ ys) (logger_close lg1) h3 (Some t3) n2)"
      using rep(1) Some s2(1) sh(1) by (simp add: def)
    then show ?thesis using Some rep(3) sh(2-4) by blast
  qed
qed

section \<open>Properties\<close>


text \<open>A run with a signal after one pass of each thread and one sample.\<close>

definition demo_iter :: iter_env where
  "demo_iter = \<lparr>ie_alloc_ok = (\<lambda>_. True), ie_pthread1 = True, ie_pthread2 = True, ie_now1 = 1, ie_now2 = 2,
     ie_stack = stack_array, ie_now = 3, ie_start_cycles = 10, ie_end_cycles = 20\<rparr>"

definition demo_events :: "sys_event list" where
  "demo_events = [Iterate 0 demo_iter, Adc_Sample blank_sample, Iterate 1 demo_iter, Iterate 2 demo_iter]"

definition demo_script :: main_script where
  "demo_script = \<lparr>ms_start = 1000,
     ms_ticks = [\<lparr>st_events = demo_events, st_running = True, st_now = 1100\<rparr>, \<lparr>st_events = [], st_running = True, st_now = 6100\<rparr>,
                 \<lparr>st_events = demo_events, st_running = False, st_now = 6200\<rparr>],
     ms_closing = demo_events, ms_end = 6300, ms_stopping = demo_events\<rparr>"

lemma demo_script_ok: "script_ok demo_script" "ends_loop run_time 1000 (ms_ticks demo_script)"
  by (simp_all add: script_ok_def tick_ok_def demo_script_def demo_events_def demo_iter_def ends_loop_def THREAD_COUNT_def)
    (simp_all add: stack_array_def)

lemma empty_pool_ok: "pool_ok empty_pool"
  by (simp add: pool_ok_def empty_pool_def BLOCK_POOL_SIZE_def)

lemma wide_room: "\<forall>i :: nat. room_or_null (Some wide_block)"
  using wide_block_room by (simp add: room_or_null_def block_room_def)

lemma demo_verbose: "parse_args [''-v''] default_options = Some (Inr (default_options\<lparr>mo_log_level := LOG_LEVEL_DEBUG\<rparr>))"
  by (simp add: is_option_def)

lemma demo_file: "length (base_name (me_file (demo_main_env k))) \<le> 4066"
  by (simp add: demo_main_env_def base_name_def)

lemma demo_verbose_start:
  "\<exists>lg1 h1 t. main_start (demo_main_env 100) (default_options\<lparr>mo_log_level := LOG_LEVEL_DEBUG\<rparr>) idle_logger empty_heap
    = Some (Inr (1, Some t, lg1, h1))"
proof -
  let ?opt = "default_options\<lparr>mo_log_level := LOG_LEVEL_DEBUG\<rparr>"
  let ?init = "logger_init (me_fopen_ok (demo_main_env 100)) (me_file (demo_main_env 100)) (me_time (demo_main_env 100))
      idle_logger (mo_log_file ?opt) (mo_log_level ?opt)"
  have "?init \<noteq> None" by (rule logger_init_defined [OF _ demo_file]) simp
  then obtain r lg1 where l: "?init = Some (r, lg1)" by (metis option.exhaust surj_pair)
  then have "r = 0" by (auto simp: logger_init_def default_options_def bind_eq_Some_conv)
  then show ?thesis using demo_start_any l by blast
qed




end
