(* ===== verification/Stats_Race.thy ===== *)
theory Stats_Race
  imports Thread_Workers
begin

text \<open>
  The counter \<^verbatim>\<open>dropped_samples\<close> of \<^verbatim>\<open>src/thread/thread_workers.c\<close> is
  incremented by the thread of the ADC simulator (in the callback) and by the processing thread,
  without a lock and without an atomic operation. Here the load and the store of each increment are
  separate steps. \<open>drops\<close> is a history variable: the number of samples dropped so far by
  the increments that have been stored.
\<close>

record drop_state =
  counter :: u64
  adc_loaded :: "u64 option"
  proc_loaded :: "(u64 \<times> u32) option"
  drops :: nat

text \<open>\<^verbatim>\<open>cb_data->stats->dropped_samples++\<close> in \<^verbatim>\<open>adc_sample_callback\<close>.\<close>

inductive adc_drop_step :: "drop_state \<Rightarrow> drop_state \<Rightarrow> bool" where
  adc_load: "adc_loaded s = None \<Longrightarrow> adc_drop_step s (s\<lparr>adc_loaded := Some (counter s)\<rparr>)"
| adc_store: "adc_loaded s = Some v \<Longrightarrow>
     adc_drop_step s (s\<lparr>counter := v + 1, adc_loaded := None, drops := drops s + 1\<rparr>)"

text \<open>
  \<^verbatim>\<open>stats->dropped_samples += (popped - pushed)\<close> in \<^verbatim>\<open>process_thread_worker\<close>.
\<close>

inductive proc_drop_step :: "drop_state \<Rightarrow> drop_state \<Rightarrow> bool" where
  proc_load: "proc_loaded s = None \<Longrightarrow> pushed < popped \<Longrightarrow>
     proc_drop_step s (s\<lparr>proc_loaded := Some (counter s, popped - pushed)\<rparr>)"
| proc_store: "proc_loaded s = Some (v, k) \<Longrightarrow>
     proc_drop_step s (s\<lparr>counter := v + ucast k, proc_loaded := None, drops := drops s + unat k\<rparr>)"

definition no_drops :: drop_state where
  "no_drops = \<lparr>counter = 0, adc_loaded = None, proc_loaded = None, drops = 0\<rparr>"

inductive drop_reach :: "drop_state \<Rightarrow> bool" where
  start: "drop_reach no_drops"
| adc: "drop_reach s \<Longrightarrow> adc_drop_step s s' \<Longrightarrow> drop_reach s'"
| proc: "drop_reach s \<Longrightarrow> proc_drop_step s s' \<Longrightarrow> drop_reach s'"

section \<open>The counter never exceeds the truth\<close>

definition drop_inv :: "drop_state \<Rightarrow> bool" where
  "drop_inv s \<longleftrightarrow> unat (counter s) \<le> drops s
     \<and> (\<forall>v. adc_loaded s = Some v \<longrightarrow> unat v \<le> drops s)
     \<and> (\<forall>v k. proc_loaded s = Some (v, k) \<longrightarrow> unat v \<le> drops s)"

lemma unat_add_le: "unat (a + b :: u64) \<le> unat a + unat b"
  by (simp add: unat_word_ariths)

lemma unat_ucast_le: "unat (ucast (k :: u32) :: u64) \<le> unat k"
  by (simp add: unsigned_ucast_eq take_bit_nat_less_eq_self)

lemma adc_drop_inv: "adc_drop_step s s' \<Longrightarrow> drop_inv s \<Longrightarrow> drop_inv s'"
proof (induction rule: adc_drop_step.induct)
  case (adc_store s v)
  then have "unat (v + 1) \<le> drops s + 1" using unat_add_le [of v 1] by (simp add: drop_inv_def)
  with adc_store show ?case by (auto simp: drop_inv_def le_Suc_eq)
qed (auto simp: drop_inv_def)

lemma proc_drop_inv: "proc_drop_step s s' \<Longrightarrow> drop_inv s \<Longrightarrow> drop_inv s'"
proof (induction rule: proc_drop_step.induct)
  case (proc_store s v k)
  then have "unat (v + ucast k) \<le> drops s + unat k"
    using unat_add_le [of v "ucast k"] unat_ucast_le [of k] by (fastforce simp: drop_inv_def)
  with proc_store show ?case by (auto simp: drop_inv_def trans_le_add1)
qed (auto simp: drop_inv_def)

lemma drop_reach_inv: "drop_reach s \<Longrightarrow> drop_inv s"
proof (induction rule: drop_reach.induct)
  case start
  then show ?case by (simp add: drop_inv_def no_drops_def)
qed (blast intro: adc_drop_inv proc_drop_inv)+

section \<open>Lost updates\<close>

lemma drop_reach_lost:
  assumes "(k :: u32) \<noteq> 0"
  shows "drop_reach \<lparr>counter = 1, adc_loaded = None, proc_loaded = None, drops = unat k + 1\<rparr>"
proof -
  let ?s1 = "no_drops\<lparr>adc_loaded := Some 0\<rparr>"
  let ?s2 = "?s1\<lparr>proc_loaded := Some (0, k)\<rparr>"
  let ?s3 = "?s2\<lparr>counter := 0 + ucast k, proc_loaded := None, drops := unat k\<rparr>"
  have "drop_reach ?s1" using adc [OF start adc_load] by (simp add: no_drops_def)
  from proc [OF this proc_load, of 0 k] assms have "drop_reach ?s2" by (simp add: no_drops_def word_gt_0)
  from proc [OF this proc_store, of 0 k] have "drop_reach ?s3" by (simp add: no_drops_def)
  from adc [OF this adc_store, of 0] show ?thesis by (simp add: no_drops_def)
qed

text \<open>
  C28. Updates of \<^verbatim>\<open>dropped_samples\<close> can be lost, but never invented: in every
  interleaving of the two threads the counter is at most the number of samples dropped, and for
  every number \<open>k\<close> of samples that the processing thread drops at once there is an
  interleaving with one drop of the ADC thread after which \<open>k + 1\<close> samples are dropped, both
  threads are done, and the counter shows 1.
\<close>

theorem stats_updates_lost:
  "(\<forall>s. drop_reach s \<longrightarrow> unat (counter s) \<le> drops s)
   \<and> (\<forall>k :: u32. k \<noteq> 0 \<longrightarrow> (\<exists>s. drop_reach s \<and> adc_loaded s = None \<and> proc_loaded s = None
        \<and> drops s = unat k + 1 \<and> counter s = 1))"
  using drop_reach_inv drop_reach_lost by (fastforce simp: drop_inv_def)

theorem stats_updates_lost_witness:
  "\<exists>s. drop_reach s \<and> drops s = 257 \<and> counter s = 1 \<and> unat (counter s) \<le> drops s"
proof -
  obtain s where "drop_reach s" "drops s = unat (256 :: u32) + 1" "counter s = 1"
    using stats_updates_lost [THEN conjunct2, rule_format, of 256] by auto
  then show ?thesis using stats_updates_lost [THEN conjunct1] by (intro exI [of _ s]) auto
qed

end
