(* ===== verification/Logger_Lock.thy ===== *)
theory Logger_Lock
  imports Logger
begin

text \<open>
  The lock of \<^verbatim>\<open>src/utils/logger.c\<close> and the signal handler of \<^verbatim>\<open>src/main.c\<close>.

  \<open>Logger\<close> treats a call of \<^verbatim>\<open>log_message\<close> as one step. Here the calls of several
  threads interleave: taking the lock, the two outputs and the release are steps of their own. A
  thread has a stack of what it still has to do, because a signal may arrive between any two steps
  and its handler, which calls \<^verbatim>\<open>log_message\<close> itself, runs on top of the interrupted call.
  The lock is a plain \<^verbatim>\<open>pthread_mutex_t\<close>: whoever asks for it while it is held waits,
  the holder included.
\<close>

section \<open>Threads\<close>

datatype frame =
    L_Lock string \<comment> \<open>before the lock, with the finished line\<close>
  | L_Console string
  | L_File string
  | L_Unlock
  | H_Stop \<comment> \<open>the last statement of the handler\<close>

record log_sys =
  lk_owner :: "nat option"
  lk_logger :: logger
  lk_running :: bool
  lk_stack :: "nat \<Rightarrow> frame list"

text \<open>The part of \<^verbatim>\<open>log_message\<close> before the lock touches nothing shared but the level.\<close>

definition log_call :: "logger \<Rightarrow> u64 \<Rightarrow> log_level_t \<Rightarrow> string \<Rightarrow> int \<Rightarrow> string \<Rightarrow> frame list option" where
  "log_call lg ts level file line msg =
     (if level < g_log_level lg then Some []
      else do {
        name \<leftarrow> level_name level;
        text \<leftarrow> log_line (log_prefix ts name (base_name file) line) msg;
        Some [L_Lock text]
      })"

definition signal_handler :: "logger \<Rightarrow> u64 \<Rightarrow> string \<Rightarrow> frame list option" where
  "signal_handler lg ts file = do {
     fs \<leftarrow> log_call lg ts LOG_LEVEL_INFO file 26 ''Shutdown signal received, closing...'';
     Some (fs @ [H_Stop])
   }"

text \<open>One step of thread \<open>t\<close>: what replaces its topmost frame; \<^term>\<open>None\<close> when it has to wait.\<close>

fun frame_step :: "nat \<Rightarrow> frame \<Rightarrow> log_sys \<Rightarrow> (frame list \<times> log_sys) option" where
  "frame_step t (L_Lock x) s = (if lk_owner s = None then Some ([L_Console x], s\<lparr>lk_owner := Some t\<rparr>) else None)"
| "frame_step t (L_Console x) s =
     Some ([L_File x], s\<lparr>lk_logger := (lk_logger s)\<lparr>console := console (lk_logger s) @ [x]\<rparr>\<rparr>)"
| "frame_step t (L_File x) s =
     Some ([L_Unlock], case g_log_file (lk_logger s) of None \<Rightarrow> s
       | Some f \<Rightarrow> s\<lparr>lk_logger := (lk_logger s)\<lparr>files := (files (lk_logger s))(f := files (lk_logger s) f @ [x])\<rparr>\<rparr>)"
| "frame_step t L_Unlock s = Some ([], s\<lparr>lk_owner := None\<rparr>)"
| "frame_step t H_Stop s = Some ([], s\<lparr>lk_running := False\<rparr>)"

inductive thread_step :: "nat \<Rightarrow> log_sys \<Rightarrow> log_sys \<Rightarrow> bool" for t where
  run: "lk_stack s t = f # fs \<Longrightarrow> frame_step t f s = Some (gs, s')
    \<Longrightarrow> thread_step t s (s'\<lparr>lk_stack := (lk_stack s)(t := gs @ fs)\<rparr>)"

inductive log_step :: "log_sys \<Rightarrow> log_sys \<Rightarrow> bool" where
  call: "lk_stack s t = [] \<Longrightarrow> log_call (lk_logger s) ts level file line msg = Some fs
    \<Longrightarrow> log_step s (s\<lparr>lk_stack := (lk_stack s)(t := fs)\<rparr>)"
| signal: "signal_handler (lk_logger s) ts file = Some fs
    \<Longrightarrow> log_step s (s\<lparr>lk_stack := (lk_stack s)(t := fs @ lk_stack s t)\<rparr>)"
| thread: "thread_step t s s' \<Longrightarrow> log_step s s'"

definition quiet_system :: "logger \<Rightarrow> log_sys" where
  "quiet_system lg = \<lparr>lk_owner = None, lk_logger = lg, lk_running = True, lk_stack = (\<lambda>_. [])\<rparr>"

inductive lk_reach :: "logger \<Rightarrow> log_sys \<Rightarrow> bool" for lg where
  idle: "lk_reach lg (quiet_system lg)"
| more: "lk_reach lg s \<Longrightarrow> log_step s s' \<Longrightarrow> lk_reach lg s'"

section \<open>The invariant\<close>

fun holding :: "frame \<Rightarrow> bool" where
  "holding (L_Console x) = True"
| "holding (L_File x) = True"
| "holding L_Unlock = True"
| "holding _ = False"

text \<open>The lines the file still misses: the owner is between its two outputs.\<close>

definition unfiled :: "frame list \<Rightarrow> string list" where
  "unfiled fs = concat (map (\<lambda>f. case f of L_File x \<Rightarrow> [x] | _ \<Rightarrow> []) fs)"

definition pending :: "log_sys \<Rightarrow> string list" where
  "pending s = (case lk_owner s of None \<Rightarrow> [] | Some t \<Rightarrow> unfiled (lk_stack s t))"

text \<open>The logger after the lines \<open>xs\<close> went to the console and \<open>ys\<close> to the file.\<close>

definition wrote :: "logger \<Rightarrow> string list \<Rightarrow> string list \<Rightarrow> logger" where
  "wrote lg xs ys = lg\<lparr>console := console lg @ xs,
     files := (case g_log_file lg of None \<Rightarrow> files lg | Some f \<Rightarrow> (files lg)(f := files lg f @ ys))\<rparr>"

definition one_holder :: "log_sys \<Rightarrow> bool" where
  "one_holder s \<longleftrightarrow> (\<forall>t. length (filter holding (lk_stack s t)) = (if lk_owner s = Some t then 1 else 0))"

definition lk_inv :: "logger \<Rightarrow> log_sys \<Rightarrow> bool" where
  "lk_inv lg s \<longleftrightarrow> one_holder s \<and> (\<exists>ys. lk_logger s = wrote lg (ys @ pending s) ys)"

lemma unfiled_simps [simp]:
  "unfiled [] = []" "unfiled (fs @ gs) = unfiled fs @ unfiled gs" "unfiled (L_File x # fs) = x # unfiled fs"
  "unfiled (L_Console x # fs) = unfiled fs" "unfiled (L_Lock x # fs) = unfiled fs"
  "unfiled (L_Unlock # fs) = unfiled fs" "unfiled (H_Stop # fs) = unfiled fs"
  by (simp_all add: unfiled_def)

lemma unfiled_none: "filter holding fs = [] \<Longrightarrow> unfiled fs = []"
  by (induction fs) (auto simp: unfiled_def split: frame.splits if_splits)

lemma wrote_config [simp]:
  "g_log_file (wrote lg xs ys) = g_log_file lg" "g_log_level (wrote lg xs ys) = g_log_level lg"
  by (simp_all add: wrote_def)

lemma wrote_more:
  "(wrote lg xs ys)\<lparr>console := console (wrote lg xs ys) @ [x]\<rparr> = wrote lg (xs @ [x]) ys"
  "g_log_file lg = Some f \<Longrightarrow>
     (wrote lg xs ys)\<lparr>files := (files (wrote lg xs ys))(f := files (wrote lg xs ys) f @ [x])\<rparr> = wrote lg xs (ys @ [x])"
  "g_log_file lg = None \<Longrightarrow> wrote lg xs ys = wrote lg xs zs"
  by (simp_all add: wrote_def)

lemma log_call_frames: "log_call lg ts level file line msg = Some fs \<Longrightarrow> fs = [] \<or> (\<exists>x. fs = [L_Lock x])"
  by (auto simp: log_call_def bind_eq_Some_conv split: if_splits)

lemma signal_frames: "signal_handler lg ts file = Some fs \<Longrightarrow> fs = [H_Stop] \<or> (\<exists>x. fs = [L_Lock x, H_Stop])"
  by (auto simp: signal_handler_def bind_eq_Some_conv dest!: log_call_frames)

lemma one_holder_upd:
  assumes "one_holder s" "\<And>u. u \<noteq> t \<Longrightarrow> lk_owner s1 = Some u \<longleftrightarrow> lk_owner s = Some u"
    and "length (filter holding fs) = (if lk_owner s1 = Some t then 1 else 0)"
  shows "one_holder (s1\<lparr>lk_stack := (lk_stack s)(t := fs)\<rparr>)"
  unfolding one_holder_def
proof
  fix u
  show "length (filter holding (lk_stack (s1\<lparr>lk_stack := (lk_stack s)(t := fs)\<rparr>) u))
    = (if lk_owner (s1\<lparr>lk_stack := (lk_stack s)(t := fs)\<rparr>) = Some u then 1 else 0)"
  proof (cases "u = t")
    case False
    then show ?thesis using assms(1) assms(2) [of u] unfolding one_holder_def by simp
  qed (use assms(3) in simp)
qed

lemma lk_inv_stack:
  assumes "lk_inv lg s" "filter holding fs = []"
  shows "lk_inv lg (s\<lparr>lk_stack := (lk_stack s)(t := fs @ lk_stack s t)\<rparr>)"
proof -
  have "pending (s\<lparr>lk_stack := (lk_stack s)(t := fs @ lk_stack s t)\<rparr>) = pending s"
    using unfiled_none [OF assms(2)] by (auto simp: pending_def split: option.splits)
  moreover have "one_holder (s\<lparr>lk_stack := (lk_stack s)(t := fs @ lk_stack s t)\<rparr>)"
    using assms by (intro one_holder_upd) (simp_all add: lk_inv_def one_holder_def)
  ultimately show ?thesis using assms by (simp add: lk_inv_def)
qed

text \<open>What the topmost frame of a thread says about the lock.\<close>

lemma one_holder_top:
  assumes "one_holder s" "lk_stack s t = f # fs"
  shows "holding f \<Longrightarrow> lk_owner s = Some t \<and> unfiled fs = [] \<and> filter holding fs = []"
    "lk_owner s \<noteq> Some t \<Longrightarrow> unfiled fs = [] \<and> filter holding fs = []"
proof -
  have "length (filter holding (f # fs)) = (if lk_owner s = Some t then 1 else 0)"
    using assms unfolding one_holder_def by metis
  then show "holding f \<Longrightarrow> lk_owner s = Some t \<and> unfiled fs = [] \<and> filter holding fs = []"
    "lk_owner s \<noteq> Some t \<Longrightarrow> unfiled fs = [] \<and> filter holding fs = []"
    by (auto intro: unfiled_none split: if_splits)
qed

lemma one_holder_step:
  assumes "one_holder s" "lk_stack s t = f # fs" "frame_step t f s = Some (gs, s1)"
  shows "one_holder (s1\<lparr>lk_stack := (lk_stack s)(t := gs @ fs)\<rparr>)"
proof (rule one_holder_upd [OF assms(1)])
  have "length (filter holding (f # fs)) = (if lk_owner s = Some t then 1 else 0)"
    using assms(1,2) unfolding one_holder_def by metis
  then show "length (filter holding (gs @ fs)) = (if lk_owner s1 = Some t then 1 else 0)"
    using assms(3) by (cases f) (auto split: if_splits option.splits)
  show "lk_owner s1 = Some u \<longleftrightarrow> lk_owner s = Some u" if "u \<noteq> t" for u
    using that assms(3) one_holder_top(1) [OF assms(1,2)] by (cases f) (auto split: if_splits option.splits)
qed

lemma outputs_step:
  assumes "one_holder s" "lk_stack s t = f # fs" "frame_step t f s = Some (gs, s1)"
    and "lk_logger s = wrote lg (ys @ pending s) ys"
  shows "\<exists>zs. lk_logger s1 = wrote lg (zs @ pending (s1\<lparr>lk_stack := (lk_stack s)(t := gs @ fs)\<rparr>)) zs"
proof (cases f)
  case (L_Lock x)
  then show ?thesis using assms one_holder_top(2) [OF assms(1,2)]
    by (auto simp: pending_def split: if_splits)
next
  case (L_Console x)
  then show ?thesis using assms one_holder_top(1) [OF assms(1,2)] wrote_more(1) [of lg ys ys x]
    by (auto simp: pending_def)
next
  case (L_File x)
  note top = one_holder_top(1) [OF assms(1,2)]
  have lg: "lk_logger s = wrote lg (ys @ [x]) ys" using assms top L_File by (simp add: pending_def)
  then have "lk_logger s1 = wrote lg (ys @ [x]) (ys @ [x])"
    using assms(3) L_File wrote_more(2) [of lg _ "ys @ [x]" ys x] wrote_more(3) [of lg "ys @ [x]" ys "ys @ [x]"]
    by (auto split: option.splits)
  then show ?thesis using assms(3) top L_File by (auto simp: pending_def split: option.splits)
next
  case L_Unlock
  then show ?thesis using assms one_holder_top(1) [OF assms(1,2)] by (auto simp: pending_def)
next
  case H_Stop
  then show ?thesis using assms by (auto simp: pending_def split: option.splits intro!: exI [of _ ys])
qed

lemma lk_inv_step: "log_step s s' \<Longrightarrow> lk_inv lg s \<Longrightarrow> lk_inv lg s'"
proof (induction rule: log_step.induct)
  case (call s t ts level path line msg fs)
  then have "filter holding fs = []" using log_call_frames [OF call(2)] by auto
  with call show ?case using lk_inv_stack [of lg s fs t] by simp
next
  case (signal s ts path fs t)
  then have "filter holding fs = []" using signal_frames [OF signal(1)] by auto
  with signal show ?case using lk_inv_stack [of lg s fs t] by simp
next
  case (thread t s s')
  then obtain f fs gs s1 where step: "lk_stack s t = f # fs" "frame_step t f s = Some (gs, s1)"
    "s' = s1\<lparr>lk_stack := (lk_stack s)(t := gs @ fs)\<rparr>" by (auto elim: thread_step.cases)
  then show ?case using thread one_holder_step [OF _ step(1,2)] outputs_step [OF _ step(1,2)]
    by (auto simp: lk_inv_def)
qed

lemma lk_reach_inv: "lk_reach lg s \<Longrightarrow> lk_inv lg s"
proof (induction rule: lk_reach.induct)
  case idle
  have "lg = wrote lg [] []" by (simp add: wrote_def split: option.splits)
  then show ?case by (auto simp: lk_inv_def one_holder_def quiet_system_def pending_def intro: exI [of _ "[]"])
qed (rule lk_inv_step)

section \<open>One thread alone\<close>

lemma log_call_None: "log_call lg ts level file line msg = None \<longleftrightarrow> log_message lg ts level file line msg = None"
  by (auto simp: log_call_def log_message_def bind_eq_None_conv Let_def)

text \<open>A call without interference does what \<^const>\<open>log_message\<close> says.\<close>

lemma log_call_alone:
  assumes "lk_owner s = None" "lk_stack s t = []" "log_message (lk_logger s) ts level file line msg = Some lg'"
  shows "\<exists>s'. rtranclp log_step s s' \<and> lk_owner s' = None \<and> lk_stack s' = lk_stack s \<and> lk_logger s' = lg'
    \<and> lk_running s' = lk_running s"
proof -
  obtain fs where fs: "log_call (lk_logger s) ts level file line msg = Some fs"
    using assms(3) log_call_None by (metis option.distinct(1) option.exhaust)
  let ?s1 = "s\<lparr>lk_stack := (lk_stack s)(t := fs)\<rparr>"
  have one: "log_step s ?s1" using call [OF assms(2) fs] .
  consider "fs = []" "lg' = lk_logger s"
    | x where "fs = [L_Lock x]" "lg' = (let lg = (lk_logger s)\<lparr>console := console (lk_logger s) @ [x]\<rparr> in
        case g_log_file lg of None \<Rightarrow> lg | Some f \<Rightarrow> lg\<lparr>files := (files lg)(f := files lg f @ [x])\<rparr>)"
    using fs assms(3) by (auto simp: log_call_def log_message_def bind_eq_Some_conv Let_def split: if_splits)
  then show ?thesis
  proof cases
    case 1
    then have "?s1 = s" using assms(2) by (simp add: fun_upd_idem)
    then show ?thesis using assms 1 by (intro exI [of _ s]) simp
  next
    case 2
    let ?s2 = "s\<lparr>lk_owner := Some t, lk_stack := (lk_stack s)(t := [L_Console x])\<rparr>"
    let ?s3 = "s\<lparr>lk_owner := Some t, lk_logger := (lk_logger s)\<lparr>console := console (lk_logger s) @ [x]\<rparr>,
        lk_stack := (lk_stack s)(t := [L_File x])\<rparr>"
    let ?s4 = "s\<lparr>lk_owner := Some t, lk_logger := lg', lk_stack := (lk_stack s)(t := [L_Unlock])\<rparr>"
    let ?s5 = "s\<lparr>lk_logger := lg', lk_owner := None\<rparr>"
    have "thread_step t ?s1 ?s2" using run [of ?s1 t "L_Lock x" "[]"] assms 2 by simp
    moreover have "thread_step t ?s2 ?s3" using run [of ?s2 t "L_Console x" "[]"] by simp
    moreover have "thread_step t ?s3 ?s4" using run [of ?s3 t "L_File x" "[]"] 2(2)
      by (simp add: Let_def split: option.splits)
    moreover have "thread_step t ?s4 ?s5" using run [of ?s4 t L_Unlock "[]"] assms(2) by (simp add: fun_upd_idem)
    ultimately have "rtranclp log_step s ?s5" using one thread by (meson converse_rtranclp_into_rtranclp r_into_rtranclp)
    then show ?thesis by (intro exI [of _ ?s5]) simp
  qed
qed

section \<open>Waiting for oneself\<close>

definition jammed :: "nat \<Rightarrow> log_sys \<Rightarrow> bool" where
  "jammed t s \<longleftrightarrow> lk_owner s = Some t \<and> (\<exists>x fs. lk_stack s t = L_Lock x # fs)
     \<and> (\<forall>u. take 1 (lk_stack s u) \<noteq> [H_Stop])"

lemma jammed_no_step:
  assumes "one_holder s" "jammed t s"
  shows "\<not> thread_step u s s'"
proof
  assume "thread_step u s s'"
  then obtain f fs gs s1 where step: "lk_stack s u = f # fs" "frame_step u f s = Some (gs, s1)"
    by (auto elim: thread_step.cases)
  have "f \<noteq> H_Stop" using assms(2) step(1) unfolding jammed_def by (metis One_nat_def take0 take_Suc_Cons)
  moreover have "\<not> holding f" using one_holder_top(1) [OF assms(1) step(1)] assms(2) step(1) by (auto simp: jammed_def)
  ultimately show False using step(2) assms(2) by (cases f) (auto simp: jammed_def)
qed

lemma signal_loud:
  "signal_handler lg ts file = Some fs \<Longrightarrow> g_log_level lg \<le> LOG_LEVEL_INFO \<Longrightarrow> \<exists>x. fs = [L_Lock x, H_Stop]"
  by (auto simp: signal_handler_def log_call_def bind_eq_Some_conv split: if_splits)

lemma jammed_step:
  assumes "log_step s s'" "one_holder s" "jammed t s" "g_log_level (lk_logger s) \<le> LOG_LEVEL_INFO"
  shows "jammed t s' \<and> lk_owner s' = lk_owner s \<and> lk_logger s' = lk_logger s \<and> lk_running s' = lk_running s"
  using assms
proof (induction rule: log_step.induct)
  case (call s u ts level path line msg fs)
  then show ?case using log_call_frames [OF call(2)] by (auto simp: jammed_def)
next
  case (signal s ts path fs u)
  then obtain x where "fs = [L_Lock x, H_Stop]" using signal_loud by blast
  then show ?case using signal by (auto simp: jammed_def)
next
  case (thread u s s')
  then show ?case using jammed_no_step by blast
qed

lemma jammed_forever:
  assumes "rtranclp log_step s s'" "lk_inv lg s" "jammed t s" "g_log_level lg \<le> LOG_LEVEL_INFO"
  shows "lk_inv lg s' \<and> jammed t s' \<and> lk_owner s' = lk_owner s \<and> lk_logger s' = lk_logger s \<and> lk_running s' = lk_running s"
  using assms
proof (induction rule: rtranclp_induct)
  case (step s1 s2)
  then have "lk_inv lg s1" "jammed t s1" by blast+
  moreover from this have "g_log_level (lk_logger s1) \<le> LOG_LEVEL_INFO" "one_holder s1"
    using step.prems(3) by (auto simp: lk_inv_def)
  ultimately show ?case using step jammed_step [OF step(2)] lk_inv_step [OF step(2), of lg] by metis
qed simp

lemma length_unfiled: "length (unfiled fs) \<le> length (filter holding fs)"
  by (induction fs) (auto simp: unfiled_def split: frame.splits)

lemma pending_short:
  assumes "one_holder s"
  shows "length (pending s) \<le> 1"
proof (cases "lk_owner s")
  case (Some t)
  then have "length (filter holding (lk_stack s t)) = 1" using assms by (simp add: one_holder_def)
  then show ?thesis using Some length_unfiled [of "lk_stack s t"] by (simp add: pending_def)
qed (simp add: pending_def)

text \<open>A thread that is not waiting for the lock can go on.\<close>

lemma frame_progress:
  assumes "lk_stack s t = f # fs" "lk_owner s = None \<or> (\<forall>x. f \<noteq> L_Lock x)"
  shows "\<exists>s'. thread_step t s s'"
proof -
  obtain gs s1 where "frame_step t f s = Some (gs, s1)" using assms(2) by (cases f) auto
  from run [OF assms(1) this] show ?thesis by blast
qed

lemma lk_progress:
  assumes "one_holder s" "lk_stack s t \<noteq> []"
  shows "(\<exists>t s'. thread_step t s s') \<or> (\<exists>t x fs. lk_owner s = Some t \<and> lk_stack s t = L_Lock x # fs)"
proof (cases "lk_owner s")
  case None
  then show ?thesis using assms(2) frame_progress [of s t "hd (lk_stack s t)" "tl (lk_stack s t)"] by auto
next
  case (Some u)
  then have "length (filter holding (lk_stack s u)) = 1" using assms(1) by (simp add: one_holder_def)
  then obtain f fs where "lk_stack s u = f # fs" by (cases "lk_stack s u") auto
  then show ?thesis using frame_progress [of s u f fs] Some by blast
qed

section \<open>Properties\<close>

text \<open>
  C33. The lock does its work, with any number of threads and signals at any time: console and log
  file have received the same complete lines in the same order, except that the last line of the
  console may not be in the file yet, while a thread holds the lock. Some thread with work to do
  can always go on, unless the thread that holds the lock is itself waiting for it.
\<close>

theorem logger_lock_serialises:
  assumes "lk_reach lg s"
  shows "\<exists>ys zs. lk_logger s = wrote lg (ys @ zs) ys \<and> length zs \<le> 1 \<and> (lk_owner s = None \<longrightarrow> zs = [])
    \<and> ((\<exists>t. lk_stack s t \<noteq> []) \<longrightarrow> (\<exists>t s'. thread_step t s s')
         \<or> (\<exists>t x fs. lk_owner s = Some t \<and> lk_stack s t = L_Lock x # fs))"
proof -
  have inv: "lk_inv lg s" using lk_reach_inv [OF assms] .
  then obtain ys where ys: "lk_logger s = wrote lg (ys @ pending s) ys" by (auto simp: lk_inv_def)
  moreover have "(\<exists>t s'. thread_step t s s') \<or> (\<exists>t x fs. lk_owner s = Some t \<and> lk_stack s t = L_Lock x # fs)"
    if "lk_stack s t \<noteq> []" for t
    using inv that by (intro lk_progress) (simp_all add: lk_inv_def)
  moreover have "length (pending s) \<le> 1" using inv pending_short by (simp add: lk_inv_def)
  moreover have "lk_owner s = None \<longrightarrow> pending s = []" by (simp add: pending_def)
  ultimately show ?thesis by (intro exI [of _ ys] exI [of _ "pending s"]) blast
qed

definition file_logger :: logger where
  "file_logger = \<lparr>g_log_file = Some ''run.log'', g_log_level = LOG_LEVEL_INFO, console = [], files = (\<lambda>_. [])\<rparr>"

text \<open>Thread 0 is about to write a line, and has the lock.\<close>

definition mid_call :: "string \<Rightarrow> log_sys" where
  "mid_call x = (quiet_system file_logger)\<lparr>lk_owner := Some 0, lk_stack := (\<lambda>_. [])(0 := [L_Console x])\<rparr>"

lemma mid_call_reach: "\<exists>x. lk_reach file_logger (mid_call x)"
proof -
  have "log_call file_logger 0 LOG_LEVEL_INFO ''main.c'' 139 ''Stopping'' \<noteq> None"
    unfolding log_call_None by (rule log_message_defined) (simp_all add: base_name_def dec_int_def dec.simps)
  then obtain fs where fs: "log_call file_logger 0 LOG_LEVEL_INFO ''main.c'' 139 ''Stopping'' = Some fs" by blast
  have "fs \<noteq> []" using fs by (auto simp: log_call_def file_logger_def bind_eq_Some_conv split: if_splits)
  then obtain x where x: "fs = [L_Lock x]" using log_call_frames [OF fs] by auto
  let ?s = "(quiet_system file_logger)\<lparr>lk_stack := (\<lambda>_. [])(0 := fs)\<rparr>"
  have "lk_reach file_logger ?s"
    using more [OF idle call, of file_logger 0 0 LOG_LEVEL_INFO "''main.c''" 139 "''Stopping''" fs] fs
    by (simp add: quiet_system_def)
  moreover have "thread_step 0 ?s (mid_call x)"
    using run [of ?s 0 "L_Lock x" "[]"] x by (simp add: mid_call_def quiet_system_def)
  ultimately show ?thesis using more thread by blast
qed

theorem logger_lock_serialises_witness:
  "\<exists>x ys zs. lk_logger (mid_call x) = wrote file_logger (ys @ zs) ys \<and> length zs \<le> 1 \<and> (\<exists>t s'. thread_step t (mid_call x) s')"
proof -
  obtain x where "lk_reach file_logger (mid_call x)" using mid_call_reach by blast
  from logger_lock_serialises [OF this] obtain ys zs where "lk_logger (mid_call x) = wrote file_logger (ys @ zs) ys"
    "length zs \<le> 1" "(\<exists>t. lk_stack (mid_call x) t \<noteq> []) \<longrightarrow> (\<exists>t s'. thread_step t (mid_call x) s')
       \<or> (\<exists>t y fs. lk_owner (mid_call x) = Some t \<and> lk_stack (mid_call x) t = L_Lock y # fs)" by blast
  moreover have "lk_owner (mid_call x) = Some 0" "lk_stack (mid_call x) 0 = [L_Console x]" by (simp_all add: mid_call_def)
  ultimately show ?thesis by (metis frame.distinct(1) list.inject list.distinct(1) option.inject)
qed

text \<open>
  C20. A signal that interrupts \<^verbatim>\<open>log_message\<close> while its thread holds the lock stops the
  program for good: the handler logs before it clears \<^verbatim>\<open>g_running\<close>, waits for a lock
  that only the interrupted call could release, and from then on, whatever calls and further signals
  follow, no thread gets past a log message, nothing more is written and \<^verbatim>\<open>g_running\<close>
  keeps its value, so the request to terminate is never seen.
\<close>

theorem signal_while_logging_deadlocks:
  assumes "lk_reach lg s" "lk_owner s = Some t" "g_log_level lg \<le> LOG_LEVEL_INFO"
    and "\<forall>u. take 1 (lk_stack s u) \<noteq> [H_Stop]"
    and "signal_handler (lk_logger s) ts file = Some fs"
    and "rtranclp log_step (s\<lparr>lk_stack := (lk_stack s)(t := fs @ lk_stack s t)\<rparr>) s'"
  shows "lk_owner s' = Some t \<and> lk_running s' = lk_running s \<and> lk_logger s' = lk_logger s
    \<and> (\<forall>u s''. \<not> thread_step u s' s'')"
proof -
  let ?s = "s\<lparr>lk_stack := (lk_stack s)(t := fs @ lk_stack s t)\<rparr>"
  have inv: "lk_inv lg s" using lk_reach_inv [OF assms(1)] .
  then obtain x where x: "fs = [L_Lock x, H_Stop]"
    using signal_loud [OF assms(5)] assms(3) by (auto simp: lk_inv_def)
  then have "jammed t ?s" using assms(2,4) by (simp add: jammed_def)
  moreover have "lk_inv lg ?s" using lk_inv_stack [OF inv, of fs t] x by simp
  ultimately have "lk_inv lg s' \<and> jammed t s' \<and> lk_owner s' = Some t \<and> lk_logger s' = lk_logger s \<and> lk_running s' = lk_running s"
    using jammed_forever [OF assms(6)] assms(2,3) by auto
  then show ?thesis using jammed_no_step by (auto simp: lk_inv_def)
qed

theorem signal_while_logging_deadlocks_witness:
  "\<exists>s. lk_reach file_logger s \<and> lk_running s \<and> lk_owner s = Some 0 \<and> (\<forall>u s'. \<not> thread_step u s s')"
proof -
  obtain x where x: "lk_reach file_logger (mid_call x)" using mid_call_reach by blast
  have "log_call file_logger 0 LOG_LEVEL_INFO ''main.c'' 26 ''Shutdown signal received, closing...'' \<noteq> None"
    unfolding log_call_None by (rule log_message_defined) (simp_all add: base_name_def dec_int_def dec.simps)
  then obtain fs where fs: "signal_handler (lk_logger (mid_call x)) 0 ''main.c'' = Some fs"
    by (auto simp: signal_handler_def mid_call_def quiet_system_def)
  let ?s = "(mid_call x)\<lparr>lk_stack := (lk_stack (mid_call x))(0 := fs @ lk_stack (mid_call x) 0)\<rparr>"
  have s: "lk_owner (mid_call x) = Some 0" "g_log_level file_logger \<le> LOG_LEVEL_INFO"
    "\<forall>u. take 1 (lk_stack (mid_call x) u) \<noteq> [H_Stop]"
    by (simp_all add: mid_call_def file_logger_def)
  have "lk_reach file_logger ?s" using more [OF x signal [OF fs]] .
  moreover have "lk_running (mid_call x)" by (simp add: mid_call_def quiet_system_def)
  ultimately show ?thesis
    using signal_while_logging_deadlocks [OF x s fs rtranclp.rtrancl_refl] by metis
qed

end
