(* ===== verification/Timestamp_Win.thy ===== *)
theory Timestamp_Win
  imports Timestamp "HOL-Library.Signed_Division"
begin

text \<open>
  Time keeping on Windows: the other branch of \<^verbatim>\<open>src/utils/timestamp.c\<close>. The system
  calls are a parameter, a record of functions on the state \<open>'w\<close> of the system; the
  conversions, the spin loop, the timer pool and its index are the repository's. Undefined behaviour
  (a division by zero, an access outside the timer pool) is \<^term>\<open>None\<close>.
\<close>

record 'w win_api =
  QueryPerformanceFrequency :: "'w \<Rightarrow> bool \<times> u64 \<times> 'w"
  QueryPerformanceCounter :: "'w \<Rightarrow> u64 \<times> 'w"
  CreateWaitableTimer :: "'w \<Rightarrow> nat \<times> 'w"
  SetWaitableTimer :: "nat \<Rightarrow> i64 \<Rightarrow> 'w \<Rightarrow> bool \<times> 'w"
  WaitForSingleObject :: "nat \<Rightarrow> 'w \<Rightarrow> 'w"
  win_Sleep :: "u32 \<Rightarrow> 'w \<Rightarrow> 'w"

text \<open>The static variables of the branch.\<close>

record win_time =
  g_freq :: u64
  g_freq_initialized :: bool
  g_timer_pool :: "nat list"
  g_timer_index :: i32
  g_timer_pool_initialized :: bool

definition TIMER_POOL_SIZE :: nat where
  "TIMER_POOL_SIZE = 4"

fun create_timers :: "'w win_api \<Rightarrow> nat \<Rightarrow> 'w \<Rightarrow> nat list \<times> 'w" where
  "create_timers api 0 w = ([], w)"
| "create_timers api (Suc n) w =
     (let (t, w) = CreateWaitableTimer api w; (ts, w) = create_timers api n w in (t # ts, w))"

definition win_timestamp_init :: "'w win_api \<Rightarrow> win_time \<times> 'w \<Rightarrow> win_time \<times> 'w" where
  "win_timestamp_init api s =
     (let (st, w) = s;
          (ok, f, w) = QueryPerformanceFrequency api w;
          st = st\<lparr>g_freq := f, g_freq_initialized := ok\<rparr>
      in if g_timer_pool_initialized st then (st, w)
         else let (ts, w) = create_timers api TIMER_POOL_SIZE w
              in (st\<lparr>g_timer_pool := ts, g_timer_pool_initialized := True\<rparr>, w))"

definition win_get_timestamp_us :: "'w win_api \<Rightarrow> win_time \<times> 'w \<Rightarrow> (u64 \<times> win_time \<times> 'w) option" where
  "win_get_timestamp_us api s =
     (let (st, w) = (if \<not> g_freq_initialized (fst s) then win_timestamp_init api s else s);
          (count, w) = QueryPerformanceCounter api w
      in if g_freq st = 0 then None else Some ((count * 1000000) div g_freq st, st, w))"

definition win_get_timestamp_ms :: "'w win_api \<Rightarrow> win_time \<times> 'w \<Rightarrow> (u64 \<times> win_time \<times> 'w) option" where
  "win_get_timestamp_ms api s = map_option (\<lambda>(us, s). (us div 1000, s)) (win_get_timestamp_us api s)"

definition win_get_timestamp_ns :: "'w win_api \<Rightarrow> win_time \<times> 'w \<Rightarrow> (u64 \<times> win_time \<times> 'w) option" where
  "win_get_timestamp_ns api s =
     (let (st, w) = (if \<not> g_freq_initialized (fst s) then win_timestamp_init api s else s);
          (count, w) = QueryPerformanceCounter api w
      in if g_freq st = 0 then None else Some ((count * 1000000000) div g_freq st, st, w))"

partial_function (option) spin_loop :: "'w win_api \<Rightarrow> u64 \<Rightarrow> u64 \<Rightarrow> win_time \<times> 'w \<Rightarrow> (win_time \<times> 'w) option" where
  "spin_loop api start us s =
     (case win_get_timestamp_us api s of None \<Rightarrow> None
      | Some (now, s) \<Rightarrow> if now - start < us then spin_loop api start us s else Some s)"

definition spin_wait_us :: "'w win_api \<Rightarrow> u64 \<Rightarrow> win_time \<times> 'w \<Rightarrow> (win_time \<times> 'w) option" where
  "spin_wait_us api us s =
     (case win_get_timestamp_us api s of None \<Rightarrow> None | Some (start, s) \<Rightarrow> spin_loop api start us s)"

text \<open>
  The remainder of the pool index is C's, with the sign of the dividend; the index itself is a
  32-bit \<^verbatim>\<open>LONG\<close> that \<^verbatim>\<open>InterlockedIncrement\<close> wraps around.
\<close>

definition win_sleep_us :: "'w win_api \<Rightarrow> u64 \<Rightarrow> win_time \<times> 'w \<Rightarrow> (win_time \<times> 'w) option" where
  "win_sleep_us api us s =
     (if us = 0 then Some s
      else if us < 100 then spin_wait_us api us s
      else let (st, w) = s;
               fallback = (\<lambda>st w. Some (st, win_Sleep api (ucast ((us + 999) div 1000)) w))
           in if g_timer_pool_initialized st
              then let i = g_timer_index st + 1;
                       st = st\<lparr>g_timer_index := i\<rparr>;
                       idx = sint i smod int TIMER_POOL_SIZE
                   in if idx < 0 \<or> int (length (g_timer_pool st)) \<le> idx then None
                      else let timer = g_timer_pool st ! nat idx;
                               (ok, w) = SetWaitableTimer api timer (- (us * 10)) w
                           in if ok then Some (st, WaitForSingleObject api timer w) else fallback st w
              else fallback st w)"

definition win_sleep_ms :: "'w win_api \<Rightarrow> u32 \<Rightarrow> 'w \<Rightarrow> 'w" where
  "win_sleep_ms api ms w = win_Sleep api ms w"

text \<open>The cycle counter: the time stamp counter on 64-bit systems, the clock elsewhere.\<close>

definition win_get_cpu_cycles :: "bool \<Rightarrow> u64 \<Rightarrow> 'w win_api \<Rightarrow> win_time \<times> 'w \<Rightarrow> (u64 \<times> win_time \<times> 'w) option" where
  "win_get_cpu_cycles win64 rdtsc api s = (if win64 then Some (rdtsc, s) else win_get_timestamp_us api s)"

section \<open>Readings\<close>

text \<open>An initialised clock: the frequency is known and not zero, the pool has its four timers.\<close>

definition win_ready :: "win_time \<Rightarrow> bool" where
  "win_ready st \<longleftrightarrow> g_freq_initialized st \<and> g_freq st \<noteq> 0 \<and> g_timer_pool_initialized st
     \<and> length (g_timer_pool st) = TIMER_POOL_SIZE"

lemma create_timers_length: "length (fst (create_timers api n w)) = n"
  by (induction n arbitrary: w) (simp_all add: Let_def case_prod_beta)

lemma win_init_ready:
  assumes "QueryPerformanceFrequency api w = (True, f, w1)" "f \<noteq> 0" "\<not> g_timer_pool_initialized st"
  shows "win_ready (fst (win_timestamp_init api (st, w)))"
  using assms create_timers_length [of api TIMER_POOL_SIZE w1]
  by (auto simp: win_timestamp_init_def win_ready_def split: prod.splits)

lemma win_us_reading:
  assumes "win_ready st" "QueryPerformanceCounter api w = (c, w1)"
  shows "win_get_timestamp_us api (st, w) = Some (c * 1000000 div g_freq st, st, w1)"
  using assms by (simp add: win_get_timestamp_us_def win_ready_def)

lemma win_us_exact:
  assumes "win_ready st" "QueryPerformanceCounter api w = (c, w1)" "unat c * 1000000 < 2 ^ 64"
  shows "\<exists>v. win_get_timestamp_us api (st, w) = Some (v, st, w1)
    \<and> unat v = unat c * 1000000 div unat (g_freq st)"
  using win_us_reading [OF assms(1,2)] unat_scale [of c 1000000] assms(3) by (simp add: unat_div)

lemma win_ns_reading:
  assumes "win_ready st" "QueryPerformanceCounter api w = (c, w1)"
  shows "win_get_timestamp_ns api (st, w) = Some (c * 1000000000 div g_freq st, st, w1)"
  using assms by (simp add: win_get_timestamp_ns_def win_ready_def)

section \<open>Waiting\<close>

text \<open>
  The documented behaviour of the counter: it never stands still between two readings and
  advances by at most \<open>d\<close>; \<open>ticks w\<close> is the reading in state \<open>w\<close>.
\<close>

definition win_counter :: "'w win_api \<Rightarrow> ('w \<Rightarrow> nat) \<Rightarrow> nat \<Rightarrow> bool" where
  "win_counter api ticks d \<longleftrightarrow> (\<forall>w c w'. QueryPerformanceCounter api w = (c, w') \<longrightarrow>
     c = word_of_nat (ticks w) \<and> ticks w < ticks w' \<and> ticks w' \<le> ticks w + d)"

lemma spin_loop_law:
  assumes ready: "win_ready st" and clock: "win_counter api ticks d"
    and start: "unat start \<le> ticks w * 1000000 div unat (g_freq st)"
    and room: "ticks w * 1000000 < 2 ^ 64" "(unat start + unat us) * unat (g_freq st) + d * 1000000 < 2 ^ 64"
  shows "\<exists>w'. spin_loop api start us (st, w) = Some (st, w')
    \<and> unat start + unat us \<le> ticks w' * 1000000 div unat (g_freq st)"
  using start room(1)
proof (induction "2 ^ 64 - ticks w" arbitrary: w rule: less_induct)
  case less
  let ?f = "unat (g_freq st)" and ?t = "ticks w * 1000000"
  obtain c w1 where q: "QueryPerformanceCounter api w = (c, w1)" by (cases "QueryPerformanceCounter api w")
  then have c: "c = word_of_nat (ticks w)" and adv: "ticks w < ticks w1" "ticks w1 \<le> ticks w + d"
    using clock unfolding win_counter_def by blast+
  have uc: "unat c = ticks w" using less.prems(2) c by (simp add: unat_of_nat)
  then obtain v where v: "win_get_timestamp_us api (st, w) = Some (v, st, w1)" "unat v = ?t div ?f"
    using win_us_exact [OF ready q] less.prems(2) by auto
  have f: "0 < ?f" using ready by (simp add: win_ready_def unat_gt_0)
  have mono: "?t div ?f \<le> ticks w1 * 1000000 div ?f" using adv(1) by (intro div_le_mono) simp
  have "start \<le> v" using less.prems(1) v(2) by (simp add: word_le_nat_alt)
  then have diff: "unat (v - start) = ?t div ?f - unat start" by (simp add: unat_sub v(2))
  show ?case
  proof (cases "v - start < us")
    case True
    then have "?t div ?f < unat start + unat us" using diff less.prems(1) by (simp add: word_less_nat_alt)
    then have "?t < (unat start + unat us) * ?f" using f by (simp add: div_less_iff_less_mult)
    then have t1: "ticks w1 * 1000000 < 2 ^ 64" using adv(2) room(2) by (simp add: algebra_simps)
    have "2 ^ 64 - ticks w1 < 2 ^ 64 - ticks w" using adv(1) t1 by linarith
    from less.hyps [OF this _ t1] less.prems(1) mono v(1) True show ?thesis
      by (simp add: spin_loop.simps [of api start us "(st, w)"])
  next
    case False
    then have "unat us \<le> ?t div ?f - unat start" using diff by (simp add: word_less_nat_alt)
    then have "unat start + unat us \<le> ?t div ?f" using less.prems(1) by linarith
    with mono v(1) False show ?thesis by (simp add: spin_loop.simps [of api start us "(st, w)"])
  qed
qed

lemma smod_pool:
  "(i :: int) smod 4 < 0 \<longleftrightarrow> i < 0 \<and> \<not> 4 dvd i" "(i :: int) smod 4 < 4"
proof -
  have "0 \<le> \<bar>i\<bar> mod 4" "\<bar>i\<bar> mod 4 < 4" "\<bar>i\<bar> mod 4 = 0 \<longleftrightarrow> 4 dvd i" by presburger+
  then show "i smod 4 < 0 \<longleftrightarrow> i < 0 \<and> \<not> 4 dvd i" "i smod 4 < 4"
    by (auto simp: signed_modulo_int_def sgn_if)
qed

section \<open>Properties\<close>

text \<open>A counter of 10 MHz, the usual frequency; the state is the number of ticks.\<close>

definition demo_win_api :: "nat win_api" where
  "demo_win_api = \<lparr>QueryPerformanceFrequency = (\<lambda>w. (True, 10000000, w)),
     QueryPerformanceCounter = (\<lambda>w. (word_of_nat w, Suc w)), CreateWaitableTimer = (\<lambda>w. (7, w)),
     SetWaitableTimer = (\<lambda>t due w. (True, w + unat (- due))), WaitForSingleObject = (\<lambda>t w. w),
     win_Sleep = (\<lambda>ms w. w + 10000 * unat ms)\<rparr>"

definition demo_time :: win_time where
  "demo_time = \<lparr>g_freq = 10000000, g_freq_initialized = True, g_timer_pool = [7, 7, 7, 7],
     g_timer_index = 0, g_timer_pool_initialized = True\<rparr>"

lemma demo_api_simps [simp]:
  "QueryPerformanceCounter demo_win_api n = (word_of_nat n, Suc n)" "g_freq demo_time = 10000000"
  by (simp_all add: demo_win_api_def demo_time_def)

lemma demo_time_ready [simp]: "win_ready demo_time"
  by (simp add: win_ready_def demo_time_def TIMER_POOL_SIZE_def)

text \<open>
  The microsecond clock of the Windows branch is exact only while the counter times
  \<open>10 ^ 6\<close> fits in 64 bits, and falls back to the first tick when it no longer does: the
  reading one tick after the last exact one is less than the time of one tick. (At 10 MHz this
  happens 21 days after the system was started.)
\<close>

theorem win_timestamp_wraps:
  assumes "win_ready st" "QueryPerformanceCounter api w = (c, w1)" "QueryPerformanceCounter api w1 = (c + 1, w2)"
    and "unat c * 1000000 < 2 ^ 64" "2 ^ 64 \<le> (unat c + 1) * 1000000"
  shows "\<exists>a b. win_get_timestamp_us api (st, w) = Some (a, st, w1)
    \<and> win_get_timestamp_us api (st, w1) = Some (b, st, w2)
    \<and> unat a = unat c * 1000000 div unat (g_freq st) \<and> unat b * unat (g_freq st) < 1000000"
proof -
  obtain a where a: "win_get_timestamp_us api (st, w) = Some (a, st, w1)"
    "unat a = unat c * 1000000 div unat (g_freq st)" using win_us_exact [OF assms(1,2,4)] by blast
  have c: "unat (c + 1) = unat c + 1" using assms(4) by (simp add: unat_word_ariths)
  have "unat ((c + 1) * 1000000) = (unat c + 1) * 1000000 mod 2 ^ 64"
    by (simp only: unat_word_ariths(2) c) simp
  also have "\<dots> = ((unat c + 1) * 1000000 - 2 ^ 64) mod 2 ^ 64" using assms(5) by (rule le_mod_geq)
  also have "\<dots> = (unat c + 1) * 1000000 - 2 ^ 64" using assms(4) by (intro mod_less) simp
  also have "\<dots> < 1000000" using assms(4) by simp
  finally have small: "unat ((c + 1) * 1000000) < 1000000" .
  have "unat ((c + 1) * 1000000 div g_freq st) * unat (g_freq st) \<le> unat ((c + 1) * 1000000)"
    unfolding unat_div by (rule div_times_less_eq_dividend)
  with small have "unat ((c + 1) * 1000000 div g_freq st) * unat (g_freq st) < 1000000" by (rule le_less_trans [rotated])
  with a win_us_reading [OF assms(1,3)] show ?thesis by blast
qed

theorem win_timestamp_wraps_witness:
  "\<exists>a b. win_get_timestamp_us demo_win_api (demo_time, 18446744073709) = Some (a, demo_time, 18446744073710)
     \<and> win_get_timestamp_us demo_win_api (demo_time, 18446744073710) = Some (b, demo_time, 18446744073711)
     \<and> unat a = 1844674407370 \<and> unat b = 0"
  using win_timestamp_wraps [of demo_time demo_win_api 18446744073709 18446744073709 18446744073710 18446744073711]
  by auto

text \<open>
  C36. The timer pool of \<^verbatim>\<open>sleep_us\<close> is indexed by a signed 32-bit counter: a sleep of at
  least 100 microseconds accesses the pool outside its bounds exactly when the incremented counter
  is negative and no multiple of four, that is in three of every four calls once the counter has
  passed \<open>2 ^ 31 - 1\<close>.
\<close>

theorem win_sleep_pool_bounds:
  assumes "win_ready st" "100 \<le> us"
  shows "win_sleep_us api us (st, w) = None
    \<longleftrightarrow> sint (g_timer_index st + 1) < 0 \<and> \<not> 4 dvd sint (g_timer_index st + 1)"
proof -
  have "us \<noteq> 0" "\<not> us < 100" using assms(2) by auto
  with assms(1) smod_pool [of "sint (g_timer_index st + 1)"] show ?thesis
    by (auto simp: win_sleep_us_def win_ready_def TIMER_POOL_SIZE_def Let_def split: prod.splits)
qed

theorem win_sleep_pool_bounds_witness:
  "win_sleep_us demo_win_api 100 (demo_time\<lparr>g_timer_index := 0x80000000\<rparr>, 0) = None
   \<and> win_sleep_us demo_win_api 100 (demo_time, 0) \<noteq> None"
proof -
  have r: "win_ready (demo_time\<lparr>g_timer_index := i\<rparr>)" for i
    using demo_time_ready by (simp add: win_ready_def)
  show ?thesis
    using win_sleep_pool_bounds [OF r, of 100 demo_win_api "0x80000000" 0] win_sleep_pool_bounds [OF r, of 100 demo_win_api 0 0]
    by (simp add: demo_time_def del: not_None_eq)
qed

text \<open>
  The documented behaviour of the waiting calls, in units of 100 nanoseconds: a timer set to a
  negative due time of \<open>n\<close> units signals no earlier than that, and \<^verbatim>\<open>Sleep\<close> waits at
  least the given milliseconds.
\<close>

definition win_waits :: "'w win_api \<Rightarrow> ('w \<Rightarrow> nat) \<Rightarrow> bool" where
  "win_waits api waited \<longleftrightarrow>
     (\<forall>t n w ok w'. n < 2 ^ 63 \<and> SetWaitableTimer api t (- word_of_nat n) w = (ok, w') \<longrightarrow>
        (if ok then waited w + n \<le> waited (WaitForSingleObject api t w') else waited w \<le> waited w'))
     \<and> (\<forall>ms w. waited w + unat ms * 10000 \<le> waited (win_Sleep api ms w))"

lemma round_up_ms:
  assumes "unat (us :: u64) \<le> 10 ^ 12"
  shows "unat us * 10 \<le> unat (ucast ((us + 999) div 1000) :: u32) * 10000"
proof -
  have "unat (us + 999) = unat us + 999" using assms by (simp add: unat_word_ariths)
  then have d: "unat ((us + 999) div 1000) = (unat us + 999) div 1000" by (simp add: unat_div)
  also have "\<dots> < 2 ^ 32" using assms by (simp add: div_less_iff_less_mult)
  finally have "unat (ucast ((us + 999) div 1000) :: u32) = (unat us + 999) div 1000"
    using d by (simp add: unsigned_ucast_eq take_bit_nat_eq_self)
  moreover have "unat us \<le> (unat us + 999) div 1000 * 1000"
    using div_mult_mod_eq [of "unat us + 999" 1000] mod_less_divisor [of 1000 "unat us + 999"] by linarith
  ultimately show ?thesis by simp
qed

text \<open>
  Until the index overflows, a sleep of 100 microseconds to \<open>10 ^ 12\<close> microseconds does not
  end early, whether the timer could be set or not.
\<close>

theorem win_sleep_not_early:
  assumes "win_ready st" "win_waits api waited" "100 \<le> us" "unat us \<le> 10 ^ 12" "0 \<le> sint (g_timer_index st + 1)"
  shows "\<exists>st' w'. win_sleep_us api us (st, w) = Some (st', w') \<and> waited w + unat us * 10 \<le> waited w'"
proof -
  have us: "us \<noteq> 0" "\<not> us < 100" using assms(3) by auto
  have n: "unat us * 10 < 2 ^ 63" using assms(4) by simp
  let ?i = "sint (g_timer_index st + 1) smod 4"
  let ?t = "g_timer_pool st ! nat ?i"
  have idx: "\<not> ?i < 0" "?i < 4" using smod_pool [of "sint (g_timer_index st + 1)"] assms(5) by auto
  obtain ok w1 where set: "SetWaitableTimer api ?t (- word_of_nat (unat us * 10)) w = (ok, w1)" by fastforce
  have law: "if ok then waited w + unat us * 10 \<le> waited (WaitForSingleObject api ?t w1) else waited w \<le> waited w1"
    using assms(2) n set unfolding win_waits_def by blast
  have "waited w1 + unat us * 10 \<le> waited (win_Sleep api (ucast ((us + 999) div 1000)) w1)"
  proof -
    have "waited w1 + unat (ucast ((us + 999) div 1000) :: u32) * 10000
        \<le> waited (win_Sleep api (ucast ((us + 999) div 1000)) w1)"
      using assms(2) unfolding win_waits_def by blast
    with round_up_ms [OF assms(4)] show ?thesis by linarith
  qed
  moreover have "win_sleep_us api us (st, w) = Some (st\<lparr>g_timer_index := g_timer_index st + 1\<rparr>,
      if ok then WaitForSingleObject api ?t w1 else win_Sleep api (ucast ((us + 999) div 1000)) w1)"
    using set us idx assms(1) by (simp add: win_sleep_us_def win_ready_def TIMER_POOL_SIZE_def Let_def)
  ultimately show ?thesis using law by (cases ok) simp_all
qed

theorem win_sleep_not_early_witness:
  "\<exists>st' w'. win_sleep_us demo_win_api 250 (demo_time, 5) = Some (st', w') \<and> 2505 \<le> w'"
proof -
  have "win_waits demo_win_api id" by (auto simp: win_waits_def demo_win_api_def unat_of_nat)
  from win_sleep_not_early [OF demo_time_ready this, of 250 5] show ?thesis
    by (simp add: demo_time_def)
qed

text \<open>
  The spin wait used below 100 microseconds returns, and not before the clock has advanced by
  the requested time, as long as the counter does not reach the overflow on the way.
\<close>

theorem win_spin_returns:
  assumes "win_ready st" "win_counter api ticks d" "ticks w * 1000000 < 2 ^ 64"
    and "(ticks w * 1000000 div unat (g_freq st) + unat us) * unat (g_freq st) + d * 1000000 < 2 ^ 64"
    and "(ticks w + d) * 1000000 < 2 ^ 64"
  shows "\<exists>w'. spin_wait_us api us (st, w) = Some (st, w')
    \<and> ticks w * 1000000 div unat (g_freq st) + unat us \<le> ticks w' * 1000000 div unat (g_freq st)"
proof -
  obtain c w1 where q: "QueryPerformanceCounter api w = (c, w1)" by (cases "QueryPerformanceCounter api w")
  then have c: "c = word_of_nat (ticks w)" and adv: "ticks w < ticks w1" "ticks w1 \<le> ticks w + d"
    using assms(2) unfolding win_counter_def by blast+
  have "unat c = ticks w" using assms(3) c by (simp add: unat_of_nat)
  then obtain v where v: "win_get_timestamp_us api (st, w) = Some (v, st, w1)"
    "unat v = ticks w * 1000000 div unat (g_freq st)" using win_us_exact [OF assms(1) q] assms(3) by auto
  have "unat v \<le> ticks w1 * 1000000 div unat (g_freq st)" unfolding v(2) using adv(1) by (intro div_le_mono) simp
  moreover have "ticks w1 * 1000000 < 2 ^ 64" using adv(2) assms(5) by simp
  ultimately show ?thesis
    using spin_loop_law [OF assms(1,2), of v w1 us] v assms(4) by (simp add: spin_wait_us_def)
qed

theorem win_spin_returns_witness:
  "\<exists>w'. spin_wait_us demo_win_api 20 (demo_time, 1000) = Some (demo_time, w') \<and> 120 \<le> w' * 1000000 div 10000000"
proof -
  have "win_counter demo_win_api id 1" by (auto simp: win_counter_def demo_win_api_def)
  from win_spin_returns [OF demo_time_ready this, of 1000 20] show ?thesis by (simp add: demo_time_def)
qed

end
