(* ===== verification/Winsock.thy ===== *)
theory Winsock
  imports Prelude
begin

text \<open>
  The reference count that opens and closes Winsock in \<^verbatim>\<open>src/network/tcp_client.c\<close>: on
  Windows \<^verbatim>\<open>tcp_client_create\<close> calls \<^verbatim>\<open>winsock_acquire\<close> and
  \<^verbatim>\<open>tcp_client_destroy\<close> calls \<^verbatim>\<open>winsock_release\<close>. The system is represented by
  the number of successful calls of \<^verbatim>\<open>WSAStartup\<close> that no \<^verbatim>\<open>WSACleanup\<close> has
  undone; Winsock may be used while it is positive.
\<close>

section \<open>The two functions\<close>

record winsock =
  g_wsa_refcount :: i32
  wsa_started :: nat

definition winsock_acquire :: "bool \<Rightarrow> winsock \<Rightarrow> bool \<times> winsock" where
  "winsock_acquire startup_ok w =
     (let refcount = g_wsa_refcount w + 1;
          w = w\<lparr>g_wsa_refcount := refcount\<rparr>
      in if refcount = 1
         then if \<not> startup_ok then (False, w\<lparr>g_wsa_refcount := g_wsa_refcount w - 1\<rparr>)
              else (True, w\<lparr>wsa_started := wsa_started w + 1\<rparr>)
         else (True, w))"

definition winsock_release :: "winsock \<Rightarrow> winsock" where
  "winsock_release w =
     (let refcount = g_wsa_refcount w - 1;
          w = w\<lparr>g_wsa_refcount := refcount\<rparr>
      in if refcount = 0 then w\<lparr>wsa_started := wsa_started w - 1\<rparr>
         else if sint refcount < 0 then w\<lparr>g_wsa_refcount := 0\<rparr>
         else w)"

definition winsock_idle :: winsock where
  "winsock_idle = \<lparr>g_wsa_refcount = 0, wsa_started = 0\<rparr>"

text \<open>
  A sequence of calls, one after the other: \<open>Some ok\<close> creates a client, with the result of the
  system call should it be made, \<open>None\<close> destroys one, if there is one. The number counts the
  clients that exist.
\<close>

fun winsock_run :: "bool option list \<Rightarrow> winsock \<times> nat \<Rightarrow> winsock \<times> nat" where
  "winsock_run [] s = s"
| "winsock_run (Some ok # cs) (w, k) =
     (case winsock_acquire ok w of (r, w) \<Rightarrow> winsock_run cs (w, if r then k + 1 else k))"
| "winsock_run (None # cs) (w, k) =
     (if k = 0 then winsock_run cs (w, k) else winsock_run cs (winsock_release w, k - 1))"

definition winsock_inv :: "winsock \<times> nat \<Rightarrow> bool" where
  "winsock_inv s \<longleftrightarrow> (case s of (w, k) \<Rightarrow>
     g_wsa_refcount w = word_of_nat k \<and> wsa_started w = (if k = 0 then 0 else 1))"

lemma count_zero:
  assumes "k < 2 ^ 31"
  shows "(word_of_nat k :: i32) = 0 \<longleftrightarrow> k = 0"
proof -
  have "k = 0" if "(word_of_nat k :: i32) = 0"
  proof -
    have "k = unat (word_of_nat k :: i32)" using assms by (simp add: unat_of_nat)
    also have "\<dots> = 0" unfolding that by simp
    finally show ?thesis .
  qed
  then show ?thesis by auto
qed

lemma acquire_inv:
  assumes "winsock_inv (w, k)" "k < 2 ^ 31 - 1" "winsock_acquire ok w = (r, w')"
  shows "winsock_inv (w', if r then k + 1 else k)"
proof -
  have "(word_of_nat k + 1 :: i32) = 1 \<longleftrightarrow> k = 0" using count_zero [of k] assms(2) by simp
  then show ?thesis using assms(1,3)
    by (auto simp: winsock_inv_def winsock_acquire_def Let_def add.commute split: if_splits)
qed

lemma release_inv:
  assumes "winsock_inv (w, Suc k)" "Suc k < 2 ^ 31"
  shows "winsock_inv (winsock_release w, k)"
proof -
  have z: "(word_of_nat k :: i32) = 0 \<longleftrightarrow> k = 0" using count_zero [of k] assms(2) by simp
  have "sint (word_of_nat k :: i32) = int k" using assms(2) by (simp add: signed_of_nat signed_take_bit_int_eq_self)
  then show ?thesis using assms(1) z by (auto simp: winsock_inv_def winsock_release_def Let_def)
qed

text \<open>Fewer calls than the counter can hold.\<close>

lemma winsock_run_inv: "winsock_inv (w, k) \<Longrightarrow> k + length cs < 2 ^ 31 \<Longrightarrow> winsock_inv (winsock_run cs (w, k))"
proof (induction cs "(w, k)" arbitrary: w k rule: winsock_run.induct)
  case (2 ok cs w k)
  obtain r w' where "winsock_acquire ok w = (r, w')" by (metis surj_pair)
  with 2 acquire_inv [OF 2(2) _ this] show ?case by (cases r) auto
next
  case (3 cs w k)
  then show ?case using release_inv [of w "k - 1"] by (cases k) auto
qed simp

section \<open>Two threads\<close>

text \<open>
  \<^verbatim>\<open>winsock_acquire\<close> step by step: the interlocked increment, the system call, and the
  interlocked decrement after a failure. A thread is at \<open>W_In\<close> once the function has
  returned true.
\<close>

datatype ws_pc = W_Out | W_Starting | W_Failing | W_In

record ws_state =
  ws :: winsock
  ws_pcs :: "nat \<Rightarrow> ws_pc"

inductive acquire_step :: "ws_state \<Rightarrow> ws_state \<Rightarrow> bool" where
  first: "ws_pcs s i = W_Out \<Longrightarrow> g_wsa_refcount (ws s) + 1 = 1 \<Longrightarrow>
     acquire_step s (s\<lparr>ws := (ws s)\<lparr>g_wsa_refcount := g_wsa_refcount (ws s) + 1\<rparr>, ws_pcs := (ws_pcs s)(i := W_Starting)\<rparr>)"
| later: "ws_pcs s i = W_Out \<Longrightarrow> g_wsa_refcount (ws s) + 1 \<noteq> 1 \<Longrightarrow>
     acquire_step s (s\<lparr>ws := (ws s)\<lparr>g_wsa_refcount := g_wsa_refcount (ws s) + 1\<rparr>, ws_pcs := (ws_pcs s)(i := W_In)\<rparr>)"
| startup: "ws_pcs s i = W_Starting \<Longrightarrow>
     acquire_step s (s\<lparr>ws := (ws s)\<lparr>wsa_started := wsa_started (ws s) + 1\<rparr>, ws_pcs := (ws_pcs s)(i := W_In)\<rparr>)"
| startup_fails: "ws_pcs s i = W_Starting \<Longrightarrow> acquire_step s (s\<lparr>ws_pcs := (ws_pcs s)(i := W_Failing)\<rparr>)"
| undo: "ws_pcs s i = W_Failing \<Longrightarrow>
     acquire_step s (s\<lparr>ws := (ws s)\<lparr>g_wsa_refcount := g_wsa_refcount (ws s) - 1\<rparr>, ws_pcs := (ws_pcs s)(i := W_Out)\<rparr>)"

definition ws_start :: ws_state where
  "ws_start = \<lparr>ws = winsock_idle, ws_pcs = (\<lambda>_. W_Out)\<rparr>"

text \<open>A thread running alone takes the path of the function.\<close>

lemma acquire_step_function:
  assumes "ws_pcs s i = W_Out" "winsock_acquire ok (ws s) = (r, w)"
  shows "acquire_step\<^sup>*\<^sup>* s (s\<lparr>ws := w, ws_pcs := (ws_pcs s)(i := if r then W_In else W_Out)\<rparr>)"
proof (cases "g_wsa_refcount (ws s) + 1 = 1")
  case False
  then show ?thesis using assms later [OF assms(1)] by (auto simp: winsock_acquire_def Let_def)
next
  case True
  let ?s1 = "s\<lparr>ws := (ws s)\<lparr>g_wsa_refcount := g_wsa_refcount (ws s) + 1\<rparr>, ws_pcs := (ws_pcs s)(i := W_Starting)\<rparr>"
  have 1: "acquire_step s ?s1" by (rule first [OF assms(1) True])
  show ?thesis
  proof (cases ok)
    case ok: True
    have "acquire_step\<^sup>*\<^sup>* s (?s1\<lparr>ws := (ws ?s1)\<lparr>wsa_started := wsa_started (ws ?s1) + 1\<rparr>, ws_pcs := (ws_pcs ?s1)(i := W_In)\<rparr>)"
      using 1 startup [of ?s1 i] by (auto intro: rtranclp.rtrancl_into_rtrancl)
    then show ?thesis using True ok assms(2) by (auto simp: winsock_acquire_def Let_def)
  next
    case nok: False
    let ?s2 = "?s1\<lparr>ws_pcs := (ws_pcs ?s1)(i := W_Failing)\<rparr>"
    have "acquire_step ?s1 ?s2" by (rule startup_fails) simp
    moreover have "acquire_step ?s2 (?s2\<lparr>ws := (ws ?s2)\<lparr>g_wsa_refcount := g_wsa_refcount (ws ?s2) - 1\<rparr>,
        ws_pcs := (ws_pcs ?s2)(i := W_Out)\<rparr>)" by (rule undo) simp
    ultimately have "acquire_step\<^sup>*\<^sup>* s (?s2\<lparr>ws := (ws ?s2)\<lparr>g_wsa_refcount := g_wsa_refcount (ws ?s2) - 1\<rparr>,
        ws_pcs := (ws_pcs ?s2)(i := W_Out)\<rparr>)"
      using 1 by (meson converse_rtranclp_into_rtranclp rtranclp.rtrancl_refl)
    then show ?thesis using True nok assms by (auto simp: winsock_acquire_def Let_def)
  qed
qed

lemma acquire_race:
  assumes "i \<noteq> j"
  shows "acquire_step\<^sup>*\<^sup>* ws_start \<lparr>ws = \<lparr>g_wsa_refcount = 1, wsa_started = 0\<rparr>, ws_pcs = (\<lambda>_. W_Out)(j := W_In)\<rparr>"
proof -
  let ?w = "\<lambda>n. \<lparr>g_wsa_refcount = n, wsa_started = 0\<rparr>"
  have "acquire_step ws_start \<lparr>ws = ?w 1, ws_pcs = (\<lambda>_. W_Out)(i := W_Starting)\<rparr>"
    using first [of ws_start i] by (simp add: ws_start_def winsock_idle_def)
  moreover have "acquire_step \<lparr>ws = ?w 1, ws_pcs = (\<lambda>_. W_Out)(i := W_Starting)\<rparr>
      \<lparr>ws = ?w 2, ws_pcs = (\<lambda>_. W_Out)(i := W_Starting, j := W_In)\<rparr>"
    using later [of "\<lparr>ws = ?w 1, ws_pcs = (\<lambda>_. W_Out)(i := W_Starting)\<rparr>" j] assms by simp
  moreover have "acquire_step \<lparr>ws = ?w 2, ws_pcs = (\<lambda>_. W_Out)(i := W_Starting, j := W_In)\<rparr>
      \<lparr>ws = ?w 2, ws_pcs = (\<lambda>_. W_Out)(i := W_Failing, j := W_In)\<rparr>"
    using startup_fails [of "\<lparr>ws = ?w 2, ws_pcs = (\<lambda>_. W_Out)(i := W_Starting, j := W_In)\<rparr>" i] assms
    by (simp add: fun_upd_twist)
  moreover have "acquire_step \<lparr>ws = ?w 2, ws_pcs = (\<lambda>_. W_Out)(i := W_Failing, j := W_In)\<rparr>
      \<lparr>ws = ?w 1, ws_pcs = (\<lambda>_. W_Out)(j := W_In)\<rparr>"
    using undo [of "\<lparr>ws = ?w 2, ws_pcs = (\<lambda>_. W_Out)(i := W_Failing, j := W_In)\<rparr>" i] assms
    by (simp add: fun_upd_twist fun_upd_idem)
  ultimately show ?thesis by (meson converse_rtranclp_into_rtranclp rtranclp.rtrancl_refl)
qed

section \<open>Properties\<close>

text \<open>
  C40. The Winsock reference count is right for calls made one after the other and wrong for
  concurrent ones. Sequentially, with fewer than \<open>2 ^ 31\<close> calls, Winsock is started exactly
  once while any client exists and not at all otherwise, whatever start-ups fail. But when two
  threads create their clients at the same time, there is a run in which the start-up fails in one
  of them and the other is told that Winsock is ready, although it was never started.
\<close>

theorem winsock_refcount:
  "(\<forall>cs. length cs < 2 ^ 31 \<longrightarrow> (case winsock_run cs (winsock_idle, 0) of (w, k) \<Rightarrow>
        g_wsa_refcount w = word_of_nat k \<and> wsa_started w = (if k = 0 then 0 else 1)))
   \<and> (\<forall>i j. i \<noteq> j \<longrightarrow> (\<exists>s. acquire_step\<^sup>*\<^sup>* ws_start s \<and> ws_pcs s i = W_Out \<and> ws_pcs s j = W_In
        \<and> wsa_started (ws s) = 0))"
proof (intro conjI allI impI)
  fix cs :: "bool option list"
  assume "length cs < 2 ^ 31"
  then have "winsock_inv (winsock_run cs (winsock_idle, 0))"
    by (intro winsock_run_inv) (simp_all add: winsock_inv_def winsock_idle_def)
  then show "case winsock_run cs (winsock_idle, 0) of (w, k) \<Rightarrow>
      g_wsa_refcount w = word_of_nat k \<and> wsa_started w = (if k = 0 then 0 else 1)" by (simp add: winsock_inv_def)
next
  fix i j :: nat
  assume ij: "i \<noteq> j"
  from acquire_race [OF ij] ij
  show "\<exists>s. acquire_step\<^sup>*\<^sup>* ws_start s \<and> ws_pcs s i = W_Out \<and> ws_pcs s j = W_In \<and> wsa_started (ws s) = 0"
    by (intro exI [of _ "\<lparr>ws = \<lparr>g_wsa_refcount = 1, wsa_started = 0\<rparr>, ws_pcs = (\<lambda>_. W_Out)(j := W_In)\<rparr>"]) simp
qed

theorem winsock_refcount_witness:
  "(case winsock_run [Some False, Some True, Some True, None, None] (winsock_idle, 0) of (w, k) \<Rightarrow>
      g_wsa_refcount w = 0 \<and> wsa_started w = 0 \<and> k = 0)
   \<and> (\<exists>s. acquire_step\<^sup>*\<^sup>* ws_start s \<and> ws_pcs s 0 = W_Out \<and> ws_pcs s 1 = W_In \<and> wsa_started (ws s) = 0)"
proof -
  have "snd (winsock_run [Some False, Some True, Some True, None, None] (winsock_idle, 0)) = 0"
    by (simp add: winsock_acquire_def winsock_release_def winsock_idle_def Let_def)
  then show ?thesis
    using winsock_refcount [THEN conjunct1, rule_format, of "[Some False, Some True, Some True, None, None]"]
      winsock_refcount [THEN conjunct2, rule_format, of 0 1]
    by (auto simp del: winsock_run.simps split: prod.splits)
qed

end
