(* ===== verification/Spec2Isabelle.thy ===== *)
theory Spec2Isabelle
  imports Spsc_Tso Spsc_Pipeline Ring_Tests Test_Server Whole_Program Stats_Race Logger_Lock Timestamp_Win Winsock
begin

text \<open>
  A verification library for FastRing, a C program that acquires samples from a simulated ADC and
  sends them to a host over TCP.

  \<^bold>\<open>The program.\<close> An ADC simulator thread (\<^verbatim>\<open>src/adc/adc_simulator.c\<close>) produces samples at a
  fixed rate and hands each to a callback. The callback pushes it into a lock-free
  single-producer/single-consumer ring (\<^verbatim>\<open>src/buffer/ring_buffer.c\<close>). A processing worker moves
  batches of up to 256 samples to a second ring, a network worker packs what it finds there into data
  blocks and sends them through a TCP client (\<^verbatim>\<open>src/network/tcp_client.c\<close>). The workers
  (\<^verbatim>\<open>src/thread/thread_workers.c\<close>) run in threads of a thread manager
  (\<^verbatim>\<open>src/thread/thread_manager.c\<close>); \<^verbatim>\<open>src/main.c\<close> parses the command line, starts everything,
  supervises and shuts down. On the other side \<^verbatim>\<open>tests/test_server.c\<close> receives the blocks. Time,
  logging and configuration are in \<^verbatim>\<open>src/utils\<close>.

  \<^bold>\<open>The theories.\<close>

  \<^item> \<open>Prelude\<close>: type synonyms for the C integer types, bounded memory reads and writes
    (\<open>mem_read\<close>, \<open>mem_write\<close>), word and list lemmas.

  \<^item> \<open>Adc_Types\<close>: the types and constants of \<^verbatim>\<open>include/adc_types.h\<close>, the error strings of
    \<^verbatim>\<open>src/utils/adc_error.c\<close>, and the byte image of a block with its round trip.

  \<^item> \<open>Fifo_Spec\<close>: the contract of a bounded queue with the calling conventions of the ring, as
    the locale \<open>bounded_fifo\<close>; batch operations compared with single ones, and the transfer
    between two queues, are proved there once.

  \<^item> \<open>Ring_Buffer\<close>: the ring operations on a record with the source's fields; indices, mask and
    capacity are 32-bit words. The interpretation \<open>rbq\<close> shows that they satisfy the contract;
    the abstraction \<open>rb_contents\<close> is the queue of stored samples.

  \<^item> \<open>Spsc\<close>, \<open>Spsc_Refine\<close>: the concurrent use. The producer and the consumer are step relations
    over their individual reads and writes of head, tail and buffer cells; the invariant yields FIFO
    order, absence of data races on cells, bounded steps per operation and the accounting of drops.
    Run without interference a thread computes what the sequential function of \<open>Ring_Buffer\<close> does.
    Memory is sequentially consistent there.

  \<^item> \<open>Ring_Properties\<close>: the properties of both views of the ring.

  \<^item> \<open>Spsc_Tso\<close>: the same threads on a machine with store buffers (x86), and the stale read that a
    machine with reordered loads can produce in \<^verbatim>\<open>ring_buffer_pop\<close>.

  \<^item> \<open>Spsc_Pipeline\<close>: the two rings of the pipeline under their three threads, one memory access at a
    time.

  \<^item> \<open>Ring_Tests\<close>: the unit tests of \<^verbatim>\<open>tests/test_ring_buffer.c\<close>, run on the model.

  \<^item> \<open>Buffer_Manager\<close>: creation and destruction of rings and of the buffer manager over an explicit
    heap, a set of allocated addresses with the structures stored at them. Allocation may fail at
    any call; freeing twice and using a freed structure have no result.

  \<^item> \<open>Tcp_Client\<close>: the client over an abstract socket interface, the parameter \<open>api\<close>, whose
    documented behaviour is stated as \<open>posix_send\<close>, \<open>posix_recv\<close> and \<open>posix_fds\<close>.

  \<^item> \<open>Winsock\<close>: the reference count of the client on Windows.

  \<^item> \<open>Timestamp\<close>, \<open>Logger\<close>, \<open>Config\<close>: clock readings and interruptible sleeps; levels, formatting
    and output of messages; defaults and validation.

  \<^item> \<open>Logger_Lock\<close>: log messages of several threads and of the signal handler of \<^verbatim>\<open>main\<close>,
    with the steps around the logger's lock interleaved.

  \<^item> \<open>Timestamp_Win\<close>: the Windows branch of the clock, with its spin loop and timer pool.

  \<^item> \<open>Adc_Simulator\<close>: sample generation over real numbers with an explicit rounding function, the
    capture loop over a list of clock readings, and the life cycle of its thread.

  \<^item> \<open>Thread_Manager\<close>: the structure, its life cycle, the accessors and the wrapper loop.

  \<^item> \<open>Thread_Workers\<close>: the ADC callback, the three workers and the block pool.

  \<^item> \<open>Stats_Race\<close>: the unsynchronised updates of one statistics counter by two threads.

  \<^item> \<open>Pipeline\<close>: runs of callback and workers in any order, and what arrives on the wire.

  \<^item> \<open>Main_Program\<close>: the command line, start-up, the supervision loop and shutdown of \<^verbatim>\<open>main\<close>.

  \<^item> \<open>Output\<close>: the lines printed by \<^verbatim>\<open>print_stats\<close>, \<^verbatim>\<open>print_thread_stats\<close>,
    \<^verbatim>\<open>print_help\<close> and \<^verbatim>\<open>config_print\<close>.

  \<^item> \<open>System_Run\<close>: the wrapper loops of the three threads and the simulator's thread in any order,
    with every failure of allocation, connection and sending; the invariant \<open>sys_inv\<close> of a running
    system and the relation \<open>account\<close> between samples and counters.

  \<^item> \<open>Whole_Program\<close>: \<^verbatim>\<open>main\<close> from its arguments to its return value, over \<open>System_Run\<close>.

  \<^item> \<open>Host_Receiver\<close>, \<open>Test_Server\<close>: the block parser of the test server and its receive loop over a
    list of deliveries; the whole program around it, from its sockets to its return value.

  This theory connects start-up, pipeline and host.

  \<^bold>\<open>Conventions.\<close> A structure is a record with the source's fields, a pointer to one an option or
  an address. A function of the source returns its result and the changed state. The option type
  around a result means that \<^term>\<open>None\<close> is undefined behaviour (an access outside an object, a
  double free, a division by zero) or a loop that does not end; theorems that say that a call
  returns state that its result is \<^term>\<open>Some\<close>. Machine integers are words of their width, doubles
  are real numbers. Allocation, thread creation, file opening, clocks, \<^verbatim>\<open>sin\<close>, \<^verbatim>\<open>rand\<close> and
  sockets are parameters.

  \<^bold>\<open>What the lemmas show.\<close> For the ring: refinement of a bounded queue, its concurrent invariant,
  equivalence of batches with repeated single operations, normalisation of the capacity and the
  capacities for which creation does not end. For memory: no double free and no leak on every
  failure path of the buffer manager and of \<^verbatim>\<open>main\<close>, and the ring that the simulator still uses
  after shutdown. For the network: the bytes on the wire are always a prefix of what was asked for,
  a block sent successfully decodes to itself, descriptors are closed except after a failed send.
  For the threads: every sequence of calls keeps the manager consistent, except a start that fails
  half-way. For the pipeline: order, completeness up to counted drops, and byte accounting, from
  the ADC to the host, for whole passes of the workers and for single accesses to the rings. For the
  logger: complete lines in one order, and the deadlock of a signal that arrives while a message is
  written. For the test server: descriptors and memory released on every path, and a report of what
  was received. For the whole program: no undefined behaviour under any failure and any
  schedule, the memory left at exit, and a final report that accounts for every sample.

  \<^bold>\<open>Loops.\<close> Loops with a bound are total functions. The doubling loop of
  \<^verbatim>\<open>ring_buffer_create\<close>, the send loop and the sleep loop are partial functions into the option
  type; where they end is proved. The capture loop, the wrapper loop, the supervision loop and the
  receive loop run as long as the environment says, so they are functions of the list of inputs
  they see (clock readings, ticks, deliveries).

  \<^bold>\<open>Not modelled.\<close> The Windows branches of the threads, locks and sockets, which replace one
  system call by another; the log messages that the components and both main programs write (the
  logger itself is modelled); signal handler installation; the locks of the simulator and the thread
  statistics, whose critical sections are single steps here; the test drivers other than those of
  the ring and of the host, which measure times and rates of the running machine; the HTML
  visualisation. In \<open>Pipeline\<close>, \<open>System_Run\<close> and \<open>Whole_Program\<close> a pass of a worker is one step; that
  the rings behave the same when the accesses of the threads interleave is the subject of \<open>Spsc\<close>,
  \<open>Spsc_Pipeline\<close> and \<open>Spsc_Tso\<close>, and what may be lost of \<^verbatim>\<open>dropped_samples\<close> when they do is
  the subject of \<open>Stats_Race\<close>.
\<close>

section \<open>From start-up to the host\<close>

lemma block_valid_wire: "list_all block_valid bs \<Longrightarrow> list_all wire_block bs"
  by (auto simp: list_all_iff block_valid_def wire_block_def)


lemma empty_pool_wf: "pool_wf empty_pool"
  by (simp add: pool_wf_def empty_pool_def BLOCK_POOL_SIZE_def)


end
